(* ===== verification/Prelude.thy ===== *)
theory Prelude
  imports Complex_Main "HOL-Library.Word" "HOL-Library.AList" "HOL-Library.Char_ord"
    "HOL-Library.List_Lexorder" "HOL-Library.Monad_Syntax" "HOL-Library.Multiset"
begin

text \<open>
  Shared vocabulary of the netmux development: the fixed-width integer types, Rust slices with
  their panics, big-endian byte pairs, the hash maps of the standard library, the radix printing
  and reading of numbers used by \<open>Display\<close> and \<open>FromStr\<close>, and locales for invariants and
  refinements of transition systems.

  A computation that can panic has type \<open>'a rust\<close>: \<open>None\<close> is the panic, \<open>Some r\<close> a
  normal return of \<open>r\<close>.  A Rust function that itself returns an \<open>Option\<close> and may panic
  therefore has a nested option as its result, the outer layer being the panic.
\<close>

unbundle bit_operations_syntax

type_synonym u8 = "8 word"
type_synonym u16 = "16 word"
type_synonym u32 = "32 word"
type_synonym u64 = "64 word"
type_synonym bytes = "u8 list"
type_synonym 'a rust = "'a option"

named_theorems rust_ok "slice operations that are in range do not panic"
named_theorems word_nat "machine integers read as natural numbers"

section \<open>Slices\<close>

definition idx :: "'a list \<Rightarrow> nat \<Rightarrow> 'a rust" where
  "idx xs i = (if i < length xs then Some (xs ! i) else None)"

definition subslice :: "'a list \<Rightarrow> nat \<Rightarrow> nat \<Rightarrow> 'a list rust" where
  "subslice xs a b = (if a \<le> b \<and> b \<le> length xs then Some (take (b - a) (drop a xs)) else None)"

definition set_idx :: "'a list \<Rightarrow> nat \<Rightarrow> 'a \<Rightarrow> 'a list rust" where
  "set_idx xs i v = (if i < length xs then Some (xs[i := v]) else None)"

definition blit :: "nat \<Rightarrow> 'a list \<Rightarrow> 'a list \<Rightarrow> 'a list" where
  "blit a ys xs = take a xs @ ys @ drop (a + length ys) xs"

text \<open>\<open>xs[a..b].copy_from_slice(ys)\<close>: the lengths must agree.\<close>

definition copy_from_slice :: "'a list \<Rightarrow> nat \<Rightarrow> nat \<Rightarrow> 'a list \<Rightarrow> 'a list rust" where
  "copy_from_slice xs a b ys =
     (if a \<le> b \<and> b \<le> length xs \<and> length ys = b - a then Some (blit a ys xs) else None)"

lemma idx_ok [rust_ok]: "i < length xs \<Longrightarrow> idx xs i = Some (xs ! i)"
  by (simp add: idx_def)

lemma subslice_ok [rust_ok]:
  "a \<le> b \<Longrightarrow> b \<le> length xs \<Longrightarrow> subslice xs a b = Some (take (b - a) (drop a xs))"
  by (simp add: subslice_def)

lemma set_idx_ok [rust_ok]: "i < length xs \<Longrightarrow> set_idx xs i v = Some (xs[i := v])"
  by (simp add: set_idx_def)

lemma copy_from_slice_ok [rust_ok]:
  "a \<le> b \<Longrightarrow> b \<le> length xs \<Longrightarrow> length ys = b - a \<Longrightarrow>
   copy_from_slice xs a b ys = Some (blit a ys xs)"
  by (simp add: copy_from_slice_def)

lemma length_blit [simp]: "a + length ys \<le> length xs \<Longrightarrow> length (blit a ys xs) = length xs"
  by (simp add: blit_def)

lemma nth_blit:
  assumes "a + length ys \<le> length xs" "i < length xs"
  shows "blit a ys xs ! i = (if a \<le> i \<and> i < a + length ys then ys ! (i - a) else xs ! i)"
  using assms by (auto simp: blit_def nth_append min_def)

lemma blit_in [simp]:
  "a + length ys \<le> length xs \<Longrightarrow> i < length ys \<Longrightarrow> blit a ys xs ! (a + i) = ys ! i"
  by (simp add: nth_blit)

lemma blit_out:
  "a + length ys \<le> length xs \<Longrightarrow> i < length xs \<Longrightarrow> i < a \<or> a + length ys \<le> i \<Longrightarrow>
   blit a ys xs ! i = xs ! i"
  by (auto simp: nth_blit)

lemma take_blit_before: "n \<le> a \<Longrightarrow> a \<le> length xs \<Longrightarrow> take n (blit a ys xs) = take n xs"
  by (simp add: blit_def min_def)

lemma drop_blit_after:
  "a + length ys \<le> n \<Longrightarrow> a + length ys \<le> length xs \<Longrightarrow> drop n (blit a ys xs) = drop n xs"
  by (simp add: blit_def add.commute)

lemma take_blit_across:
  "a + length ys \<le> n \<Longrightarrow> n \<le> length xs \<Longrightarrow> take n (blit a ys xs) = blit a ys (take n xs)"
  by (rule nth_equalityI) (auto simp: nth_blit)

lemma drop_blit_across:
  "n \<le> a \<Longrightarrow> a + length ys \<le> length xs \<Longrightarrow> drop n (blit a ys xs) = blit (a - n) ys (drop n xs)"
  by (simp add: blit_def drop_take)

lemma blit_blit_same:
  "a + length ys \<le> length xs \<Longrightarrow> length zs = length ys \<Longrightarrow>
   blit a zs (blit a ys xs) = blit a zs xs"
  by (simp add: blit_def)

lemma two_updates_blit: "Suc a < length xs \<Longrightarrow> xs[a := u, Suc a := v] = blit a [u, v] xs"
  by (rule nth_equalityI) (auto simp: nth_blit nth_list_update nth_Cons' intro: le_antisym)

section \<open>Big-endian pairs\<close>

definition be16 :: "u8 \<Rightarrow> u8 \<Rightarrow> u16" where
  "be16 a b = of_nat (unat a * 256 + unat b)"

definition to_be16 :: "u16 \<Rightarrow> bytes" where
  "to_be16 w = [of_nat (unat w div 256), of_nat (unat w mod 256)]"

lemma unat_u8_less [simp]: "unat (a :: u8) < 256"
  using unsigned_less [where 'b = 8 and 'a = nat, of a] by simp

lemma unat_u16_less [simp]: "unat (a :: u16) < 65536"
  using unsigned_less [where 'b = 16 and 'a = nat, of a] by simp

lemma unat_u32_less [simp]: "unat (a :: u32) < 4294967296"
  using unsigned_less [where 'b = 32 and 'a = nat, of a] by simp

lemma unat_u64_less [simp]: "unat (a :: u64) < 18446744073709551616"
  using unsigned_less [where 'b = 64 and 'a = nat, of a] by simp

lemma unat_of_nat_u8 [word_nat]: "n < 256 \<Longrightarrow> unat (of_nat n :: u8) = n"
  by (simp add: unat_of_nat)

lemma unat_of_nat_u16 [word_nat]: "n < 65536 \<Longrightarrow> unat (of_nat n :: u16) = n"
  by (simp add: unat_of_nat)

lemma unat_of_nat_u32 [word_nat]: "n < 4294967296 \<Longrightarrow> unat (of_nat n :: u32) = n"
  by (simp add: unat_of_nat)

lemma unat_of_nat_u64 [word_nat]: "n < 18446744073709551616 \<Longrightarrow> unat (of_nat n :: u64) = n"
  by (simp add: unat_of_nat)

lemma unat_be16 [word_nat]: "unat (be16 a b) = unat a * 256 + unat b"
proof -
  have "unat a * 256 + unat b < 65536"
    using unat_u8_less [of a] unat_u8_less [of b] by linarith
  then show ?thesis by (simp only: be16_def unat_of_nat_u16)
qed

lemma length_to_be16 [simp]: "length (to_be16 w) = 2"
  by (simp add: to_be16_def)

lemma to_be16_be16 [simp]: "to_be16 (be16 a b) = [a, b]"
  using unat_u8_less [of b] by (simp add: to_be16_def unat_be16)

lemma be16_to_be16 [simp]: "be16 (to_be16 w ! 0) (to_be16 w ! 1) = w"
proof -
  have "unat w div 256 < 256" using unat_u16_less [of w] by linarith
  then have "unat (of_nat (unat w div 256) :: u8) * 256 + unat (of_nat (unat w mod 256) :: u8) = unat w"
    by (simp add: unat_of_nat)
  then show ?thesis by (simp add: be16_def to_be16_def)
qed

lemma to_be16_cases: obtains a b where "to_be16 w = [a, b]" "be16 a b = w"
  using be16_to_be16 [of w] by (simp add: to_be16_def)

lemma be16_inject [simp]: "be16 a b = be16 c d \<longleftrightarrow> a = c \<and> b = d"
  by (metis list.inject to_be16_be16)

lemma unat_shr4: "unat (drop_bit 4 (w :: u8)) = unat w div 16"
  by (simp add: drop_bit_eq_div unat_div)

lemma unat_low_nibble: "unat (w AND 15 :: u8) = unat w mod 16"
proof -
  have "w AND 15 = w mod 16"
    by (simp flip: take_bit_eq_mask [of 4 w, unfolded mask_eq_exp_minus_1, simplified]
        add: take_bit_eq_mod)
  then show ?thesis by (simp add: unat_mod)
qed

lemma low_nibble_less: "unat (w AND 15 :: u8) < 16"
  by (simp add: unat_low_nibble)

section \<open>Hash maps\<close>

text \<open>
  \<open>std::collections::HashMap\<close>.  What the code relies on: \<open>get\<close> after \<open>insert\<close>, and that
  an iteration visits every entry once, in an order that is not specified.  The model stores the
  entries as a list of distinct keys whose order is the iteration order; a statement about code
  that iterates is proved for every such list, hence for every iteration order.
\<close>

locale hash_map =
  fixes hget :: "'m \<Rightarrow> 'k \<Rightarrow> 'v option"
    and hinsert :: "'k \<Rightarrow> 'v \<Rightarrow> 'm \<Rightarrow> 'm"
    and entries :: "'m \<Rightarrow> ('k \<times> 'v) list"
    and ok :: "'m \<Rightarrow> bool"
  assumes get_insert: "hget (hinsert k v m) = (hget m)(k \<mapsto> v)"
    and ok_insert: "ok m \<Longrightarrow> ok (hinsert k v m)"
    and entries_get: "ok m \<Longrightarrow> set (entries m) = {(k, v). hget m k = Some v}"
    and distinct_entries: "ok m \<Longrightarrow> distinct (map fst (entries m))"
begin

lemma keys_entries: "ok m \<Longrightarrow> set (map fst (entries m)) = dom (hget m)"
  by (force simp: entries_get dom_def)

lemma values_entries: "ok m \<Longrightarrow> v \<in> set (map snd (entries m)) \<longleftrightarrow> (\<exists>k. hget m k = Some v)"
  by (force simp: entries_get)

lemma count_entries: "ok m \<Longrightarrow> length (entries m) = card (dom (hget m))"
  by (metis distinct_card distinct_entries keys_entries length_map)

lemma count_insert:
  assumes "ok m"
  shows "length (entries (hinsert k v m)) =
    (if hget m k = None then Suc (length (entries m)) else length (entries m))"
proof -
  have "finite (dom (hget m))"
    using keys_entries [OF assms] by (metis List.finite_set)
  then show ?thesis
    using assms by (simp add: count_entries ok_insert get_insert card_insert_if domIff)
qed

lemma insert_keeps: "hget m k = Some v \<Longrightarrow> k \<noteq> k' \<Longrightarrow> hget (hinsert k' v' m) k = Some v"
  by (simp add: get_insert)

end

type_synonym ('k, 'v) hmap = "('k \<times> 'v) list"

abbreviation hm_get :: "('k, 'v) hmap \<Rightarrow> 'k \<Rightarrow> 'v option" where
  "hm_get \<equiv> map_of"

abbreviation hm_insert :: "'k \<Rightarrow> 'v \<Rightarrow> ('k, 'v) hmap \<Rightarrow> ('k, 'v) hmap" where
  "hm_insert \<equiv> AList.update"

definition hm_ok :: "('k, 'v) hmap \<Rightarrow> bool" where
  "hm_ok m \<longleftrightarrow> distinct (map fst m)"

interpretation hm: hash_map hm_get hm_insert "\<lambda>m. m" hm_ok
proof
  show "hm_get (hm_insert k v m) = (hm_get m)(k \<mapsto> v)" for k :: 'a and v :: 'b and m
    by (rule update_conv')
  show "hm_ok (hm_insert k v m)" if "hm_ok m" for k :: 'a and v :: 'b and m
    using that by (simp add: hm_ok_def distinct_update)
  show "set m = {(k, v). hm_get m k = Some v}" if "hm_ok m" for m :: "('a \<times> 'b) list"
    using that by (auto simp: hm_ok_def)
  show "distinct (map fst m)" if "hm_ok m" for m :: "('a \<times> 'b) list"
    using that by (simp add: hm_ok_def)
qed

lemma hm_ok_Nil [simp]: "hm_ok []"
  by (simp add: hm_ok_def)

lemmas hm_simps = hm.get_insert hm.ok_insert

text \<open>Another iteration order of the same map.\<close>

lemma hm_get_perm:
  assumes "hm_ok m" "mset m' = mset m"
  shows "hm_ok m'" "hm_get m' = hm_get m"
proof -
  have "mset (map fst m') = mset (map fst m)"
    using assms(2) by simp
  then show "hm_ok m'"
    using assms(1) unfolding hm_ok_def by (metis mset_eq_imp_distinct_iff)
  then show "hm_get m' = hm_get m"
    using assms by (metis hm_ok_def map_of_eqI map_of_inject_set mset_eq_setD set_map)
qed

section \<open>Sorting by a key\<close>

text \<open>\<open>sort_by\<close> and \<open>sort_by_key\<close> are stable, as \<open>sort_key\<close> is; where the key identifies the element
  the result depends on the multiset only.\<close>

lemma sort_key_perm:
  assumes "mset xs = mset ys" "inj_on f (set xs)"
  shows "sort_key f xs = sort_key f ys"
proof (rule properties_for_sort_key)
  show "mset (sort_key f ys) = mset xs" using assms(1) by simp
  show "sorted (map f (sort_key f ys))" by simp
  fix k
  assume "k \<in> set (sort_key f ys)"
  then have k: "k \<in> set xs" using assms(1) by (metis mset_eq_setD set_sort)
  have sub: "filter (\<lambda>x. f k = f x) zs = filter ((=) k) zs" if "set zs = set xs" for zs
    using k that assms(2) by (intro filter_cong) (auto dest: inj_onD)
  have "filter (\<lambda>x. f k = f x) (sort_key f ys) = replicate (count (mset ys) k) k"
    using sub [of "sort_key f ys"] assms(1) by (metis filter_eq_replicate_mset mset_eq_setD mset_sort set_sort
        mset_filter count_mset replicate_count_mset_eq_filter_eq)
  moreover have "filter (\<lambda>x. f k = f x) xs = replicate (count (mset xs) k) k"
    using sub [of xs] by (metis replicate_count_mset_eq_filter_eq)
  ultimately show "filter (\<lambda>x. f k = f x) (sort_key f ys) = filter (\<lambda>x. f k = f x) xs"
    using assms(1) by simp
qed

section \<open>Numbers as text\<close>

function radix :: "nat \<Rightarrow> nat \<Rightarrow> nat list" where
  "radix b n = (if n < b \<or> b < 2 then [n] else radix b (n div b) @ [n mod b])"
  by pat_completeness auto
termination
  by (relation "measure snd") (auto simp: div_less_dividend)

declare radix.simps [simp del]

definition horner :: "nat \<Rightarrow> nat list \<Rightarrow> nat" where
  "horner b ds = foldl (\<lambda>a d. a * b + d) 0 ds"

lemma horner_Nil [simp]: "horner b [] = 0"
  by (simp add: horner_def)

lemma horner_snoc [simp]: "horner b (ds @ [d]) = horner b ds * b + d"
  by (simp add: horner_def)

lemma radix_small: "n < b \<Longrightarrow> radix b n = [n]"
  by (simp add: radix.simps)

lemma radix_big: "b \<le> n \<Longrightarrow> 2 \<le> b \<Longrightarrow> radix b n = radix b (n div b) @ [n mod b]"
  by (subst radix.simps) simp

lemma horner_radix [simp]: "2 \<le> b \<Longrightarrow> horner b (radix b n) = n"
proof (induction n rule: less_induct)
  case (less n)
  show ?case
  proof (cases "n < b")
    case True
    then show ?thesis using horner_snoc [of b "[]" n] by (simp add: radix_small)
  next
    case False
    then have "n div b < n" using less.prems by (auto intro: div_less_dividend)
    then show ?thesis using less False by (simp add: radix_big)
  qed
qed

lemma radix_digits: "2 \<le> b \<Longrightarrow> d \<in> set (radix b n) \<Longrightarrow> d < b"
proof (induction n rule: less_induct)
  case (less n)
  show ?case
  proof (cases "n < b")
    case True
    then show ?thesis using less.prems by (simp add: radix_small)
  next
    case False
    then have "n div b < n" using less.prems by (auto intro: div_less_dividend)
    from less.IH [OF this] show ?thesis using less.prems False by (auto simp: radix_big)
  qed
qed

lemma radix_nonempty [simp]: "radix b n \<noteq> []"
  by (subst radix.simps) simp

lemma hd_radix: "2 \<le> b \<Longrightarrow> hd (radix b n) = 0 \<Longrightarrow> n = 0"
proof (induction n rule: less_induct)
  case (less n)
  show ?case
  proof (cases "n < b")
    case True
    then show ?thesis using less.prems by (simp add: radix_small)
  next
    case False
    then have lt: "n div b < n" and nz: "n div b \<noteq> 0"
      using less.prems by (auto simp: div_eq_0_iff intro: div_less_dividend)
    have "hd (radix b n) = hd (radix b (n div b))"
      using False less.prems by (simp add: radix_big)
    with less.prems have "n div b = 0"
      by (intro less.IH [OF lt]) simp_all
    with nz show ?thesis by contradiction
  qed
qed

lemma length_radix: "2 \<le> b \<Longrightarrow> n < b ^ Suc k \<Longrightarrow> length (radix b n) \<le> Suc k"
proof (induction k arbitrary: n)
  case 0
  then show ?case by (simp add: radix_small)
next
  case (Suc k)
  then have "n div b < b ^ Suc k" by (simp add: less_mult_imp_div_less mult.commute)
  with Suc have "length (radix b (n div b)) \<le> Suc k" by blast
  then show ?case using Suc.prems by (cases "n < b") (auto simp: radix_small radix_big)
qed

section \<open>Invariants of transition systems\<close>

locale invariant_system =
  fixes init :: "'s \<Rightarrow> bool"
    and step :: "'s \<Rightarrow> 's \<Rightarrow> bool"
    and inv :: "'s \<Rightarrow> bool"
  assumes init_inv: "init s \<Longrightarrow> inv s"
    and step_inv: "inv s \<Longrightarrow> step s t \<Longrightarrow> inv t"
begin

lemma steps_inv: "rtranclp step s t \<Longrightarrow> inv s \<Longrightarrow> inv t"
  by (induction rule: rtranclp_induct) (auto intro: step_inv)

lemma reachable_inv: "init s \<Longrightarrow> rtranclp step s t \<Longrightarrow> inv t"
  by (blast intro: steps_inv init_inv)

end

text \<open>A system whose every step is, seen through \<open>abs\<close>, a step of a specification or no step at all.\<close>

locale refinement = invariant_system init step inv
  for init :: "'s \<Rightarrow> bool" and step :: "'s \<Rightarrow> 's \<Rightarrow> bool" and inv :: "'s \<Rightarrow> bool" +
  fixes abs :: "'s \<Rightarrow> 'a"
    and astep :: "'a \<Rightarrow> 'a \<Rightarrow> bool"
  assumes step_refines: "inv s \<Longrightarrow> step s t \<Longrightarrow> abs t = abs s \<or> astep (abs s) (abs t)"
begin

lemma steps_refine: "rtranclp step s t \<Longrightarrow> inv s \<Longrightarrow> rtranclp astep (abs s) (abs t)"
proof (induction rule: rtranclp_induct)
  case (step t u)
  have "inv t" by (rule steps_inv [OF step.hyps(1) step.prems])
  from step_refines [OF this step.hyps(2)] step.IH [OF step.prems] show ?case
    by (auto intro: rtranclp.rtrancl_into_rtrancl)
qed simp

lemma reachable_refines: "init s \<Longrightarrow> rtranclp step s t \<Longrightarrow> rtranclp astep (abs s) (abs t)"
  by (blast intro: steps_refine init_inv)

end

end
