(* ===== verification/Addr.thy ===== *)
theory Addr
  imports Prelude
begin

text \<open>
  The text forms of the standard library that netmux relies on: decimal and hexadecimal
  \<open>Display\<close> of unsigned integers, \<open>str::parse\<close> and \<open>from_str_radix\<close> for unsigned integers,
  \<open>str::trim\<close>, and \<open>Ipv4Addr\<close> with its \<open>FromStr\<close> parser (no leading zeros, at most three
  digits per octet, at most 15 bytes in all).  A string is the list of the bytes of its UTF-8
  encoding.
\<close>

section \<open>Digits\<close>

definition digit :: "nat \<Rightarrow> char" where
  "digit d = char_of (if d < 10 then 48 + d else 87 + d)"

definition to_digit :: "nat \<Rightarrow> char \<Rightarrow> nat option" where
  "to_digit b ch =
     (let c = of_char ch :: nat;
          d = (if 48 \<le> c \<and> c \<le> 57 then Some (c - 48)
               else if 97 \<le> c \<and> c \<le> 122 then Some (c - 87)
               else if 65 \<le> c \<and> c \<le> 90 then Some (c - 55) else None)
      in case d of Some v \<Rightarrow> if v < b then Some v else None | None \<Rightarrow> None)"

definition digits_value :: "nat \<Rightarrow> string \<Rightarrow> nat option" where
  "digits_value b s = map_option (horner b) (those (map (to_digit b) s))"

definition show_dec :: "nat \<Rightarrow> string" where
  "show_dec n = map digit (radix 10 n)"

definition show_hex :: "nat \<Rightarrow> string" where
  "show_hex n = map digit (radix 16 n)"

lemma digit_chars [simp]:
  "digit 0 = CHR ''0''"
  "digit 1 = CHR ''1''"
  "digit 2 = CHR ''2''"
  "digit 3 = CHR ''3''"
  "digit 4 = CHR ''4''"
  "digit 5 = CHR ''5''"
  "digit 6 = CHR ''6''"
  "digit 7 = CHR ''7''"
  "digit 8 = CHR ''8''"
  "digit 9 = CHR ''9''"
  "digit 10 = CHR ''a''"
  "digit 11 = CHR ''b''"
  "digit 12 = CHR ''c''"
  "digit 13 = CHR ''d''"
  "digit 14 = CHR ''e''"
  "digit 15 = CHR ''f''"
  "digit (Suc 0) = CHR ''1''"
  by (simp_all add: digit_def char_of_eq_iff)

lemma to_digit_digit: "d < b \<Longrightarrow> b \<le> 36 \<Longrightarrow> to_digit b (digit d) = Some d"
  by (auto simp: to_digit_def digit_def Let_def)

lemma those_digits: "\<forall>d \<in> set ds. d < b \<Longrightarrow> b \<le> 36 \<Longrightarrow> those (map (to_digit b) (map digit ds)) = Some ds"
  by (induction ds) (auto simp: to_digit_digit)

lemma digits_value_dec [simp]: "digits_value 10 (show_dec n) = Some n"
  using those_digits [of "radix 10 n" 10]
  by (simp add: digits_value_def show_dec_def radix_digits)

lemma digits_value_hex [simp]: "digits_value 16 (show_hex n) = Some n"
  using those_digits [of "radix 16 n" 16]
  by (simp add: digits_value_def show_hex_def radix_digits)

lemma show_dec_inject [simp]: "show_dec m = show_dec n \<longleftrightarrow> m = n"
  by (metis digits_value_dec option.inject)

lemma show_hex_inject [simp]: "show_hex m = show_hex n \<longleftrightarrow> m = n"
  by (metis digits_value_hex option.inject)

lemma show_dec_nonempty [simp]: "show_dec n \<noteq> []" "show_hex n \<noteq> []"
  by (simp_all add: show_dec_def show_hex_def)

definition is_dec :: "char \<Rightarrow> bool" where
  "is_dec c \<longleftrightarrow> to_digit 10 c \<noteq> None"

lemma show_dec_is_dec: "c \<in> set (show_dec n) \<Longrightarrow> is_dec c"
  using radix_digits [of 10 _ n] by (auto simp: show_dec_def is_dec_def to_digit_digit)

lemma takeWhile_dec:
  assumes "r = [] \<or> \<not> is_dec (hd r)"
  shows "takeWhile is_dec (show_dec n @ r) = show_dec n" "dropWhile is_dec (show_dec n @ r) = r"
proof -
  have "takeWhile is_dec r = []" "dropWhile is_dec r = r"
    using assms by (cases r; simp)+
  then show "takeWhile is_dec (show_dec n @ r) = show_dec n" "dropWhile is_dec (show_dec n @ r) = r"
    using show_dec_is_dec [of _ n] by (simp_all add: takeWhile_append2 dropWhile_append2)
qed

lemma split_at_separator:
  "c \<notin> set a \<Longrightarrow> c \<notin> set b \<Longrightarrow> a @ c # x = b @ c # y \<longleftrightarrow> a = b \<and> x = y"
proof (induction a arbitrary: b)
  case Nil
  then show ?case by (cases b) auto
next
  case (Cons d a)
  then show ?case by (cases b) auto
qed

lemma length_show_dec_octet: "n < 256 \<Longrightarrow> length (show_dec n) \<le> 3"
  using length_radix [of 10 n 2] by (simp add: show_dec_def)

lemma show_dec_no_leading_zero: "hd (show_dec n) = CHR ''0'' \<Longrightarrow> length (show_dec n) = 1"
proof -
  assume "hd (show_dec n) = CHR ''0''"
  then have "digit (hd (radix 10 n)) = CHR ''0''"
    by (simp add: show_dec_def hd_map)
  moreover have "hd (radix 10 n) < 10"
    by (rule radix_digits [of 10 _ n]) simp_all
  ultimately have "to_digit 10 (CHR ''0'') = Some (hd (radix 10 n))"
    using to_digit_digit [of "hd (radix 10 n)" 10] by simp
  then have "hd (radix 10 n) = 0"
    by (simp add: to_digit_def)
  then have "n = 0" by (rule hd_radix [rotated]) simp
  then show ?thesis by (simp add: show_dec_def radix_small)
qed

section \<open>Unsigned integers from text\<close>

text \<open>
  \<open>uN::from_str_radix\<close>: an optional leading plus sign, then at least one digit of the radix, and
  the value must be below \<open>bound\<close> (\<open>checked_mul\<close> and \<open>checked_add\<close> fail otherwise).
\<close>

definition parse_uint :: "nat \<Rightarrow> nat \<Rightarrow> string \<Rightarrow> nat option" where
  "parse_uint b bound s =
     (let ds = (case s of CHR ''+'' # r \<Rightarrow> r | _ \<Rightarrow> s)
      in if ds = [] then None
         else case digits_value b ds of
                Some v \<Rightarrow> if v < bound then Some v else None
              | None \<Rightarrow> None)"

definition parse_u64 :: "string \<Rightarrow> u64 option" where
  "parse_u64 s = map_option of_nat (parse_uint 10 (2 ^ 64) s)"

definition is_space :: "char \<Rightarrow> bool" where
  "is_space ch = (let c = of_char ch :: nat in c = 32 \<or> (9 \<le> c \<and> c \<le> 13))"

definition trim :: "string \<Rightarrow> string" where
  "trim s = rev (dropWhile is_space (rev (dropWhile is_space s)))"

lemma digit_not_plus: "n < 10 \<Longrightarrow> digit n \<noteq> CHR ''+''"
  using to_digit_digit [of n 10] by (auto simp: to_digit_def)

lemma parse_uint_show_dec: "n < bound \<Longrightarrow> parse_uint 10 bound (show_dec n) = Some n"
proof -
  assume n: "n < bound"
  obtain c r where cr: "show_dec n = c # r" by (cases "show_dec n") auto
  then have "is_dec c" using show_dec_is_dec [of c n] by simp
  then have "c \<noteq> CHR ''+''" by (auto simp: is_dec_def to_digit_def)
  then have "(case show_dec n of CHR ''+'' # r \<Rightarrow> r | _ \<Rightarrow> show_dec n) = show_dec n"
    using cr by (auto split: char.splits bool.splits)
  then show ?thesis using n by (simp add: parse_uint_def)
qed

lemma parse_u64_show_dec: "parse_u64 (show_dec (unat w)) = Some w"
  using parse_uint_show_dec [of "unat w" "2 ^ 64"] by (simp add: parse_u64_def)

section \<open>Ipv4Addr\<close>

datatype ipv4 = Ipv4 u8 u8 u8 u8

fun octets :: "ipv4 \<Rightarrow> bytes" where
  "octets (Ipv4 a b c d) = [a, b, c, d]"

definition show_quad :: "u8 \<Rightarrow> u8 \<Rightarrow> u8 \<Rightarrow> u8 \<Rightarrow> string" where
  "show_quad a b c d = show_dec (unat a) @ ''.'' @ show_dec (unat b) @ ''.'' @
     show_dec (unat c) @ ''.'' @ show_dec (unat d)"

fun show_ipv4 :: "ipv4 \<Rightarrow> string" where
  "show_ipv4 (Ipv4 a b c d) = show_quad a b c d"

definition read_octet :: "string \<Rightarrow> (u8 \<times> string) option" where
  "read_octet s =
     (let ds = takeWhile is_dec s; r = dropWhile is_dec s
      in if ds = [] \<or> 3 < length ds \<or> (hd ds = CHR ''0'' \<and> length ds \<noteq> 1) then None
         else case digits_value 10 ds of
                Some v \<Rightarrow> if v < 256 then Some (of_nat v, r) else None
              | None \<Rightarrow> None)"

fun read_dot :: "string \<Rightarrow> string option" where
  "read_dot (c # r) = (if c = CHR ''.'' then Some r else None)"
| "read_dot [] = None"

definition ipv4_from_str :: "string \<Rightarrow> ipv4 option" where
  "ipv4_from_str s =
     (if 15 < length s then None
      else do {
        (a, s) \<leftarrow> read_octet s; s \<leftarrow> read_dot s;
        (b, s) \<leftarrow> read_octet s; s \<leftarrow> read_dot s;
        (c, s) \<leftarrow> read_octet s; s \<leftarrow> read_dot s;
        (d, s) \<leftarrow> read_octet s;
        if s = [] then Some (Ipv4 a b c d) else None })"

lemma length_octets [simp]: "length (octets ip) = 4"
  by (cases ip) simp

lemma octets_inject [simp]: "octets p = octets q \<longleftrightarrow> p = q"
  by (cases p; cases q) simp

lemma read_octet_show:
  assumes "r = [] \<or> \<not> is_dec (hd r)"
  shows "read_octet (show_dec (unat a) @ r) = Some (a, r)"
proof -
  have "length (show_dec (unat a)) \<le> 3"
    by (rule length_show_dec_octet) simp
  then show ?thesis
    using show_dec_no_leading_zero [of "unat a"]
    by (auto simp: read_octet_def takeWhile_dec [OF assms] Let_def)
qed

lemma not_is_dec_dot [simp]: "\<not> is_dec (CHR ''.'')" "\<not> is_dec (CHR '':'')"
  by (simp_all add: is_dec_def to_digit_def)

lemma length_show_quad: "length (show_quad a b c d) \<le> 15"
  using length_show_dec_octet [of "unat a"] length_show_dec_octet [of "unat b"]
    length_show_dec_octet [of "unat c"] length_show_dec_octet [of "unat d"]
  by (simp add: show_quad_def)

lemma ipv4_from_str_show_quad [simp]: "ipv4_from_str (show_quad a b c d) = Some (Ipv4 a b c d)"
proof -
  have "\<not> 15 < length (show_quad a b c d)"
    using length_show_quad [of a b c d] by simp
  moreover have "read_octet (show_dec (unat d)) = Some (d, [])"
    using read_octet_show [of "[]" d] by simp
  ultimately show ?thesis
    by (simp add: ipv4_from_str_def) (simp add: show_quad_def read_octet_show)
qed

lemma ipv4_from_str_show [simp]: "ipv4_from_str (show_ipv4 ip) = Some ip"
  by (cases ip) simp

lemma show_ipv4_inject [simp]: "show_ipv4 p = show_ipv4 q \<longleftrightarrow> p = q"
  by (metis ipv4_from_str_show option.inject)

lemma show_quad_inject: "show_quad a b c d = show_quad a' b' c' d' \<longleftrightarrow>
    a = a' \<and> b = b' \<and> c = c' \<and> d = d'"
  using show_ipv4_inject [of "Ipv4 a b c d" "Ipv4 a' b' c' d'"] by simp

text \<open>No octet text contains a colon, so an address ends where a port begins.\<close>

lemma colon_not_in_dec: "CHR '':'' \<notin> set (show_dec n)"
  using show_dec_is_dec [of "CHR '':''" n] by auto

lemma dash_not_in_dec: "CHR ''-'' \<notin> set (show_dec n)"
  using show_dec_is_dec [of "CHR ''-''" n] by (auto simp: is_dec_def to_digit_def)

lemma colon_not_in_quad: "CHR '':'' \<notin> set (show_quad a b c d)"
  by (simp add: show_quad_def colon_not_in_dec)

text \<open>The parser accepts digits and dots only.\<close>

lemma read_octet_chars: "read_octet s = Some (a, r) \<Longrightarrow> \<exists>ds. s = ds @ r \<and> (\<forall>c \<in> set ds. is_dec c)"
  by (rule exI [of _ "takeWhile is_dec s"])
    (auto simp: read_octet_def Let_def dest: set_takeWhileD split: if_splits option.splits)

lemma read_dot_chars: "read_dot s = Some r \<Longrightarrow> s = CHR ''.'' # r"
  by (cases s) (auto split: if_splits)

lemma ipv4_from_str_chars:
  assumes "ipv4_from_str s = Some ip" "c \<in> set s"
  shows "is_dec c \<or> c = CHR ''.''"
  using assms by (fastforce simp: ipv4_from_str_def split: if_splits bind_splits dest!: read_octet_chars read_dot_chars)

lemma no_colon_in_ipv4: "ipv4_from_str s = Some ip \<Longrightarrow> CHR '':'' \<notin> set s"
  using ipv4_from_str_chars [of s ip "CHR '':''"] by auto

end
