(* ===== verification/F64.thy ===== *)
theory F64
  imports Addr "HOL-Library.Log_Nat"
begin

text \<open>
  Rust's \<open>f64\<close>: IEEE 754 binary64 with round-to-nearest-even, kept executable by storing a
  finite value as the rational it denotes.  The two zeros are identified; no operation netmux
  performs can tell them apart.  Each arithmetic operation is the exact rational operation followed
  by \<open>round64\<close>, which is what the standard prescribes, so a claim about a float computation is a
  claim about the rounded value the machine computes and not about real arithmetic.
\<close>

datatype f64 = NaN | PosInf | NegInf | Fin rat

section \<open>Rounding\<close>

text \<open>The binary exponent of a positive rational, from the bit lengths of numerator and denominator.\<close>

definition ilog2 :: "rat \<Rightarrow> int" where
  "ilog2 x = (let (p, q) = quotient_of x; k = bitlen p - bitlen q
              in if 2 powi k \<le> x then k else k - 1)"

text \<open>Round to the nearest integer, ties to even.\<close>

definition rne :: "rat \<Rightarrow> int" where
  "rne x = (let f = \<lfloor>x\<rfloor>; d = x - of_int f
            in if d < 1 / 2 then f else if 1 / 2 < d then f + 1 else if even f then f else f + 1)"

definition round_pos :: "rat \<Rightarrow> rat" where
  "round_pos x = (let e = max (ilog2 x - 52) (- 1074) in of_int (rne (x / 2 powi e)) * 2 powi e)"

definition round64 :: "rat \<Rightarrow> f64" where
  "round64 x =
     (if x = 0 then Fin 0
      else let y = round_pos \<bar>x\<bar>
           in if 2 ^ 1024 \<le> y then (if 0 < x then PosInf else NegInf) else Fin (sgn x * y))"

lemma ilog2_bounds:
  assumes "0 < x"
  shows "2 powi ilog2 x \<le> x" "x < 2 powi (ilog2 x + 1)"
proof -
  obtain p q where pq: "quotient_of x = (p, q)" by (cases "quotient_of x")
  have q: "0 < q" by (rule quotient_of_denom_pos [OF pq])
  have x: "x = of_int p / of_int q" by (rule quotient_of_div [OF pq])
  with assms q have p: "0 < p" by (simp add: zero_less_divide_iff)
  define k where "k = bitlen p - bitlen q"
  have up: "of_int i < (2 :: rat) powi bitlen i" and lo: "(2 :: rat) powi (bitlen i - 1) \<le> of_int i"
    if "0 < i" for i
  proof -
    have b: "2 ^ nat (bitlen i - 1) \<le> i \<and> i < 2 ^ nat (bitlen i)" "0 < bitlen i"
      using that bitlen_bounds [of i] bitlen_nonneg [of i] bitlen_eq_zero_iff [of i]
      by linarith+
    have "of_int i < (of_int (2 ^ nat (bitlen i)) :: rat)"
      using b by (simp only: of_int_less_iff)
    then show "of_int i < (2 :: rat) powi bitlen i"
      using b by (simp add: power_int_def)
    have "(of_int (2 ^ nat (bitlen i - 1)) :: rat) \<le> of_int i"
      using b by (simp only: of_int_le_iff)
    then show "(2 :: rat) powi (bitlen i - 1) \<le> of_int i"
      using b by (simp add: power_int_def)
  qed
  have "2 powi (bitlen p - 1) / of_int q \<le> x"
    using lo [OF p] q by (simp add: x divide_right_mono)
  moreover have "2 powi (bitlen p - 1) / 2 powi bitlen q \<le> 2 powi (bitlen p - 1) / (of_int q :: rat)"
    using up [OF q] q by (intro divide_left_mono) auto
  ultimately have "2 powi (k - 1) \<le> x"
    by (simp add: k_def algebra_simps flip: power_int_diff)
  moreover have "x < 2 powi (k + 1)"
  proof -
    have "x < 2 powi bitlen p / of_int q"
      using up [OF p] q by (simp add: x divide_strict_right_mono)
    also have "\<dots> \<le> 2 powi bitlen p / 2 powi (bitlen q - 1)"
      using lo [OF q] q by (intro divide_left_mono) auto
    also have "\<dots> = 2 powi (k + 1)"
      by (simp add: k_def algebra_simps flip: power_int_diff)
    finally show ?thesis .
  qed
  ultimately show "2 powi ilog2 x \<le> x" "x < 2 powi (ilog2 x + 1)"
    by (simp_all add: ilog2_def pq k_def [symmetric])
qed

lemma ilog2_less:
  assumes "0 < x" "x < 2 powi k"
  shows "ilog2 x < k"
proof (rule ccontr)
  assume "\<not> ilog2 x < k"
  then have "(2 :: rat) powi k \<le> 2 powi ilog2 x"
    by (intro power_int_increasing) auto
  with ilog2_bounds(1) [OF assms(1)] assms(2) show False by simp
qed

lemma rne_of_int [simp]: "rne (of_int n) = n"
  by (simp add: rne_def)

lemma rne_nonneg: "0 \<le> x \<Longrightarrow> 0 \<le> rne x"
  by (auto simp: rne_def Let_def)

lemma rne_close: "\<bar>of_int (rne x) - x\<bar> \<le> 1 / 2"
proof -
  have "of_int \<lfloor>x\<rfloor> \<le> x" "x < of_int \<lfloor>x\<rfloor> + 1" by linarith+
  then show ?thesis by (auto simp: rne_def Let_def abs_le_iff)
qed

lemma round_pos_nonneg: "0 < x \<Longrightarrow> 0 \<le> round_pos x"
  by (simp add: round_pos_def Let_def rne_nonneg)

text \<open>A value with at most 53 significant bits in range is represented exactly.\<close>

lemma round_pos_exact:
  assumes "0 < m" "m < 2 ^ 53" "- 1074 \<le> k"
  shows "round_pos (of_nat m * 2 powi k) = of_nat m * 2 powi k"
proof -
  define x :: rat where "x = of_nat m * 2 powi k"
  define e where "e = max (ilog2 x - 52) (- 1074)"
  have x0: "0 < x" using assms by (simp add: x_def)
  have "(of_nat m :: rat) < of_nat (2 ^ 53)" using assms(2) by (simp only: of_nat_less_iff)
  then have "x < 2 powi 53 * 2 powi k" by (simp add: x_def)
  then have "x < 2 powi (53 + k)" by (simp add: power_int_add)
  then have "ilog2 x < 53 + k" using x0 by (rule ilog2_less [rotated])
  with assms(3) have ek: "e \<le> k" by (simp add: e_def)
  have "x / 2 powi e = of_nat m * 2 powi (k - e)"
    by (simp add: x_def power_int_diff)
  also have "\<dots> = of_int (int m * 2 ^ nat (k - e))"
    using ek by (simp add: power_int_def)
  finally have "rne (x / 2 powi e) = int m * 2 ^ nat (k - e)"
    by (simp only: rne_of_int)
  then have "round_pos x = of_int (int m * 2 ^ nat (k - e)) * 2 powi e"
    by (simp add: round_pos_def e_def Let_def)
  also have "\<dots> = of_nat m * (2 powi (k - e) * 2 powi e)"
    using ek by (simp add: power_int_def)
  also have "\<dots> = x"
    by (simp add: x_def flip: power_int_add)
  finally show ?thesis by (simp add: x_def)
qed

lemma round64_nat: "n < 2 ^ 53 \<Longrightarrow> round64 (of_nat n) = Fin (of_nat n)"
proof (cases "n = 0")
  case False
  assume n: "n < 2 ^ 53"
  have "round_pos (of_nat n * 2 powi 0) = of_nat n * 2 powi 0"
    by (rule round_pos_exact) (use n False in simp_all)
  moreover have "(of_nat n :: rat) < 2 ^ 1024"
  proof -
    have "(of_nat n :: rat) < of_nat (2 ^ 53)" using n by (simp only: of_nat_less_iff)
    also have "\<dots> \<le> 2 ^ 1024" by simp
    finally show ?thesis .
  qed
  ultimately show ?thesis using False by (simp add: round64_def)
qed (simp add: round64_def)

lemma round64_nat_half: "n < 2 ^ 52 \<Longrightarrow> round64 (of_nat n + 1 / 2) = Fin (of_nat n + 1 / 2)"
proof -
  assume n: "n < 2 ^ 52"
  have eq: "of_nat (2 * n + 1) * 2 powi (- 1) = (of_nat n + 1 / 2 :: rat)"
    by (simp add: power_int_minus field_simps)
  have "round_pos (of_nat (2 * n + 1) * 2 powi (- 1)) = of_nat (2 * n + 1) * 2 powi (- 1)"
    by (rule round_pos_exact) (use n in simp_all)
  then have "round_pos (of_nat n + 1 / 2) = of_nat n + 1 / 2" by (simp only: eq)
  moreover have "(of_nat n + 1 / 2 :: rat) < 2 ^ 1024"
  proof -
    have "(of_nat n :: rat) < of_nat (2 ^ 52)" using n by (simp only: of_nat_less_iff)
    also have "\<dots> + 1 / 2 \<le> (2 ^ 1024 :: rat)" by simp
    finally show ?thesis by simp
  qed
  moreover have "0 < (of_nat n + 1 / 2 :: rat)" by (simp add: add_nonneg_pos)
  ultimately show ?thesis by (simp add: round64_def sgn_if)
qed

text \<open>Rounding is monotone.\<close>

lemma rne_mono: "x \<le> y \<Longrightarrow> rne x \<le> rne y"
proof -
  assume le: "x \<le> y"
  then have fl: "\<lfloor>x\<rfloor> \<le> \<lfloor>y\<rfloor>" by (rule floor_mono)
  have up: "rne x \<le> \<lfloor>x\<rfloor> + 1" and lo: "\<lfloor>y\<rfloor> \<le> rne y" by (auto simp: rne_def Let_def)
  show ?thesis
  proof (cases "\<lfloor>x\<rfloor> = \<lfloor>y\<rfloor>")
    case True
    then show ?thesis using le by (auto simp: rne_def Let_def)
  next
    case False
    with fl up lo show ?thesis by linarith
  qed
qed

lemma rne_le_of_int: "x \<le> of_int n \<Longrightarrow> rne x \<le> n"
  using rne_mono [of x "of_int n"] by simp

lemma rne_ge_of_int: "of_int n \<le> x \<Longrightarrow> n \<le> rne x"
  using rne_mono [of "of_int n" x] by simp

lemma powi_of_int: "0 \<le> k \<Longrightarrow> (2 :: rat) powi k = of_int (2 ^ nat k)"
  by (simp add: power_int_def)

lemma ilog2_mono:
  assumes "0 < x" "x \<le> y"
  shows "ilog2 x \<le> ilog2 y"
proof -
  have "x < 2 powi (ilog2 y + 1)"
    using ilog2_bounds(2) [of y] assms by simp
  then show ?thesis using ilog2_less [OF assms(1)] by fastforce
qed

lemma round_pos_mono:
  assumes x: "0 < x" and xy: "x \<le> y"
  shows "round_pos x \<le> round_pos y"
proof -
  define e where "e z = max (ilog2 z - 52) (- 1074)" for z
  have rp: "round_pos z = of_int (rne (z / 2 powi e z)) * 2 powi e z" for z
    by (simp add: round_pos_def e_def Let_def)
  have le: "e x \<le> e y" using ilog2_mono [OF x xy] by (simp add: e_def)
  show ?thesis
  proof (cases "e x = e y")
    case True
    have "rne (x / 2 powi e y) \<le> rne (y / 2 powi e y)"
      using xy by (intro rne_mono divide_right_mono) simp_all
    with True show ?thesis by (simp add: rp mult_right_mono)
  next
    case False
    define t where "t = ilog2 y"
    have et: "e y = t - 52" and lt: "ilog2 x + 1 \<le> t"
      using False le ilog2_mono [OF x xy] by (auto simp: e_def t_def)
    have "x \<le> 2 powi t"
      using ilog2_bounds(2) [OF x] power_int_increasing [OF lt, of "2 :: rat"] by simp
    then have "x / 2 powi e x \<le> 2 powi t / 2 powi e x"
      by (intro divide_right_mono) simp_all
    also have "\<dots> = of_int (2 ^ nat (t - e x))"
      using le et by (subst power_int_diff [symmetric]) (simp_all add: powi_of_int)
    finally have "rne (x / 2 powi e x) \<le> 2 ^ nat (t - e x)"
      by (rule rne_le_of_int)
    then have "of_int (rne (x / 2 powi e x)) \<le> (of_int (2 ^ nat (t - e x)) :: rat)"
      by (simp only: of_int_le_iff)
    also have "\<dots> = 2 powi (t - e x)"
      using le et by (simp add: powi_of_int)
    finally have "round_pos x \<le> 2 powi (t - e x) * 2 powi e x"
      by (simp add: rp mult_right_mono)
    then have 1: "round_pos x \<le> 2 powi t" by (simp flip: power_int_add)
    have "of_int (2 ^ 52) = 2 powi t / (2 powi e y :: rat)"
      using et by (subst power_int_diff [symmetric]) (simp_all add: powi_of_int)
    also have "\<dots> \<le> y / 2 powi e y"
      using ilog2_bounds(1) [of y] x xy by (intro divide_right_mono) (simp_all add: t_def)
    finally have "2 ^ 52 \<le> rne (y / 2 powi e y)" by (rule rne_ge_of_int)
    then have "of_int (2 ^ 52) \<le> (of_int (rne (y / 2 powi e y)) :: rat)"
      by (simp only: of_int_le_iff)
    then have "2 powi 52 * 2 powi e y \<le> round_pos y"
      by (simp add: rp mult_right_mono)
    then have "2 powi (52 + e y) \<le> round_pos y"
      by (simp add: power_int_add)
    then have "2 powi t \<le> round_pos y" using et by simp
    with 1 show ?thesis by simp
  qed
qed

section \<open>Operations\<close>

instantiation f64 :: "{plus, times, inverse, ord}"
begin

fun plus_f64 :: "f64 \<Rightarrow> f64 \<Rightarrow> f64" where
  "plus_f64 (Fin x) (Fin y) = round64 (x + y)"
| "plus_f64 NaN b = NaN"
| "plus_f64 a NaN = NaN"
| "plus_f64 PosInf NegInf = NaN"
| "plus_f64 NegInf PosInf = NaN"
| "plus_f64 PosInf b = PosInf"
| "plus_f64 NegInf b = NegInf"
| "plus_f64 (Fin x) b = b"

definition inf_of :: "rat \<Rightarrow> f64" where
  "inf_of s = (if s = 0 then NaN else if 0 < s then PosInf else NegInf)"

fun sign :: "f64 \<Rightarrow> rat" where
  "sign NaN = 0"
| "sign PosInf = 1"
| "sign NegInf = - 1"
| "sign (Fin x) = sgn x"

fun times_f64 :: "f64 \<Rightarrow> f64 \<Rightarrow> f64" where
  "times_f64 (Fin x) (Fin y) = round64 (x * y)"
| "times_f64 a b = inf_of (sign a * sign b)"

fun divide_f64 :: "f64 \<Rightarrow> f64 \<Rightarrow> f64" where
  "divide_f64 (Fin x) (Fin y) = (if y = 0 then inf_of (sgn x) else round64 (x / y))"
| "divide_f64 NaN b = NaN"
| "divide_f64 a NaN = NaN"
| "divide_f64 (Fin x) b = Fin 0"
| "divide_f64 a (Fin y) = (if y < 0 then inf_of (- sign a) else a)"
| "divide_f64 a b = NaN"

definition inverse_f64 :: "f64 \<Rightarrow> f64" where
  "inverse_f64 x = divide (Fin 1) x"

fun less_f64 :: "f64 \<Rightarrow> f64 \<Rightarrow> bool" where
  "less_f64 NaN b = False"
| "less_f64 a NaN = False"
| "less_f64 (Fin x) (Fin y) = (x < y)"
| "less_f64 NegInf b = (b \<noteq> NegInf)"
| "less_f64 a PosInf = (a \<noteq> PosInf)"
| "less_f64 a b = False"

definition less_eq_f64 :: "f64 \<Rightarrow> f64 \<Rightarrow> bool" where
  "less_eq_f64 a b = (a < b \<or> (a = b \<and> a \<noteq> NaN))"

instance ..

end

text \<open>\<open>f64::max\<close> ignores a NaN operand.\<close>

fun f64_max :: "f64 \<Rightarrow> f64 \<Rightarrow> f64" where
  "f64_max NaN b = b"
| "f64_max a b = (if a < b then b else a)"

definition u64_as_f64 :: "u64 \<Rightarrow> f64" where
  "u64_as_f64 n = round64 (of_nat (unat n))"

text \<open>\<open>as u64\<close> truncates and saturates; NaN becomes 0.\<close>

fun f64_as_u64 :: "f64 \<Rightarrow> u64" where
  "f64_as_u64 (Fin x) = (if x < 0 then 0 else of_nat (min (nat \<lfloor>x\<rfloor>) (2 ^ 64 - 1)))"
| "f64_as_u64 PosInf = - 1"
| "f64_as_u64 NegInf = 0"
| "f64_as_u64 NaN = 0"

text \<open>\<open>{:.1}\<close>: the exact value rounded to one decimal, ties to even.\<close>

fun fmt1 :: "f64 \<Rightarrow> string" where
  "fmt1 NaN = ''NaN''"
| "fmt1 PosInf = ''inf''"
| "fmt1 NegInf = ''-inf''"
| "fmt1 (Fin x) =
     (let n = nat (rne (\<bar>x\<bar> * 10))
      in (if x < 0 then ''-'' else []) @ show_dec (n div 10) @ ''.'' @ show_dec (n mod 10))"

text \<open>A duration in nanoseconds; \<open>as_secs_f64\<close> adds the rounded parts, \<open>from_secs_f64\<close> rounds to
  the nearest nanosecond and panics on a negative or too large value.\<close>

definition as_secs_f64 :: "nat \<Rightarrow> f64" where
  "as_secs_f64 ns = round64 (of_nat (ns div 10 ^ 9)) + round64 (of_nat (ns mod 10 ^ 9)) / round64 (10 ^ 9)"

fun from_secs_f64 :: "f64 \<Rightarrow> nat rust" where
  "from_secs_f64 (Fin x) =
     (if x < 0 \<or> of_nat (2 ^ 64) \<le> x then None else Some (nat (rne (x * 10 ^ 9))))"
| "from_secs_f64 _ = None"

section \<open>Laws\<close>

lemma less_f64_irrefl [simp]: "\<not> (a :: f64) < a"
  by (cases a) auto

lemma le_Fin [simp]: "Fin x \<le> Fin y \<longleftrightarrow> x \<le> y"
  by (auto simp: less_eq_f64_def)

lemma less_f64_trans: "(a :: f64) < b \<Longrightarrow> b < c \<Longrightarrow> a < c"
  by (cases a; cases b; cases c) auto

lemma less_f64_total: "a \<noteq> NaN \<Longrightarrow> b \<noteq> NaN \<Longrightarrow> (a :: f64) < b \<or> a = b \<or> b < a"
  by (cases a; cases b) auto

lemma not_less_f64_trans: "b \<noteq> NaN \<Longrightarrow> \<not> (a :: f64) < b \<Longrightarrow> \<not> b < c \<Longrightarrow> \<not> a < c"
  by (cases a; cases b; cases c) auto

lemma NaN_not_less [simp]: "\<not> NaN < a" "\<not> a < NaN"
  by (cases a; simp)+

lemma less_PosInf_iff: "a < PosInf \<longleftrightarrow> a \<noteq> NaN \<and> a \<noteq> PosInf"
  by (cases a) auto

text \<open>Products of counts below \<open>2 ^ 52\<close> survive the trip through \<open>f64\<close>, the added half included.\<close>

lemma f64_product_count:
  assumes "t < 2 ^ 52" "w < 2 ^ 52" "t * w < 2 ^ 52"
  shows "f64_as_u64 (u64_as_f64 (of_nat t) * u64_as_f64 (of_nat w) + round64 (1 / 2)) = of_nat (t * w)"
proof -
  have half: "round64 (1 / 2) = Fin (1 / 2)"
    using round64_nat_half [of 0] by simp
  have "unat (of_nat t :: u64) = t" "unat (of_nat w :: u64) = w"
    using assms by (simp_all add: unat_of_nat_u64)
  then have "u64_as_f64 (of_nat t) = Fin (of_nat t)" "u64_as_f64 (of_nat w) = Fin (of_nat w)"
    using assms by (simp_all add: u64_as_f64_def round64_nat)
  moreover have "round64 (of_nat t * of_nat w) = Fin (of_nat (t * w))"
    using round64_nat [of "t * w"] assms by simp
  ultimately have "u64_as_f64 (of_nat t) * u64_as_f64 (of_nat w) + round64 (1 / 2)
      = round64 (of_nat (t * w) + 1 / 2)"
    by (simp add: half)
  also have "\<dots> = Fin (of_nat (t * w) + 1 / 2)"
    using assms by (intro round64_nat_half)
  finally show ?thesis
  proof -
    assume eq: "u64_as_f64 (of_nat t) * u64_as_f64 (of_nat w) + round64 (1 / 2) = Fin (of_nat (t * w) + 1 / 2)"
    have "\<lfloor>of_nat (t * w) + 1 / 2 :: rat\<rfloor> = int (t * w)"
      by (rule floor_unique) simp_all
    moreover have "\<not> of_nat (t * w) + 1 / 2 < (0 :: rat)"
      by (simp add: not_less add_nonneg_nonneg)
    moreover have "min (t * w) (2 ^ 64 - 1) = t * w" using assms(3) by simp
    ultimately show ?thesis by (simp only: eq f64_as_u64.simps nat_int if_False)
  qed
qed

text \<open>Rounding keeps power-of-two bounds.\<close>

lemma round_pos_power: "- 1022 \<le> k \<Longrightarrow> round_pos (2 powi k) = 2 powi k"
  using round_pos_exact [of 1 k] by simp

lemma round64_bounded:
  assumes "0 \<le> x" "x \<le> 2 ^ k" "k < 1024"
  shows "\<exists>y. round64 x = Fin y \<and> 0 \<le> y \<and> y \<le> 2 ^ k"
proof (cases "x = 0")
  case False
  with assms have x: "0 < x" by simp
  have "round_pos x \<le> round_pos (2 powi int k)"
    using assms by (intro round_pos_mono [OF x]) (simp add: power_int_def)
  moreover have "round_pos (2 powi int k) = 2 powi int k"
    by (rule round_pos_power) simp
  moreover have "(2 :: rat) powi int k = 2 ^ k"
    by (simp add: power_int_def)
  ultimately have le: "round_pos x \<le> 2 ^ k" by simp
  moreover have "(2 :: rat) ^ k < 2 ^ 1024"
    using assms(3) by (rule power_strict_increasing) simp
  ultimately show ?thesis
    using x round_pos_nonneg [OF x] by (simp add: round64_def Let_def)
qed (simp add: round64_def)

lemma round64_at_most:
  assumes "0 \<le> x" "x \<le> 2 powi k" "- 1022 \<le> k" "k < 1024"
  shows "\<exists>y. round64 x = Fin y \<and> 0 \<le> y \<and> y \<le> 2 powi k"
proof (cases "x = 0")
  case False
  with assms have x: "0 < x" by simp
  have "round_pos x \<le> round_pos (2 powi k)"
    using assms by (intro round_pos_mono [OF x]) simp_all
  then have le: "round_pos x \<le> 2 powi k"
    using assms(3) by (simp add: round_pos_power)
  moreover have "(2 :: rat) powi k < 2 powi 1024"
    using assms(4) by (rule power_int_strict_increasing) simp
  then have "(2 :: rat) powi k < 2 ^ 1024" by (simp add: power_int_def)
  ultimately show ?thesis
    using x round_pos_nonneg [OF x] by (simp add: round64_def Let_def)
qed (simp add: round64_def)

lemma round64_at_least:
  assumes "2 powi k \<le> x" "- 1022 \<le> k" "round64 x = Fin y"
  shows "2 powi k \<le> y"
proof -
  have x: "0 < x" using assms(1) by (meson less_le_trans zero_less_numeral zero_less_power_int)
  have "round_pos (2 powi k) \<le> round_pos x"
    using assms(1) by (intro round_pos_mono) simp_all
  moreover have "y = round_pos x"
    using assms(3) x by (auto simp: round64_def Let_def split: if_splits)
  ultimately show ?thesis using assms(2) by (simp add: round_pos_power)
qed

lemma u64_as_f64_bounded: "\<exists>y. u64_as_f64 n = Fin y \<and> 0 \<le> y \<and> y \<le> 2 ^ 64"
  unfolding u64_as_f64_def
proof (rule round64_bounded)
  have "unat n \<le> 18446744073709551616"
    using unat_u64_less [of n] by linarith
  then have "(of_nat (unat n) :: rat) \<le> of_nat 18446744073709551616"
    by (simp only: of_nat_le_iff)
  then show "(of_nat (unat n) :: rat) \<le> 2 ^ 64" by simp
  show "(0 :: rat) \<le> of_nat (unat n)" by (rule of_nat_0_le_iff)
qed simp

end
