(* ===== verification/Errors.thy ===== *)
theory Errors
  imports Addr
begin

text \<open>
  \<open>error.rs\<close>: the error type of the crate with its \<open>Display\<close> text.  An \<open>std::io::Error\<close> made
  by \<open>last_os_error\<close> is its \<open>errno\<close>; the text the C library has for a code is the parameter
  \<open>strerror\<close>.  A fallible function returns \<open>netmux_error + 'a\<close>.
\<close>

datatype io_error = Os_Error nat

datatype netmux_error =
    Unsupported string
  | Permission string
  | Io string io_error
  | Config string
  | NotFound string
  | Internal string
  | Persist string

text \<open>\<open>ErrorKind::PermissionDenied\<close> on Linux: \<open>EPERM\<close> or \<open>EACCES\<close>.\<close>

fun permission_denied :: "io_error \<Rightarrow> bool" where
  "permission_denied (Os_Error n) \<longleftrightarrow> n = 1 \<or> n = 13"

fun io_error_text :: "(nat \<Rightarrow> string) \<Rightarrow> io_error \<Rightarrow> string" where
  "io_error_text strerror (Os_Error n) = strerror n @ '' (os error '' @ show_dec n @ '')''"

fun error_text :: "(nat \<Rightarrow> string) \<Rightarrow> netmux_error \<Rightarrow> string" where
  "error_text strerror (Unsupported m) = ''unsupported on this platform: '' @ m"
| "error_text strerror (Permission m) = ''permission denied: '' @ m"
| "error_text strerror (Io context e) = context @ '': '' @ io_error_text strerror e"
| "error_text strerror (Config m) = ''invalid configuration: '' @ m"
| "error_text strerror (NotFound m) = ''no such interface: '' @ m"
| "error_text strerror (Internal m) = ''internal error: '' @ m"
| "error_text strerror (Persist m) = ''configuration persistence error: '' @ m"

definition permission :: "string \<Rightarrow> netmux_error" where
  "permission msg = Permission msg"

definition io :: "string \<Rightarrow> io_error \<Rightarrow> netmux_error" where
  "io context e = Io context e"

definition config :: "string \<Rightarrow> netmux_error" where
  "config msg = Config msg"

definition from_io :: "io_error \<Rightarrow> netmux_error" where
  "from_io e = Io ''io error'' e"

end
