(* ===== verification/Interface.thy ===== *)
theory Interface
  imports Errors "HOL-Library.Sublist"
begin

text \<open>
  \<open>interface.rs\<close>: classification and enumeration of the host's network interfaces.  The kernel's
  \<open>/sys/class/net\<close> is a parameter: the directory listing (or the failure to open it) and the
  contents of the attribute files, as they are during one call.
\<close>

datatype interface_kind = Ethernet | Wifi | Cellular | Loopback | Virtual | Other

record interface =
  if_name :: string
  if_display_name :: string
  if_mac :: "string option"
  if_is_up :: bool
  if_carrier :: bool
  if_kind :: interface_kind
  if_rx_bytes :: u64
  if_tx_bytes :: u64

text \<open>A directory entry: an error of the iteration, or a file name (\<open>None\<close> if it is not UTF-8).\<close>

datatype dir_entry = Entry_Err | Entry "string option"

record sysfs =
  net_dir :: "io_error + dir_entry list"
  attr :: "string \<Rightarrow> string \<Rightarrow> string option"

definition read_u64 :: "string option \<Rightarrow> u64" where
  "read_u64 content =
     (case content of None \<Rightarrow> 0
      | Some s \<Rightarrow> (case parse_u64 (trim s) of None \<Rightarrow> 0 | Some v \<Rightarrow> v))"

definition read_bool :: "string option \<Rightarrow> bool" where
  "read_bool content = (case content of None \<Rightarrow> False | Some s \<Rightarrow> trim s = ''1'')"

definition starts_with :: "string \<Rightarrow> string \<Rightarrow> bool" where
  "starts_with s p = prefix p s"

definition classify :: "string \<Rightarrow> string \<Rightarrow> interface_kind" where
  "classify name operstate =
     (if starts_with name ''lo'' then Loopback
      else if starts_with name ''wl'' \<or> starts_with name ''wlan'' \<or> starts_with name ''wifi'' then Wifi
      else if starts_with name ''wwan'' \<or> starts_with name ''rmnet'' \<or> starts_with name ''usb''
        \<or> starts_with name ''eth-usb'' then Cellular
      else if starts_with name ''en'' \<or> starts_with name ''eth'' \<or> starts_with name ''em'' then Ethernet
      else if starts_with name ''virbr'' \<or> starts_with name ''br'' \<or> starts_with name ''docker''
        \<or> starts_with name ''tun'' \<or> starts_with name ''tap'' \<or> starts_with name ''veth''
        \<or> starts_with name ''bond'' \<or> starts_with name ''netmux'' \<or> starts_with name ''vpn''
        \<or> starts_with name ''utun'' \<or> starts_with name ''tailscale'' then Virtual
      else if starts_with name ''lo'' then Loopback else Other)"

fun trim_start_0x :: "string \<Rightarrow> string" where
  "trim_start_0x (c # d # r) = (if c = CHR ''0'' \<and> d = CHR ''x'' then trim_start_0x r else c # d # r)"
| "trim_start_0x s = s"

definition read_flags :: "string option \<Rightarrow> u64" where
  "read_flags content =
     (case content of None \<Rightarrow> 0
      | Some s \<Rightarrow> (case parse_uint 16 (2 ^ 64) (trim_start_0x (trim s)) of None \<Rightarrow> 0 | Some v \<Rightarrow> of_nat v))"

definition read_mac :: "string option \<Rightarrow> string option" where
  "read_mac content =
     (case content of None \<Rightarrow> None
      | Some s \<Rightarrow> (let m = trim s in if m \<noteq> [] \<and> m \<noteq> ''00:00:00:00:00:00'' then Some m else None))"

definition read_interface :: "sysfs \<Rightarrow> string \<Rightarrow> interface" where
  "read_interface fs name =
     (let operstate = (case attr fs name ''operstate'' of Some s \<Rightarrow> trim s | None \<Rightarrow> ''unknown'');
          flags = read_flags (attr fs name ''flags'');
          is_up = (flags AND 1 \<noteq> 0);
          kind = classify name operstate
      in \<lparr>if_name = name, if_display_name = name, if_mac = read_mac (attr fs name ''address''),
          if_is_up = is_up, if_carrier = read_bool (attr fs name ''carrier''), if_kind = kind,
          if_rx_bytes = read_u64 (attr fs name ''statistics/rx_bytes''),
          if_tx_bytes = read_u64 (attr fs name ''statistics/tx_bytes'')\<rparr>)"

text \<open>\<open>entries.flatten()\<close> drops the errors, the loop skips names that are not UTF-8.\<close>

fun entry_names :: "dir_entry list \<Rightarrow> string list" where
  "entry_names [] = []"
| "entry_names (Entry (Some n) # es) = n # entry_names es"
| "entry_names (_ # es) = entry_names es"

definition enumerate_interfaces :: "sysfs \<Rightarrow> netmux_error + interface list" where
  "enumerate_interfaces fs =
     (case net_dir fs of
        Inl e \<Rightarrow> Inl (io ''reading /sys/class/net'' e)
      | Inr es \<Rightarrow> Inr (sort_key if_name (map (read_interface fs) (entry_names es))))"

definition counter_map :: "sysfs \<Rightarrow> (string, u64 \<times> u64) hmap" where
  "counter_map fs =
     (case net_dir fs of
        Inl e \<Rightarrow> []
      | Inr es \<Rightarrow> fold (\<lambda>name. hm_insert name
            (read_u64 (attr fs name ''statistics/rx_bytes''), read_u64 (attr fs name ''statistics/tx_bytes'')))
          (entry_names es) [])"

section \<open>Laws\<close>

lemma if_name_read [simp]: "if_name (read_interface fs n) = n"
  by (simp add: read_interface_def Let_def)

lemma mset_entry_names:
  "mset (entry_names es) =
     image_mset (\<lambda>e. case e of Entry (Some n) \<Rightarrow> n | _ \<Rightarrow> []) (filter_mset (\<lambda>e. \<exists>n. e = Entry (Some n)) (mset es))"
  by (induction es rule: entry_names.induct) auto

lemma entry_names_perm: "mset es = mset es' \<Longrightarrow> mset (entry_names es) = mset (entry_names es')"
  by (simp add: mset_entry_names)

lemma starts_with_Cons [simp]: "starts_with (c # s) (d # p) \<longleftrightarrow> c = d \<and> starts_with s p"
  "starts_with s []" "\<not> starts_with [] (d # p)"
  by (auto simp: starts_with_def)

lemma classify_netmux: "starts_with name ''netmux'' \<Longrightarrow> classify name operstate = Virtual"
proof -
  assume "starts_with name ''netmux''"
  then obtain r where "name = ''netmux'' @ r" by (auto simp: starts_with_def prefix_def)
  then show ?thesis by (simp add: classify_def)
qed

lemma classify_lo: "starts_with name ''lo'' \<Longrightarrow> classify name operstate = Loopback"
  by (simp add: classify_def)

section \<open>Properties\<close>

text \<open>Enumeration returns one interface per readable directory entry, sorted by name, each with
  the attributes of its own directory; it fails only when \<open>/sys/class/net\<close> cannot be opened.\<close>

theorem enumerate_correct:
  assumes "net_dir fs = Inr es"
  shows "\<exists>out. enumerate_interfaces fs = Inr out \<and> sorted (map if_name out)
    \<and> mset (map if_name out) = mset (entry_names es)
    \<and> (\<forall>i \<in> set out. i = read_interface fs (if_name i))"
  using assms by (auto simp: enumerate_interfaces_def multiset.map_comp comp_def)

definition sample_fs :: sysfs where
  "sample_fs = \<lparr>net_dir = Inr [Entry (Some ''wlan0''), Entry_Err, Entry None, Entry (Some ''eth0'')],
     attr = (\<lambda>n f. if f = ''flags'' then Some ''0x1003'' else if f = ''carrier'' then Some ''1'' else None)\<rparr>"

lemma enumerate_correct_witness:
  "\<exists>out. enumerate_interfaces sample_fs = Inr out \<and> sorted (map if_name out)
    \<and> mset (map if_name out) = mset [''wlan0'', ''eth0'']
    \<and> (\<forall>i \<in> set out. i = read_interface sample_fs (if_name i))"
  using enumerate_correct [of sample_fs] by (simp add: sample_fs_def)

text \<open>The order in which the kernel lists the directory does not matter: with distinct interface
  names, every order gives the same list.\<close>

theorem enumerate_order_irrelevant:
  assumes "distinct (entry_names es)" and "mset es' = mset es"
  shows "enumerate_interfaces \<lparr>net_dir = Inr es', attr = files\<rparr> = enumerate_interfaces \<lparr>net_dir = Inr es, attr = files\<rparr>"
proof -
  let ?rd = "\<lambda>e. read_interface \<lparr>net_dir = Inr e, attr = files\<rparr>"
  have "?rd es' = ?rd es" by (simp add: read_interface_def fun_eq_iff)
  moreover have "sort_key if_name (map (?rd es) (entry_names es')) = sort_key if_name (map (?rd es) (entry_names es))"
  proof (rule sort_key_perm)
    show "mset (map (?rd es) (entry_names es')) = mset (map (?rd es) (entry_names es))"
      using entry_names_perm [OF assms(2)] by (simp add: mset_map)
    show "inj_on if_name (set (map (?rd es) (entry_names es')))"
      by (auto intro!: inj_onI)
  qed
  ultimately show ?thesis by (simp add: enumerate_interfaces_def)
qed

lemma enumerate_order_irrelevant_witness:
  "enumerate_interfaces \<lparr>net_dir = Inr [Entry (Some ''eth0''), Entry (Some ''lo'')], attr = (\<lambda>n f. None)\<rparr>
   = enumerate_interfaces \<lparr>net_dir = Inr [Entry (Some ''lo''), Entry (Some ''eth0'')], attr = (\<lambda>n f. None)\<rparr>"
  by (rule enumerate_order_irrelevant) simp_all

end
