(* ===== verification/Policy.thy ===== *)
theory Policy
  imports F64 Interface
begin

text \<open>
  \<open>policy.rs\<close>: configuration, its validation, and the scheduler \<open>select_interface\<close> with its
  weighted pool and the FNV-1a hash.  Throughputs are \<open>f64\<close>, weights and priorities are
  \<open>u32\<close>, the round-robin counter is a wrapping \<open>u64\<close> that the function returns updated.
\<close>

section \<open>Configuration\<close>

datatype strategy = LoadBalance | Failover

datatype balance_algorithm = RoundRobin | Hash | LeastLoaded

record interface_policy =
  pol_priority :: u32
  pol_weight :: u32
  pol_enabled :: bool

definition default_policy :: interface_policy where
  "default_policy = \<lparr>pol_priority = 10, pol_weight = 1, pol_enabled = True\<rparr>"

definition with_priority :: "interface_policy \<Rightarrow> u32 \<Rightarrow> interface_policy" where
  "with_priority self p = self\<lparr>pol_priority := p\<rparr>"

record aggregator_config =
  cfg_strategy :: strategy
  cfg_algorithm :: balance_algorithm
  cfg_interfaces :: "(string, interface_policy) hmap"
  cfg_health_check_interval_secs :: u64
  cfg_enabled :: bool

definition default_config :: aggregator_config where
  "default_config = \<lparr>cfg_strategy = LoadBalance, cfg_algorithm = Hash, cfg_interfaces = [],
     cfg_health_check_interval_secs = 5, cfg_enabled = True\<rparr>"

text \<open>The loop returns at the first interface (in iteration order) whose weight is zero.\<close>

fun validate_weights :: "(string, interface_policy) hmap \<Rightarrow> netmux_error + unit" where
  "validate_weights [] = Inr ()"
| "validate_weights ((name, p) # r) =
     (if pol_weight p = 0
      then Inl (Config (''weight of '' @ name @ '' must be >= 1 (use enabled=false to disable)''))
      else validate_weights r)"

definition validate :: "aggregator_config \<Rightarrow> netmux_error + unit" where
  "validate cfg =
     (if cfg_health_check_interval_secs cfg = 0
      then Inl (Config ''health_check_interval_secs must be >= 1'')
      else validate_weights (cfg_interfaces cfg))"

record candidate =
  ci_name :: string
  ci_kind :: interface_kind
  ci_policy :: interface_policy
  ci_tx_bps :: f64
  ci_rx_bps :: f64
  ci_healthy :: bool

text \<open>Declared for a status display; nothing in the sources uses it.\<close>

datatype connectivity = Connectivity_Tunnelling | Connectivity_Simulation

section \<open>Scheduling\<close>

fun fnv1a_from :: "u32 \<Rightarrow> bytes \<Rightarrow> u32" where
  "fnv1a_from hash [] = hash"
| "fnv1a_from hash (b # bs) = fnv1a_from ((hash XOR ucast b) * 0x01000193) bs"

definition fnv1a :: "bytes \<Rightarrow> u32" where
  "fnv1a bs = fnv1a_from 0x811c9dc5 bs"

definition as_bytes :: "string \<Rightarrow> bytes" where
  "as_bytes s = map of_char s"

definition eff_weight :: "candidate \<Rightarrow> u64" where
  "eff_weight c = ucast (max (pol_weight (ci_policy c)) 1)"

definition pool_copies :: "u64 \<Rightarrow> candidate \<Rightarrow> u64" where
  "pool_copies wsum_all c =
     (let w = eff_weight c
      in max (f64_as_u64 (u64_as_f64 wsum_all * u64_as_f64 w + round64 (1 / 2))) 1)"

definition weighted_pool :: "candidate list \<Rightarrow> candidate list" where
  "weighted_pool cs =
     (let total = sum_list (map eff_weight cs)
      in sort_key ci_name (concat (map (\<lambda>c. replicate (unat (pool_copies total c)) c) cs)))"

definition load :: "candidate \<Rightarrow> f64" where
  "load c = ci_tx_bps c + ci_rx_bps c"

fun least_loaded :: "candidate list \<Rightarrow> candidate option \<times> f64 \<Rightarrow> candidate option \<times> f64" where
  "least_loaded [] st = st"
| "least_loaded (c # cs) (best, best_load) =
     (if load c < best_load then least_loaded cs (Some c, load c)
      else least_loaded cs (best, best_load))"

definition usable :: "candidate list \<Rightarrow> candidate list" where
  "usable cs = filter (\<lambda>c. pol_enabled (ci_policy c) \<and> ci_healthy c) cs"

definition select_interface ::
    "aggregator_config \<Rightarrow> candidate list \<Rightarrow> string \<Rightarrow> u64 \<Rightarrow> string option \<times> u64" where
  "select_interface cfg candidates flow_key rr_counter =
     (let us = usable candidates
      in if us = [] then (None, rr_counter)
         else case cfg_strategy cfg of
           Failover \<Rightarrow>
             (case sort_key (\<lambda>c. - int (unat (pol_priority (ci_policy c)))) us of
                [] \<Rightarrow> (None, rr_counter) | c # _ \<Rightarrow> (Some (ci_name c), rr_counter))
         | LoadBalance \<Rightarrow>
             (case cfg_algorithm cfg of
                RoundRobin \<Rightarrow>
                  (let pool = weighted_pool us
                   in if pool = [] then (None, rr_counter)
                      else let i = unat rr_counter mod length pool
                           in (Some (ci_name (pool ! i)), rr_counter + 1))
              | Hash \<Rightarrow>
                  (let pool = weighted_pool us
                   in if pool = [] then (None, rr_counter)
                      else let h = fnv1a (as_bytes flow_key)
                           in (Some (ci_name (pool ! (unat h mod length pool))), rr_counter))
              | LeastLoaded \<Rightarrow>
                  (map_option ci_name (fst (least_loaded us (None, PosInf))), rr_counter)))"

section \<open>Laws of the pool\<close>

lemma pool_copies_pos: "0 < unat (pool_copies t c)"
proof -
  have "1 \<le> pool_copies t c" by (simp add: pool_copies_def Let_def)
  then have "unat (1 :: u64) \<le> unat (pool_copies t c)" by (simp only: word_le_nat_alt)
  then show ?thesis by simp
qed

lemma set_weighted_pool [simp]: "set (weighted_pool cs) = set cs"
  using pool_copies_pos by (auto simp: weighted_pool_def Let_def)

lemma weighted_pool_empty [simp]: "weighted_pool cs = [] \<longleftrightarrow> cs = []"
  using set_weighted_pool [of cs] by (metis set_empty)

lemma usable_iff: "c \<in> set (usable cs) \<longleftrightarrow> c \<in> set cs \<and> pol_enabled (ci_policy c) \<and> ci_healthy c"
  by (auto simp: usable_def)

lemma least_loaded_source:
  "fst (least_loaded cs (b, l)) = Some c \<Longrightarrow> c \<in> set cs \<or> b = Some c"
  by (induction cs arbitrary: b l) (auto split: if_splits)

text \<open>The running minimum: what is returned is below the start value and below every load seen.\<close>

lemma least_loaded_min:
  assumes "l \<noteq> NaN" "least_loaded cs (b, l) = (b', l')"
  shows "l' \<noteq> NaN \<and> \<not> l < l' \<and> (\<forall>c \<in> set cs. \<not> load c < l')
    \<and> ((b' = b \<and> l' = l) \<or> (\<exists>c \<in> set cs. b' = Some c \<and> l' = load c \<and> l' < l))"
  using assms
proof (induction cs arbitrary: b l)
  case (Cons c cs)
  show ?case
  proof (cases "load c < l")
    case True
    then have "load c \<noteq> NaN" by auto
    with Cons.IH [of "load c" "Some c"] Cons.prems True show ?thesis
      by (auto dest: less_f64_trans)
  next
    case False
    with Cons.IH [of l b] Cons.prems show ?thesis
      by (auto dest: not_less_f64_trans [OF Cons.prems(1) False])
  qed
qed simp

section \<open>How many copies the pool holds\<close>

definition weight_of :: "candidate \<Rightarrow> nat" where
  "weight_of c = max (unat (pol_weight (ci_policy c))) 1"

definition total_weight :: "candidate list \<Rightarrow> nat" where
  "total_weight cs = sum_list (map weight_of cs)"

lemma eff_weight_nat: "eff_weight c = of_nat (weight_of c)"
proof -
  have "unat (max (pol_weight (ci_policy c)) 1) = weight_of c"
    by (auto simp: weight_of_def max_def word_le_nat_alt)
  then show ?thesis by (metis eff_weight_def of_nat_unat)
qed

lemma sum_eff_weight: "sum_list (map eff_weight cs) = of_nat (total_weight cs)"
  by (induction cs) (simp_all add: eff_weight_nat total_weight_def)

lemma weight_of_pos [simp]: "0 < weight_of c"
  by (simp add: weight_of_def)

lemma weight_le_total: "c \<in> set cs \<Longrightarrow> weight_of c \<le> total_weight cs"
  by (simp add: total_weight_def member_le_sum_list)

lemma pool_copies_nat:
  assumes "total_weight cs < 2 ^ 26" "c \<in> set cs"
  shows "unat (pool_copies (sum_list (map eff_weight cs)) c) = total_weight cs * weight_of c"
proof -
  let ?t = "total_weight cs" and ?w = "weight_of c"
  have w: "?w < 2 ^ 26" using assms weight_le_total [of c cs] by simp
  have "?t * ?w \<le> (2 ^ 26 - 1) * (2 ^ 26 - 1)" using assms(1) w by (intro mult_le_mono) simp_all
  then have tw: "?t * ?w < 2 ^ 52" by simp
  have "0 < ?t" using weight_le_total [OF assms(2)] weight_of_pos [of c] by linarith
  then have pos: "1 \<le> ?t * ?w" using weight_of_pos [of c] by (simp add: Suc_le_eq)
  have n: "unat (of_nat (?t * ?w) :: u64) = ?t * ?w" using tw by (intro unat_of_nat_u64) simp
  then have "(1 :: u64) \<le> of_nat (?t * ?w)" using pos by (simp only: word_le_nat_alt unat_1)
  moreover have "f64_as_u64 (u64_as_f64 (of_nat ?t) * u64_as_f64 (of_nat ?w) + round64 (1 / 2)) = of_nat (?t * ?w)"
    using assms(1) w tw by (intro f64_product_count) simp_all
  ultimately have "pool_copies (of_nat ?t) c = of_nat (?t * ?w)"
    by (simp only: pool_copies_def Let_def eff_weight_nat max_absorb1)
  then show ?thesis by (simp only: sum_eff_weight n)
qed

lemma count_copies:
  "count (mset (concat (map (\<lambda>c. replicate (f c) c) cs))) c = count (mset cs) c * f c"
  by (induction cs) auto

lemma mset_weighted_pool:
  "mset (weighted_pool cs) =
     mset (concat (map (\<lambda>c. replicate (unat (pool_copies (sum_list (map eff_weight cs)) c)) c) cs))"
  by (simp add: weighted_pool_def Let_def)

lemma length_weighted_pool:
  assumes "total_weight cs < 2 ^ 26"
  shows "length (weighted_pool cs) = total_weight cs * total_weight cs"
proof -
  have "length (weighted_pool cs) =
      sum_list (map (\<lambda>c. unat (pool_copies (sum_list (map eff_weight cs)) c)) cs)"
    by (simp add: weighted_pool_def Let_def length_concat comp_def)
  also have "map (\<lambda>c. unat (pool_copies (sum_list (map eff_weight cs)) c)) cs
      = map (\<lambda>c. total_weight cs * weight_of c) cs"
    using pool_copies_nat [OF assms] by simp
  also have "sum_list \<dots> = total_weight cs * total_weight cs"
    by (simp add: sum_list_const_mult total_weight_def)
  finally show ?thesis .
qed

lemma pool_perm:
  assumes "mset cs' = mset cs" "inj_on ci_name (set cs)"
  shows "weighted_pool cs' = weighted_pool cs"
proof -
  have t: "sum_list (map eff_weight cs') = sum_list (map eff_weight cs)"
    using assms(1) by (metis mset_map sum_mset_sum_list)
  have st: "set cs' = set cs" using assms(1) by (rule mset_eq_setD)
  show ?thesis
    unfolding weighted_pool_def Let_def t
  proof (rule sort_key_perm)
    let ?f = "\<lambda>c. unat (pool_copies (sum_list (map eff_weight cs)) c)"
    show "mset (concat (map (\<lambda>c. replicate (?f c) c) cs')) = mset (concat (map (\<lambda>c. replicate (?f c) c) cs))"
      by (rule multiset_eqI) (simp only: count_copies assms(1))
    show "inj_on ci_name (set (concat (map (\<lambda>c. replicate (?f c) c) cs')))"
      using assms(2) by (rule inj_on_subset) (auto simp: st)
  qed
qed

section \<open>The head of a stable sort\<close>

lemma hd_sort_key:
  assumes "xs \<noteq> []"
  shows "\<exists>us c vs. xs = us @ c # vs \<and> hd (sort_key f xs) = c
    \<and> (\<forall>d \<in> set us. f c < f d) \<and> (\<forall>d \<in> set vs. f c \<le> f d)"
  using assms
proof (induction xs)
  case (Cons x xs)
  show ?case
  proof (cases "xs = []")
    case False
    with Cons.IH obtain us c vs where IH: "xs = us @ c # vs" "hd (sort_key f xs) = c"
      "\<forall>d \<in> set us. f c < f d" "\<forall>d \<in> set vs. f c \<le> f d"
      by blast
    from False obtain t where t: "sort_key f xs = c # t"
      using IH(2) by (metis hd_Cons_tl length_0_conv length_sort)
    show ?thesis
    proof (cases "f x \<le> f c")
      case True
      then have "hd (sort_key f (x # xs)) = x" by (simp add: t)
      moreover have "\<forall>d \<in> set xs. f x \<le> f d" using IH True by force
      ultimately show ?thesis by (intro exI [of _ "[]"]) simp
    next
      case f: False
      then have "hd (sort_key f (x # xs)) = c" by (simp add: t)
      with IH f show ?thesis by (intro exI [of _ "x # us"]) auto
    qed
  next
    case True
    then show ?thesis by (intro exI [of _ "[]"]) simp
  qed
qed simp

section \<open>The scheduler as an interface\<close>

text \<open>What the aggregator needs of a scheduler: it only names usable candidates, and with none usable
  it returns nothing and leaves its counter alone.\<close>

locale scheduler =
  fixes sel :: "candidate list \<Rightarrow> string \<Rightarrow> u64 \<Rightarrow> string option \<times> u64"
  assumes sel_usable: "sel cs k rr = (Some n, rr') \<Longrightarrow> \<exists>c \<in> set (usable cs). ci_name c = n"
    and sel_none: "usable cs = [] \<Longrightarrow> sel cs k rr = (None, rr)"
begin

text \<open>A sequence of decisions, the counter threaded through.\<close>

lemma sel_name_in_candidates: "sel cs k rr = (Some n, rr') \<Longrightarrow> n \<in> ci_name ` set cs"
  using sel_usable by (fastforce simp: usable_iff)

lemma sel_ignores_unusable:
  "sel cs k rr = (Some n, rr') \<Longrightarrow> inj_on ci_name (set cs) \<Longrightarrow> c \<in> set cs \<Longrightarrow> ci_name c = n \<Longrightarrow>
   pol_enabled (ci_policy c) \<and> ci_healthy c"
  using sel_usable by (fastforce simp: usable_iff dest: inj_onD)

end

lemma select_usable:
  "select_interface cfg cs k rr = (Some n, rr') \<Longrightarrow> \<exists>c \<in> set (usable cs). ci_name c = n"
proof -
  assume sel: "select_interface cfg cs k rr = (Some n, rr')"
  have pool: "weighted_pool (usable cs) ! (i mod length (weighted_pool (usable cs))) \<in> set (usable cs)"
    if "usable cs \<noteq> []" for i
    using that by (metis length_greater_0_conv mod_less_divisor nth_mem set_weighted_pool weighted_pool_empty)
  have head: "c \<in> set (usable cs)" if "sort_key f (usable cs) = c # r" for f :: "candidate \<Rightarrow> int" and c r
    using that by (metis list.set_intros(1) set_sort)
  show ?thesis
    using sel pool head least_loaded_source [of "usable cs" None PosInf]
    by (auto simp: select_interface_def Let_def split: if_splits strategy.splits balance_algorithm.splits list.splits)
qed

lemma select_none: "usable cs = [] \<Longrightarrow> select_interface cfg cs k rr = (None, rr)"
  by (simp add: select_interface_def)

interpretation sched: scheduler "select_interface cfg" for cfg
  by unfold_locales (fact select_usable, fact select_none)

section \<open>Round robin\<close>

fun rr_picks :: "aggregator_config \<Rightarrow> candidate list \<Rightarrow> string list \<Rightarrow> u64 \<Rightarrow> string option list" where
  "rr_picks cfg cs [] rr = []"
| "rr_picks cfg cs (k # ks) rr =
     (let (p, rr') = select_interface cfg cs k rr in p # rr_picks cfg cs ks rr')"

lemma select_round_robin:
  "cfg_strategy cfg = LoadBalance \<Longrightarrow> cfg_algorithm cfg = RoundRobin \<Longrightarrow> usable cs \<noteq> [] \<Longrightarrow>
   select_interface cfg cs k rr =
     (Some (ci_name (weighted_pool (usable cs) ! (unat rr mod length (weighted_pool (usable cs))))), rr + 1)"
  by (simp add: select_interface_def Let_def)

lemma rr_picks_eq:
  assumes "cfg_strategy cfg = LoadBalance" "cfg_algorithm cfg = RoundRobin" "usable cs \<noteq> []"
    and "unat rr + length ks \<le> 2 ^ 64"
  defines "pool \<equiv> weighted_pool (usable cs)"
  shows "rr_picks cfg cs ks rr = map (\<lambda>i. Some (ci_name (pool ! ((unat rr + i) mod length pool)))) [0..<length ks]"
  using assms(4)
proof (induction ks arbitrary: rr)
  case (Cons k ks)
  have "rr_picks cfg cs (k # ks) rr =
      Some (ci_name (pool ! (unat rr mod length pool))) # rr_picks cfg cs ks (rr + 1)"
    by (simp add: select_round_robin [OF assms(1-3)] pool_def)
  moreover have "rr_picks cfg cs ks (rr + 1) =
      map (\<lambda>i. Some (ci_name (pool ! ((unat rr + i) mod length pool)))) [1..<Suc (length ks)]"
  proof (cases "ks = []")
    case False
    then have "unat rr + 1 < 2 ^ 64" using Cons.prems by (cases ks) auto
    then have "unat (rr + 1) = unat rr + 1" by (simp add: unat_word_ariths)
    with Cons.IH [of "rr + 1"] Cons.prems
    have "rr_picks cfg cs ks (rr + 1) =
        map ((\<lambda>i. Some (ci_name (pool ! ((unat rr + i) mod length pool)))) \<circ> Suc) [0..<length ks]"
      by (simp add: comp_def)
    then show ?thesis by (simp only: map_map [symmetric] map_Suc_upt) simp
  qed simp
  moreover have "[0..<length (k # ks)] = 0 # [1..<Suc (length ks)]"
    by (simp add: upt_conv_Cons del: upt_Suc)
  ultimately show ?case by (simp del: upt_Suc rr_picks.simps)
qed simp

lemma map_rotate: "map (\<lambda>i. xs ! ((r + i) mod length xs)) [0..<length xs] = rotate r xs"
  by (rule nth_equalityI) (simp_all add: nth_rotate add.commute)

lemma mset_rotate: "mset (rotate r xs) = mset xs"
  by (simp add: rotate_drop_take) (metis append_take_drop_id mset_append union_commute)

lemma rr_cycle:
  assumes "cfg_strategy cfg = LoadBalance" "cfg_algorithm cfg = RoundRobin" "usable cs \<noteq> []"
    and "length ks = length (weighted_pool (usable cs))" "unat rr + length ks \<le> 2 ^ 64"
  shows "mset (rr_picks cfg cs ks rr) = image_mset (Some \<circ> ci_name) (mset (weighted_pool (usable cs)))"
proof -
  let ?pool = "weighted_pool (usable cs)"
  have "rr_picks cfg cs ks rr = map (Some \<circ> ci_name) (map (\<lambda>i. ?pool ! ((unat rr + i) mod length ?pool)) [0..<length ?pool])"
    using rr_picks_eq [OF assms(1-3,5)] assms(4) by simp
  then show ?thesis by (simp only: map_rotate mset_map mset_rotate)
qed

lemma least_loaded_none:
  "fst (least_loaded cs (None, PosInf)) = None \<longleftrightarrow> (\<forall>c \<in> set cs. load c = NaN \<or> load c = PosInf)"
proof -
  obtain b l where bl: "least_loaded cs (None, PosInf) = (b, l)" by fastforce
  from least_loaded_min [OF _ bl]
  have "(\<forall>c \<in> set cs. \<not> load c < l)
      \<and> (b = None \<and> l = PosInf \<or> (\<exists>c \<in> set cs. b = Some c \<and> l = load c \<and> l < PosInf))"
    by simp
  then show ?thesis by (auto simp: bl less_PosInf_iff)
qed

section \<open>Properties\<close>

definition mk_candidate :: "string \<Rightarrow> nat \<Rightarrow> nat \<Rightarrow> rat \<Rightarrow> candidate" where
  "mk_candidate n prio w tx = \<lparr>ci_name = n, ci_kind = Ethernet,
     ci_policy = \<lparr>pol_priority = of_nat prio, pol_weight = of_nat w, pol_enabled = True\<rparr>,
     ci_tx_bps = Fin tx, ci_rx_bps = Fin 0, ci_healthy = True\<rparr>"

definition two_links :: "candidate list" where
  "two_links = [mk_candidate ''wlan0'' 5 1 0, mk_candidate ''eth0'' 20 2 0]"

lemma two_links_usable [simp]: "usable two_links = two_links" "two_links \<noteq> []"
  "inj_on ci_name (set two_links)" "distinct two_links"
  by (simp_all add: usable_def two_links_def mk_candidate_def)

lemma total_weight_two_links [simp]: "total_weight two_links = 3"
  by (simp add: total_weight_def two_links_def mk_candidate_def weight_of_def)

text \<open>Whatever the strategy and the algorithm, the scheduler only ever names a candidate that is
  enabled and healthy.\<close>

theorem select_only_usable:
  assumes "select_interface cfg cs k rr = (Some n, rr')"
  shows "\<exists>c \<in> set cs. ci_name c = n \<and> pol_enabled (ci_policy c) \<and> ci_healthy c"
  using sched.sel_usable [OF assms] by (auto simp: usable_iff)

lemma select_only_usable_witness:
  "\<exists>c \<in> set two_links. ci_name c = ''eth0'' \<and> pol_enabled (ci_policy c) \<and> ci_healthy c"
proof (rule select_only_usable)
  show "select_interface (default_config\<lparr>cfg_strategy := Failover\<rparr>) two_links ''x'' 0 = (Some ''eth0'', 0)"
    by (simp add: select_interface_def) (simp add: two_links_def mk_candidate_def)
qed

text \<open>When no interface is returned.  Failover, hash and round robin find one whenever any
  candidate is usable; the least-loaded scan also comes back empty when every usable candidate has
  an infinite or undefined load, because it starts from infinity and compares strictly.\<close>

theorem select_none_iff:
  "fst (select_interface cfg cs k rr) = None \<longleftrightarrow>
     usable cs = [] \<or> (cfg_strategy cfg = LoadBalance \<and> cfg_algorithm cfg = LeastLoaded \<and>
       (\<forall>c \<in> set (usable cs). load c = NaN \<or> load c = PosInf))"
proof (cases "usable cs = []")
  case False
  then have "sort_key f (usable cs) \<noteq> []" for f :: "candidate \<Rightarrow> int"
    by (metis length_0_conv length_sort)
  with False show ?thesis
    by (auto simp: select_interface_def Let_def least_loaded_none
        split: strategy.splits balance_algorithm.splits list.splits)
qed (simp add: select_interface_def)

text \<open>C32: Failover takes the first of the usable candidates of highest priority: everything before it
  has a lower priority and nothing after it has a higher one.  The round-robin counter is not
  touched.\<close>

theorem failover_picks_best:
  assumes "cfg_strategy cfg = Failover" and "usable cs \<noteq> []"
  shows "\<exists>us c vs. usable cs = us @ c # vs \<and> select_interface cfg cs k rr = (Some (ci_name c), rr)
    \<and> (\<forall>d \<in> set us. pol_priority (ci_policy d) < pol_priority (ci_policy c))
    \<and> (\<forall>d \<in> set vs. pol_priority (ci_policy d) \<le> pol_priority (ci_policy c))"
proof -
  let ?f = "\<lambda>c. - int (unat (pol_priority (ci_policy c)))"
  obtain us c vs where h: "usable cs = us @ c # vs" "hd (sort_key ?f (usable cs)) = c"
    "\<forall>d \<in> set us. ?f c < ?f d" "\<forall>d \<in> set vs. ?f c \<le> ?f d"
    using hd_sort_key [OF assms(2), of ?f] by blast
  obtain t where "sort_key ?f (usable cs) = c # t"
    using h(2) assms(2) by (metis hd_Cons_tl length_0_conv length_sort)
  then have "select_interface cfg cs k rr = (Some (ci_name c), rr)"
    using assms by (simp add: select_interface_def Let_def)
  moreover have "\<forall>d \<in> set us. pol_priority (ci_policy d) < pol_priority (ci_policy c)"
    using h(3) by (simp add: word_less_def)
  moreover have "\<forall>d \<in> set vs. pol_priority (ci_policy d) \<le> pol_priority (ci_policy c)"
    using h(4) by (simp add: word_le_def)
  ultimately show ?thesis using h(1) by blast
qed

lemma failover_picks_best_witness:
  "\<exists>us c vs. usable two_links = us @ c # vs
    \<and> select_interface (default_config\<lparr>cfg_strategy := Failover\<rparr>) two_links ''x'' 0 = (Some (ci_name c), 0)
    \<and> (\<forall>d \<in> set us. pol_priority (ci_policy d) < pol_priority (ci_policy c))
    \<and> (\<forall>d \<in> set vs. pol_priority (ci_policy d) \<le> pol_priority (ci_policy c))"
  by (rule failover_picks_best) simp_all



text \<open>The weighted pool.  While the weights add up to less than \<open>2 ^ 26\<close> the float arithmetic is
  exact and a candidate of weight \<open>w\<close> gets \<open>total * w\<close> of the \<open>total * total\<close> entries: shares are
  proportional to the weights, at the price of a pool whose size is the square of their sum.\<close>

theorem weighted_pool_shares:
  assumes "total_weight cs < 2 ^ 26" and "distinct cs" and "c \<in> set cs"
  shows "count (mset (weighted_pool cs)) c = total_weight cs * weight_of c
    \<and> length (weighted_pool cs) = total_weight cs * total_weight cs"
proof -
  have "count (mset (weighted_pool cs)) c =
      count (mset cs) c * unat (pool_copies (sum_list (map eff_weight cs)) c)"
    by (simp only: mset_weighted_pool count_copies)
  then show ?thesis
    using assms by (simp add: pool_copies_nat length_weighted_pool distinct_count_atmost_1)
qed

lemma weighted_pool_shares_witness:
  "count (mset (weighted_pool two_links)) (mk_candidate ''eth0'' 20 2 0) = 6 \<and> length (weighted_pool two_links) = 9"
proof -
  have "weight_of (mk_candidate ''eth0'' 20 2 0) = 2" by (simp add: weight_of_def mk_candidate_def)
  then show ?thesis
    using weighted_pool_shares [of two_links "mk_candidate ''eth0'' 20 2 0"] by (simp, simp add: two_links_def)
qed

lemma count_image_inj:
  assumes "inj_on f (set_mset M)" "x \<in># M"
  shows "count (image_mset f M) (f x) = count M x"
proof -
  have "f -` {f x} \<inter> set_mset M = {x}" using assms by (auto dest: inj_onD)
  then show ?thesis by (simp add: count_image_mset)
qed

text \<open>C34: Round robin is fair.  Over one cycle of the pool, from any counter value that does not wrap,
  every usable interface is chosen exactly \<open>total * w\<close> times, whatever the flow keys are.\<close>

theorem round_robin_fair:
  assumes "cfg_strategy cfg = LoadBalance" and "cfg_algorithm cfg = RoundRobin"
    and "c \<in> set (usable cs)" and "distinct (usable cs)" and "inj_on ci_name (set (usable cs))"
    and "total_weight (usable cs) < 2 ^ 26"
    and "length ks = total_weight (usable cs) * total_weight (usable cs)" and "unat rr + length ks \<le> 2 ^ 64"
  shows "count (mset (rr_picks cfg cs ks rr)) (Some (ci_name c)) = total_weight (usable cs) * weight_of c"
proof -
  let ?us = "usable cs"
  have ne: "?us \<noteq> []" using assms(3) by auto
  have "mset (rr_picks cfg cs ks rr) = image_mset (Some \<circ> ci_name) (mset (weighted_pool ?us))"
    by (rule rr_cycle [OF assms(1,2) ne _ assms(8)]) (simp only: assms(7) length_weighted_pool [OF assms(6)])
  moreover have "count (image_mset (Some \<circ> ci_name) (mset (weighted_pool ?us))) ((Some \<circ> ci_name) c)
      = count (mset (weighted_pool ?us)) c"
    by (rule count_image_inj) (use assms(3,5) in \<open>auto simp: inj_on_def\<close>)
  moreover have "count (mset (weighted_pool ?us)) c = total_weight ?us * weight_of c"
    using assms by (simp only: mset_weighted_pool count_copies) (simp add: pool_copies_nat distinct_count_atmost_1)
  ultimately show ?thesis by simp
qed

lemma round_robin_fair_witness:
  "count (mset (rr_picks (default_config\<lparr>cfg_algorithm := RoundRobin\<rparr>) two_links (replicate 9 ''k'') 7)) (Some ''eth0'') = 6"
proof -
  have "weight_of (mk_candidate ''eth0'' 20 2 0) = 2" "ci_name (mk_candidate ''eth0'' 20 2 0) = ''eth0''"
    by (simp_all add: weight_of_def mk_candidate_def)
  then show ?thesis
    using round_robin_fair [of "default_config\<lparr>cfg_algorithm := RoundRobin\<rparr>" "mk_candidate ''eth0'' 20 2 0"
      two_links "replicate 9 ''k''" 7]
    by (simp add: default_config_def) (simp add: two_links_def)
qed

lemma hash_pinned:
  assumes "cfg_strategy cfg = LoadBalance" and "cfg_algorithm cfg = Hash"
    and "mset cs' = mset cs" and "inj_on ci_name (set cs)"
  shows "select_interface cfg cs' k rr' = (fst (select_interface cfg cs k rr), rr')"
proof -
  have m: "mset (usable cs') = mset (usable cs)"
    using assms(3) by (simp add: usable_def)
  have "inj_on ci_name (set (usable cs))"
    using assms(4) by (rule inj_on_subset) (auto simp: usable_iff)
  then have "weighted_pool (usable cs') = weighted_pool (usable cs)"
    by (rule pool_perm [OF m])
  moreover have "usable cs' = [] \<longleftrightarrow> usable cs = []"
    using m by (metis mset_zero_iff)
  ultimately show ?thesis
    using assms(1,2) by (simp add: select_interface_def Let_def)
qed

text \<open>Hash balancing pins a flow.  The interface of a key depends on the set of candidates only, not
  on the order in which they were enumerated and not on the round-robin counter, which it leaves
  alone.\<close>

theorem hash_pins_flow:
  assumes "cfg_strategy cfg = LoadBalance" and "cfg_algorithm cfg = Hash"
    and "mset cs' = mset cs" and "inj_on ci_name (set cs)"
  shows "select_interface cfg cs' k rr' = (fst (select_interface cfg cs k rr), rr')"
  using assms by (rule hash_pinned)

lemma hash_pins_flow_witness:
  "select_interface default_config (rev two_links) ''10.99.0.1:5000->8.8.8.8:443'' 9
   = (fst (select_interface default_config two_links ''10.99.0.1:5000->8.8.8.8:443'' 0), 9)"
  by (rule hash_pins_flow) (simp_all add: default_config_def)

lemma validate_weights_ok: "validate_weights m = Inr () \<longleftrightarrow> (\<forall>(n, p) \<in> set m. pol_weight p \<noteq> 0)"
  by (induction m rule: validate_weights.induct) auto

text \<open>A configuration is accepted exactly when the health-check interval and every interface weight
  are positive, in whatever order the map is iterated.\<close>

theorem validate_ok_iff:
  "validate cfg = Inr () \<longleftrightarrow> cfg_health_check_interval_secs cfg \<noteq> 0
     \<and> (\<forall>(n, p) \<in> set (cfg_interfaces cfg). pol_weight p \<noteq> 0)"
  by (simp add: validate_def validate_weights_ok)

lemma fnv1a_vectors: "fnv1a (as_bytes []) = 0x811c9dc5" "fnv1a (as_bytes ''a'') = 0xe40c292c"
  by (simp_all add: fnv1a_def as_bytes_def)

end
