(* ===== verification/Stats.thy ===== *)
theory Stats
  imports F64 Interface
begin

text \<open>
  \<open>stats.rs\<close>: throughput sampling.  A refresh takes the state of \<open>/sys/class/net\<close> and the
  clock (in nanoseconds) as parameters and returns the updated collector.  The lemmas show which
  samples a refresh writes, that the rates it computes are always finite, and how byte counts are
  printed.
\<close>

record iface_sample =
  smp_rx_bytes_per_sec :: f64
  smp_tx_bytes_per_sec :: f64
  smp_rx_pkt_per_sec :: f64
  smp_tx_pkt_per_sec :: f64
  smp_is_up :: bool

type_synonym counters = "u64 \<times> u64 \<times> u64 \<times> u64"

record stats_collector =
  st_last_counters :: "(string, counters) hmap"
  st_last_at :: nat
  st_samples :: "(string, iface_sample) hmap"

definition default_stats :: "nat \<Rightarrow> stats_collector" where
  "default_stats now = \<lparr>st_last_counters = [], st_last_at = now, st_samples = []\<rparr>"

definition saturating_sub :: "u64 \<Rightarrow> u64 \<Rightarrow> u64" where
  "saturating_sub a b = (if b \<le> a then a - b else 0)"

definition read_counters :: "sysfs \<Rightarrow> string \<Rightarrow> counters" where
  "read_counters fs name =
     (read_u64 (attr fs name ''statistics/rx_bytes''), read_u64 (attr fs name ''statistics/tx_bytes''),
      read_u64 (attr fs name ''statistics/rx_packets''), read_u64 (attr fs name ''statistics/tx_packets''))"

definition link_up :: "sysfs \<Rightarrow> string \<Rightarrow> bool" where
  "link_up fs name \<longleftrightarrow> read_bool (attr fs name ''carrier'')
     \<or> trim (case attr fs name ''operstate'' of Some s \<Rightarrow> s | None \<Rightarrow> []) = ''up''"

definition rate :: "u64 \<Rightarrow> u64 \<Rightarrow> f64 \<Rightarrow> f64" where
  "rate cur old elapsed =
     (let dt = f64_max elapsed (round64 (1 / 1000)) in divide (u64_as_f64 (saturating_sub cur old)) dt)"

definition first_sample :: "bool \<Rightarrow> iface_sample" where
  "first_sample up = \<lparr>smp_rx_bytes_per_sec = Fin 0, smp_tx_bytes_per_sec = Fin 0,
     smp_rx_pkt_per_sec = Fin 0, smp_tx_pkt_per_sec = Fin 0, smp_is_up = up\<rparr>"

text \<open>One iteration of the directory loop.\<close>

definition refresh_entry ::
    "sysfs \<Rightarrow> f64 \<Rightarrow> (string, counters) hmap \<Rightarrow> string \<Rightarrow>
     (string, counters) hmap \<times> (string, iface_sample) hmap \<Rightarrow>
     (string, counters) hmap \<times> (string, iface_sample) hmap" where
  "refresh_entry fs elapsed last_counters name = (\<lambda>(current, samples).
     let (rx_b, tx_b, rx_p, tx_p) = read_counters fs name;
         current' = hm_insert name (rx_b, tx_b, rx_p, tx_p) current;
         up = link_up fs name
     in case hm_get last_counters name of
          None \<Rightarrow> (current', hm_insert name (first_sample up) samples)
        | Some (orp, otx, orxp, otxp) \<Rightarrow>
            (current', hm_insert name
               \<lparr>smp_rx_bytes_per_sec = rate rx_b orp elapsed, smp_tx_bytes_per_sec = rate tx_b otx elapsed,
                smp_rx_pkt_per_sec = rate rx_p orxp elapsed, smp_tx_pkt_per_sec = rate tx_p otxp elapsed,
                smp_is_up = up\<rparr> samples))"

definition refresh :: "sysfs \<Rightarrow> nat \<Rightarrow> stats_collector \<Rightarrow> stats_collector" where
  "refresh fs now self =
     (let elapsed = as_secs_f64 (now - st_last_at self);
          names = (case net_dir fs of Inl e \<Rightarrow> [] | Inr es \<Rightarrow> entry_names es);
          (current, samples) =
            fold (refresh_entry fs elapsed (st_last_counters self)) names ([], st_samples self)
      in \<lparr>st_last_counters = current, st_last_at = now, st_samples = samples\<rparr>)"

section \<open>Printing\<close>

function unit_loop :: "f64 \<Rightarrow> nat \<Rightarrow> f64 \<times> nat" where
  "unit_loop val i =
     (if Fin 1024 \<le> val \<and> i < 4 then unit_loop (divide val (Fin 1024)) (i + 1) else (val, i))"
  by pat_completeness auto
termination by (relation "measure (\<lambda>(val, i). 4 - i)") auto

declare unit_loop.simps [simp del]

definition fmt_bytes :: "f64 \<Rightarrow> f64 option \<Rightarrow> string" where
  "fmt_bytes bytes scale =
     (let v = (case scale of Some s \<Rightarrow> divide bytes s | None \<Rightarrow> bytes);
          (val, i) = unit_loop v 0
      in fmt1 val @ [''B'', ''KB'', ''MB'', ''GB'', ''TB''] ! i)"

definition fmt_bps :: "f64 \<Rightarrow> string" where
  "fmt_bps bps = fmt_bytes bps (Some (Fin 1)) @ ''/s''"

section \<open>Finite rates\<close>

definition rate_ok :: "f64 \<Rightarrow> bool" where
  "rate_ok r = (case r of Fin x \<Rightarrow> 0 \<le> x \<and> x \<le> 2 ^ 74 | _ \<Rightarrow> False)"

definition sample_ok :: "iface_sample \<Rightarrow> bool" where
  "sample_ok s \<longleftrightarrow> rate_ok (smp_rx_bytes_per_sec s) \<and> rate_ok (smp_tx_bytes_per_sec s)
     \<and> rate_ok (smp_rx_pkt_per_sec s) \<and> rate_ok (smp_tx_pkt_per_sec s)"

definition stats_ok :: "stats_collector \<Rightarrow> bool" where
  "stats_ok st \<longleftrightarrow> hm_ok (st_last_counters st) \<and> hm_ok (st_samples st)
     \<and> (\<forall>n s. hm_get (st_samples st) n = Some s \<longrightarrow> sample_ok s)"

lemma rate_ok_0 [simp]: "rate_ok (Fin 0)"
  by (simp add: rate_ok_def)

lemma min_dt: "\<exists>y. round64 (1 / 1000) = Fin y \<and> 1 / 1024 \<le> y"
proof -
  obtain y where y: "round64 (1 / 1000) = Fin y"
    using round64_bounded [of "1 / 1000" 0] by auto
  moreover have "(2 :: rat) powi (- 10) = 1 / 1024" by (simp add: power_int_def field_simps)
  ultimately show ?thesis using round64_at_least [of "- 10" "1 / 1000" y] by simp
qed

lemma elapsed_cases: "\<exists>y. f64_max e (round64 (1 / 1000)) = PosInf
    \<or> f64_max e (round64 (1 / 1000)) = Fin y \<and> 1 / 1024 \<le> y"
proof -
  obtain y where "round64 (1 / 1000) = Fin y" "1 / 1024 \<le> y" using min_dt by blast
  then show ?thesis by (cases e) (auto intro: exI [of _ y])
qed

lemma rate_finite: "rate_ok (rate cur old e)"
proof -
  obtain x where x: "u64_as_f64 (saturating_sub cur old) = Fin x" "0 \<le> x" "x \<le> 2 ^ 64"
    using u64_as_f64_bounded by blast
  obtain y where y: "f64_max e (round64 (1 / 1000)) = PosInf
      \<or> f64_max e (round64 (1 / 1000)) = Fin y \<and> 1 / 1024 \<le> y"
    using elapsed_cases by blast
  show ?thesis
  proof (cases "f64_max e (round64 (1 / 1000)) = PosInf")
    case True
    then show ?thesis by (simp add: rate_def x)
  next
    case False
    with y have f: "f64_max e (round64 (1 / 1000)) = Fin y" and y1: "1 / 1024 \<le> y" by auto
    have "x / y \<le> 2 ^ 64 / (1 / 1024)"
      using x y1 by (intro frac_le) simp_all
    then have "x / y \<le> 2 ^ 74" by simp
    moreover have "0 \<le> x / y" using x y1 by simp
    ultimately obtain z where "round64 (x / y) = Fin z" "0 \<le> z" "z \<le> 2 ^ 74"
      using round64_bounded [of "x / y" 74] by auto
    with y1 show ?thesis by (simp add: rate_def x f rate_ok_def)
  qed
qed

lemma default_stats_ok [simp]: "stats_ok (default_stats now)"
  by (simp add: stats_ok_def default_stats_def)

section \<open>What a refresh writes\<close>

definition sample_of :: "sysfs \<Rightarrow> f64 \<Rightarrow> (string, counters) hmap \<Rightarrow> string \<Rightarrow> iface_sample" where
  "sample_of fs elapsed lst name = (case hm_get lst name of None \<Rightarrow> first_sample (link_up fs name)
     | Some (orp, otx, orxp, otxp) \<Rightarrow>
         (case read_counters fs name of (rx_b, tx_b, rx_p, tx_p) \<Rightarrow>
            \<lparr>smp_rx_bytes_per_sec = rate rx_b orp elapsed, smp_tx_bytes_per_sec = rate tx_b otx elapsed,
             smp_rx_pkt_per_sec = rate rx_p orxp elapsed, smp_tx_pkt_per_sec = rate tx_p otxp elapsed,
             smp_is_up = link_up fs name\<rparr>))"

lemma refresh_entry_eq:
  "refresh_entry fs e lst n (cur, smps) =
     (hm_insert n (read_counters fs n) cur, hm_insert n (sample_of fs e lst n) smps)"
  by (simp add: refresh_entry_def sample_of_def Let_def split: prod.splits option.splits)

lemma sample_of_ok: "sample_ok (sample_of fs e lst n)"
  by (simp add: sample_of_def sample_ok_def first_sample_def rate_finite split: prod.splits option.splits)

lemma refresh_fold:
  "fold (refresh_entry fs e lst) ns (cur, smps) =
     (fold (\<lambda>n. hm_insert n (read_counters fs n)) ns cur, fold (\<lambda>n. hm_insert n (sample_of fs e lst n)) ns smps)"
  by (induction ns arbitrary: cur smps) (simp_all add: refresh_entry_eq)

lemma get_fold_insert:
  "hm_get (fold (\<lambda>n. hm_insert n (f n)) ns m) k = (if k \<in> set ns then Some (f k) else hm_get m k)"
  by (induction ns arbitrary: m) (auto simp: hm.get_insert)

lemma ok_fold_insert: "hm_ok m \<Longrightarrow> hm_ok (fold (\<lambda>n. hm_insert n (f n)) ns m)"
  by (induction ns arbitrary: m) (simp_all add: hm.ok_insert)

definition listed :: "sysfs \<Rightarrow> string list" where
  "listed fs = (case net_dir fs of Inl e \<Rightarrow> [] | Inr es \<Rightarrow> entry_names es)"

lemma refresh_eq:
  "refresh fs now st =
     \<lparr>st_last_counters = fold (\<lambda>n. hm_insert n (read_counters fs n)) (listed fs) [], st_last_at = now,
      st_samples = fold (\<lambda>n. hm_insert n (sample_of fs (as_secs_f64 (now - st_last_at st)) (st_last_counters st) n))
        (listed fs) (st_samples st)\<rparr>"
  by (simp add: refresh_def Let_def refresh_fold listed_def)

lemma refresh_ok: "stats_ok st \<Longrightarrow> stats_ok (refresh fs now st)"
  by (auto simp: stats_ok_def refresh_eq ok_fold_insert get_fold_insert sample_of_ok split: if_splits)

section \<open>Properties\<close>

text \<open>Sampling.  After a refresh the counters are exactly those of the listed interfaces; an
  interface seen by the previous refresh gets the rates of the counter differences over the elapsed
  time, a new one gets zeros, and an interface that is no longer listed keeps its old sample.\<close>

theorem refresh_samples:
  "hm_get (st_samples (refresh fs now st)) n =
     (if n \<notin> set (listed fs) then hm_get (st_samples st) n
      else case hm_get (st_last_counters st) n of
          None \<Rightarrow> Some (first_sample (link_up fs n))
        | Some (orp, otx, orxp, otxp) \<Rightarrow>
            (let (rx_b, tx_b, rx_p, tx_p) = read_counters fs n; dt = as_secs_f64 (now - st_last_at st)
             in Some \<lparr>smp_rx_bytes_per_sec = rate rx_b orp dt, smp_tx_bytes_per_sec = rate tx_b otx dt,
                 smp_rx_pkt_per_sec = rate rx_p orxp dt, smp_tx_pkt_per_sec = rate tx_p otxp dt,
                 smp_is_up = link_up fs n\<rparr>))
   \<and> hm_get (st_last_counters (refresh fs now st)) n =
       (if n \<in> set (listed fs) then Some (read_counters fs n) else None)"
  by (simp add: refresh_eq get_fold_insert sample_of_def Let_def split: option.splits prod.splits)

text \<open>However often and with whatever clock readings the collector is refreshed, every rate it
  holds is a finite non-negative number: the division is guarded by the millisecond floor and the
  counter differences saturate at zero.\<close>

theorem rates_always_finite:
  assumes "hm_get (st_samples (fold (\<lambda>(fs, now). refresh fs now) hist (default_stats t0))) n = Some s"
  shows "\<exists>rx tx. smp_rx_bytes_per_sec s = Fin rx \<and> smp_tx_bytes_per_sec s = Fin tx
    \<and> 0 \<le> rx \<and> 0 \<le> tx \<and> rx \<le> 2 ^ 74 \<and> tx \<le> 2 ^ 74"
proof -
  have "stats_ok (fold (\<lambda>(fs, now). refresh fs now) hist st)" if "stats_ok st" for st
    using that by (induction hist arbitrary: st) (auto simp: refresh_ok)
  from this [OF default_stats_ok] have "sample_ok s" using assms by (auto simp: stats_ok_def)
  then show ?thesis by (auto simp: sample_ok_def rate_ok_def split: f64.splits)
qed

lemma rates_always_finite_witness:
  "\<exists>rx tx. smp_rx_bytes_per_sec (first_sample True) = Fin rx \<and> smp_tx_bytes_per_sec (first_sample True) = Fin tx
    \<and> 0 \<le> rx \<and> 0 \<le> tx \<and> rx \<le> 2 ^ 74 \<and> tx \<le> 2 ^ 74"
proof (rule rates_always_finite)
  show "hm_get (st_samples (fold (\<lambda>(fs, now). refresh fs now) [(sample_fs, 5)] (default_stats 0))) ''eth0''
      = Some (first_sample True)"
    by (simp add: refresh_eq get_fold_insert sample_of_def default_stats_def listed_def link_up_def sample_fs_def
        read_bool_def trim_def is_space_def)
qed

lemma unit_loop_exact:
  assumes "n < 2 ^ 53" "i \<le> 4" "unit_loop (Fin (of_nat n * 2 powi (- 10 * int i))) i = (v, j)"
  shows "i \<le> j \<and> j \<le> 4 \<and> v = Fin (of_nat n * 2 powi (- 10 * int j)) \<and> (j < 4 \<longrightarrow> v < Fin 1024)
    \<and> (i < j \<longrightarrow> Fin 1 \<le> v)"
  using assms
proof (induction "4 - i" arbitrary: i v j)
  case 0
  then show ?case by (auto simp: unit_loop.simps)
next
  case (Suc k)
  let ?x = "of_nat n * 2 powi (- 10 * int i) :: rat"
  show ?case
  proof (cases "1024 \<le> ?x")
    case False
    then show ?thesis using Suc.prems by (subst (asm) unit_loop.simps) (auto simp: less_eq_f64_def)
  next
    case True
    then have n0: "0 < n" by (cases "n = 0") simp_all
    have eq: "?x / 1024 = of_nat n * 2 powi (- 10 * int (i + 1))"
      by (simp add: power_int_diff power_int_minus field_simps)
    have "round_pos (?x / 1024) = ?x / 1024"
      unfolding eq using Suc.prems(1) Suc.hyps(2) n0 by (intro round_pos_exact) simp_all
    moreover have "?x \<le> 2 ^ 53"
    proof -
      have "(of_nat n :: rat) \<le> of_nat (2 ^ 53)" using Suc.prems(1) by (simp only: of_nat_le_iff)
      moreover have "(2 :: rat) powi (- 10 * int i) \<le> 2 powi 0"
        by (rule power_int_increasing) simp_all
      ultimately show ?thesis using mult_mono [of "of_nat n :: rat" "2 ^ 53" "2 powi (- 10 * int i)" 1] by simp
    qed
    ultimately have "divide (Fin ?x) (Fin 1024) = Fin (?x / 1024)"
      using True by (simp add: round64_def Let_def)
    then have d: "divide (Fin ?x) (Fin 1024) = Fin (of_nat n * 2 powi (- 10 * int (i + 1)))"
      by (simp only: eq)
    have i4: "i < 4" using Suc.hyps(2) by simp
    have "unit_loop (Fin ?x) i = unit_loop (divide (Fin ?x) (Fin 1024)) (i + 1)"
      using True i4 by (subst unit_loop.simps) (simp add: less_eq_f64_def le_less)
    then have "unit_loop (Fin (of_nat n * 2 powi (- 10 * int (i + 1)))) (i + 1) = (v, j)"
      using Suc.prems(3) by (simp only: d)
    moreover have "k = 4 - (i + 1)" "i + 1 \<le> 4" using Suc.hyps(2) by simp_all
    ultimately have ih: "i + 1 \<le> j \<and> j \<le> 4 \<and> v = Fin (of_nat n * 2 powi (- 10 * int j)) \<and> (j < 4 \<longrightarrow> v < Fin 1024)
        \<and> (i + 1 < j \<longrightarrow> Fin 1 \<le> v)"
      using Suc.hyps(1) [of "i + 1" v j] Suc.prems(1) by blast
    moreover have "Fin 1 \<le> v" if "j = i + 1"
    proof -
      have "1 \<le> ?x / 1024" using True by simp
      then have "Fin 1 \<le> Fin (of_nat n * 2 powi (- 10 * int (i + 1)))" by (simp only: eq le_Fin)
      moreover have "v = Fin (of_nat n * 2 powi (- 10 * int (i + 1)))" using ih that by blast
      ultimately show ?thesis by simp
    qed
    ultimately show ?thesis by (metis Suc_eq_plus1 le_neq_implies_less less_or_eq_imp_le Suc_leD)
  qed
qed

text \<open>Units.  A whole number of bytes below \<open>2 ^ 53\<close> is printed in the unit \<open>1024 ^ j\<close> with an exact
  mantissa: less than 1024 unless the unit is already TB, and at least 1 unless the unit is B.\<close>

theorem fmt_bytes_unit:
  assumes "n < 2 ^ 53"
  shows "\<exists>v j. fmt_bytes (Fin (of_nat n)) None = fmt1 (Fin v) @ [''B'', ''KB'', ''MB'', ''GB'', ''TB''] ! j
    \<and> j \<le> 4 \<and> of_nat n = v * 1024 ^ j \<and> (j < 4 \<longrightarrow> v < 1024) \<and> (0 < j \<longrightarrow> 1 \<le> v)"
proof -
  obtain w j where u: "unit_loop (Fin (of_nat n)) 0 = (w, j)" by fastforce
  have h: "0 \<le> j \<and> j \<le> 4 \<and> w = Fin (of_nat n * 2 powi (- 10 * int j)) \<and> (j < 4 \<longrightarrow> w < Fin 1024)
      \<and> (0 < j \<longrightarrow> Fin 1 \<le> w)"
    by (rule unit_loop_exact) (use assms u in simp_all)
  from h have j: "j \<le> 4" by (elim conjE)
  from h have w: "w = Fin (of_nat n * 2 powi (- 10 * int j))" by (elim conjE)
  from h have "(j < 4 \<longrightarrow> w < Fin 1024) \<and> (0 < j \<longrightarrow> Fin 1 \<le> w)" by (elim conjE) (rule conjI)
  then have "j < 4 \<longrightarrow> of_nat n * 2 powi (- 10 * int j) < (1024 :: rat)"
    "0 < j \<longrightarrow> (1 :: rat) \<le> of_nat n * 2 powi (- 10 * int j)"
    by (simp_all only: w less_f64.simps less_eq_f64_def f64.inject) (auto simp: le_less)
  moreover have "of_nat n = of_nat n * 2 powi (- 10 * int j) * (1024 :: rat) ^ j"
  proof -
    have "(1024 :: rat) ^ j = 2 powi (10 * int j)"
      using power_mult [of "2 :: rat" 10 j] by (simp add: power_int_def nat_mult_distrib)
    then show ?thesis by (simp add: mult.assoc flip: power_int_add)
  qed
  ultimately show ?thesis
    by (intro exI [of _ "of_nat n * 2 powi (- 10 * int j)"] exI [of _ j])
      (simp add: fmt_bytes_def u w j)
qed

lemma fmt_bytes_unit_witness:
  "\<exists>v j. fmt_bytes (Fin 1536) None = fmt1 (Fin v) @ [''B'', ''KB'', ''MB'', ''GB'', ''TB''] ! j
    \<and> j \<le> 4 \<and> 1536 = v * 1024 ^ j \<and> (j < 4 \<longrightarrow> v < 1024) \<and> (0 < j \<longrightarrow> 1 \<le> v)"
  using fmt_bytes_unit [of 1536] by simp

end
