(* ===== verification/Checksum.thy ===== *)
theory Checksum
  imports Addr
begin

text \<open>
  The checksum helpers and the NAT address rewrite of \<open>packet.rs\<close>.  The two summation loops
  run over an index exactly as the source does, in wrapping \<open>u32\<close> arithmetic; the laws at the end
  express them by the plain sum \<open>wsum\<close> of the big-endian 16-bit words of the data and its
  ones' complement residue \<open>oc\<close>, show that the accumulator does not overflow, and give a normal
  form of the two rewrite functions from which the properties are read off.
\<close>

section \<open>checksum\<close>

function sum_pairs_from :: "bytes \<Rightarrow> nat \<Rightarrow> u32 \<Rightarrow> nat \<times> u32" where
  "sum_pairs_from data i acc =
     (if i + 1 < length data
      then sum_pairs_from data (i + 2) (acc + ucast (be16 (data ! i) (data ! (i + 1))))
      else (i, acc))"
  by pat_completeness auto
termination
  by (relation "measure (\<lambda>(data, i, acc). length data - i)") auto

declare sum_pairs_from.simps [simp del]

lemma fold_carry_decreases:
  assumes "drop_bit 16 (s :: u32) \<noteq> 0"
  shows "unat ((s AND 65535) + drop_bit 16 s) = unat s mod 65536 + unat s div 65536"
    and "unat s mod 65536 + unat s div 65536 < unat s"
proof -
  have d: "unat (drop_bit 16 s) = unat s div 65536"
    by (simp add: drop_bit_eq_div unat_div)
  have "s AND 65535 = take_bit 16 s"
    by (simp add: take_bit_eq_mask mask_eq_exp_minus_1)
  then have m: "unat (s AND 65535) = unat s mod 65536"
    by (simp add: unat_mod take_bit_eq_mod)
  have "unat s < 4294967296" by simp
  then have "unat s mod 65536 + unat s div 65536 < 4294967296" by linarith
  then show "unat ((s AND 65535) + drop_bit 16 s) = unat s mod 65536 + unat s div 65536"
    by (simp add: unat_word_ariths d m)
  from assms have "unat s div 65536 \<noteq> 0"
    by (metis d unat_eq_0)
  then show "unat s mod 65536 + unat s div 65536 < unat s"
    using div_mult_mod_eq [of "unat s" 65536] by linarith
qed

function fold_carry :: "u32 \<Rightarrow> u32" where
  "fold_carry acc = (if drop_bit 16 acc \<noteq> 0 then fold_carry ((acc AND 65535) + drop_bit 16 acc) else acc)"
  by pat_completeness auto
termination
  by (relation "measure unat") (simp, metis fold_carry_decreases in_measure)

declare fold_carry.simps [simp del]

definition checksum :: "bytes \<Rightarrow> u16" where
  "checksum data =
     (let (i, sum) = sum_pairs_from data 0 0;
          sum = (if i < length data then sum + push_bit 8 (ucast (data ! i)) else sum)
      in NOT (ucast (fold_carry sum)))"

section \<open>transport_checksum\<close>

definition pseudo_header :: "bytes \<Rightarrow> bytes \<Rightarrow> u8 \<Rightarrow> nat \<Rightarrow> bytes" where
  "pseudo_header src dst proto len =
     blit 10 (to_be16 (of_nat len)) ((blit 4 dst (blit 0 src (replicate 12 0)))[9 := proto])"

function sum_segment_from :: "bytes \<Rightarrow> nat \<Rightarrow> u32 \<Rightarrow> u32" where
  "sum_segment_from l4 i acc =
     (if i + 1 < length l4
      then sum_segment_from l4 (i + 2)
             (acc + ucast (if i = 16 then be16 0 0 else be16 (l4 ! i) (l4 ! (i + 1))))
      else acc)"
  by pat_completeness auto
termination
  by (relation "measure (\<lambda>(l4, i, acc). length l4 - i)") auto

declare sum_segment_from.simps [simp del]

definition transport_checksum :: "bytes \<Rightarrow> bytes \<Rightarrow> u8 \<Rightarrow> bytes \<Rightarrow> u16" where
  "transport_checksum src dst proto l4 =
     (let (_, sum) = sum_pairs_from (pseudo_header src dst proto (length l4)) 0 0;
          sum = sum_segment_from l4 0 sum;
          sum = (if length l4 mod 2 = 1 then sum + push_bit 8 (ucast (l4 ! (length l4 - 1))) else sum)
      in NOT (ucast (fold_carry sum)))"

section \<open>Address rewriting\<close>

text \<open>The packet buffer is passed as a state; the Boolean is the function's result.\<close>

definition rewrite_ipv4_source :: "bytes \<Rightarrow> ipv4 \<Rightarrow> (bytes \<times> bool) rust" where
  "rewrite_ipv4_source pkt new_src =
     (if length pkt < 20 then Some (pkt, False)
      else do {
        b0 \<leftarrow> idx pkt 0;
        if drop_bit 4 b0 \<noteq> 4 then Some (pkt, False)
        else let ihl = unat (b0 AND 15) * 4
        in if length pkt < ihl then Some (pkt, False)
        else do {
          pkt \<leftarrow> copy_from_slice pkt 12 16 (octets new_src);
          pkt \<leftarrow> set_idx pkt 10 0;
          pkt \<leftarrow> set_idx pkt 11 0;
          hdr \<leftarrow> subslice pkt 0 ihl;
          pkt \<leftarrow> copy_from_slice pkt 10 12 (to_be16 (checksum hdr));
          proto \<leftarrow> idx pkt 9;
          if (proto = 6 \<or> proto = 17) \<and> ihl + 18 \<le> length pkt
          then do {
            d0 \<leftarrow> idx pkt 16; d1 \<leftarrow> idx pkt 17; d2 \<leftarrow> idx pkt 18; d3 \<leftarrow> idx pkt 19;
            l4 \<leftarrow> subslice pkt ihl (length pkt);
            pkt \<leftarrow> copy_from_slice pkt (ihl + 16) (ihl + 18)
                    (to_be16 (transport_checksum (octets new_src) [d0, d1, d2, d3] proto l4));
            Some (pkt, True) }
          else Some (pkt, True) } })"

definition rewrite_ipv4_dest :: "bytes \<Rightarrow> ipv4 \<Rightarrow> (bytes \<times> bool) rust" where
  "rewrite_ipv4_dest pkt new_dst =
     (if length pkt < 20 then Some (pkt, False)
      else do {
        b0 \<leftarrow> idx pkt 0;
        if drop_bit 4 b0 \<noteq> 4 then Some (pkt, False)
        else let ihl = unat (b0 AND 15) * 4
        in if length pkt < ihl then Some (pkt, False)
        else do {
          pkt \<leftarrow> copy_from_slice pkt 16 20 (octets new_dst);
          pkt \<leftarrow> set_idx pkt 10 0;
          pkt \<leftarrow> set_idx pkt 11 0;
          hdr \<leftarrow> subslice pkt 0 ihl;
          pkt \<leftarrow> copy_from_slice pkt 10 12 (to_be16 (checksum hdr));
          proto \<leftarrow> idx pkt 9;
          if (proto = 6 \<or> proto = 17) \<and> ihl + 18 \<le> length pkt
          then do {
            s0 \<leftarrow> idx pkt 12; s1 \<leftarrow> idx pkt 13; s2 \<leftarrow> idx pkt 14; s3 \<leftarrow> idx pkt 15;
            l4 \<leftarrow> subslice pkt ihl (length pkt);
            pkt \<leftarrow> copy_from_slice pkt (ihl + 16) (ihl + 18)
                    (to_be16 (transport_checksum [s0, s1, s2, s3] (octets new_dst) proto l4));
            Some (pkt, True) }
          else Some (pkt, True) } })"

section \<open>The sums\<close>

fun wsum :: "bytes \<Rightarrow> nat" where
  "wsum (a # b # r) = unat a * 256 + unat b + wsum r"
| "wsum [a] = unat a * 256"
| "wsum [] = 0"

definition oc :: "nat \<Rightarrow> nat" where
  "oc n = (if n = 0 then 0 else if n mod 65535 = 0 then 65535 else n mod 65535)"

lemma wsum_append: "even (length xs) \<Longrightarrow> wsum (xs @ ys) = wsum xs + wsum ys"
  by (induction xs rule: wsum.induct) auto

lemma wsum_bound: "wsum xs \<le> 65535 * ((length xs + 1) div 2)"
proof (induction xs rule: wsum.induct)
  case (1 a b r)
  have "unat a * 256 + unat b \<le> 65535"
    using unat_u8_less [of a] unat_u8_less [of b] by linarith
  with 1 show ?case by simp
next
  case (2 a)
  have "unat a * 256 \<le> 65535" using unat_u8_less [of a] by linarith
  then show ?case by simp
qed simp

lemma wsum_fits: "length xs \<le> 131072 \<Longrightarrow> wsum xs < 2 ^ 32"
  using wsum_bound [of xs] by simp

lemma ucast_be16: "(ucast (be16 a b) :: u32) = of_nat (unat a * 256 + unat b)"
  by (metis of_nat_unat unat_be16)

lemma push_bit_octet: "(push_bit 8 (ucast (a :: u8)) :: u32) = of_nat (unat a * 256)"
  by (simp add: push_bit_eq_mult)

lemma sum_pairs_from_eq:
  "\<lbrakk>sum_pairs_from data i acc = (j, s); i \<le> length data\<rbrakk> \<Longrightarrow>
   (if j < length data then s + push_bit 8 (ucast (data ! j)) else s) = acc + of_nat (wsum (drop i data))"
proof (induction data i acc rule: sum_pairs_from.induct)
  case (1 data i acc)
  show ?case
  proof (cases "i + 1 < length data")
    case True
    then have d: "drop i data = data ! i # data ! (i + 1) # drop (i + 2) data"
      by (metis Suc_eq_plus1 Suc_lessD add_2_eq_Suc' Cons_nth_drop_Suc)
    have "sum_pairs_from data (i + 2) (acc + ucast (be16 (data ! i) (data ! (i + 1)))) = (j, s)"
      using "1.prems" True by (simp add: sum_pairs_from.simps [of data i])
    from "1.IH" [OF True this] True show ?thesis
      by (simp add: d ucast_be16 algebra_simps)
  next
    case False
    then have ij: "j = i" "s = acc" using "1.prems" by (simp_all add: sum_pairs_from.simps [of data i])
    have "drop i data = (if i < length data then [data ! i] else [])"
      using False "1.prems" by (auto simp: Suc_lessI not_less simp flip: Cons_nth_drop_Suc)
    then show ?thesis by (simp add: ij push_bit_octet)
  qed
qed

lemma checksum_wsum: "checksum data = NOT (ucast (fold_carry (of_nat (wsum data))))"
proof -
  obtain j s where js: "sum_pairs_from data 0 0 = (j, s)" by fastforce
  from sum_pairs_from_eq [OF js] show ?thesis
    by (simp add: checksum_def js)
qed

lemma oc_step: "oc (n mod 65536 + n div 65536) = oc n"
proof (cases "n = 0")
  case False
  have n: "n = 65535 * (n div 65536) + (n mod 65536 + n div 65536)"
    using div_mult_mod_eq [of n 65536] by linarith
  then have "n mod 65535 = (n mod 65536 + n div 65536) mod 65535"
    by (metis mod_mult_self4)
  moreover have "n mod 65536 + n div 65536 \<noteq> 0" using n False by linarith
  ultimately show ?thesis using False by (simp add: oc_def)
qed (simp add: oc_def)

lemma oc_small: "n < 65536 \<Longrightarrow> oc n = n"
  by (cases "n = 65535") (auto simp: oc_def)

lemma oc_less: "oc n < 65536"
proof -
  have "n mod 65535 < 65535" by simp
  then show ?thesis by (simp add: oc_def del: mod_less_divisor)
qed

lemma unat_fold_carry: "unat (fold_carry s) = oc (unat s)"
proof (induction s rule: fold_carry.induct)
  case (1 s)
  show ?case
  proof (cases "drop_bit 16 s \<noteq> 0")
    case True
    with "1.IH" show ?thesis
      by (simp add: fold_carry.simps [of s] fold_carry_decreases(1) oc_step)
  next
    case False
    then have "unat (drop_bit 16 s) = 0" by simp
    then have "unat s div 65536 = 0" by (simp add: drop_bit_eq_div unat_div)
    then have "unat s < 65536" by linarith
    with False show ?thesis by (simp add: fold_carry.simps [of s] oc_small)
  qed
qed

lemma unat_not_u16: "unat (NOT (w :: u16)) = 65535 - unat w"
proof -
  have "w \<le> 65535"
    using unat_u16_less [of w] by (simp add: word_le_nat_alt del: unat_u16_less)
  then have "unat (65535 - w) = 65535 - unat w"
    by (simp add: unat_sub)
  moreover have "NOT w = 65535 - w"
    by (simp add: not_eq_complement)
  ultimately show ?thesis by simp
qed

lemma unat_complement_fold:
  "n < 2 ^ 32 \<Longrightarrow> unat (NOT (ucast (fold_carry (of_nat n))) :: u16) = 65535 - oc n"
proof -
  assume "n < 2 ^ 32"
  then have "unat (fold_carry (of_nat n)) = oc n"
    by (simp add: unat_fold_carry unat_of_nat_u32)
  then have "unat (ucast (fold_carry (of_nat n)) :: u16) = oc n"
    using oc_less [of n] by (metis of_nat_unat unat_of_nat_u16)
  then show ?thesis by (simp only: unat_not_u16)
qed

lemma unat_checksum: "wsum data < 2 ^ 32 \<Longrightarrow> unat (checksum data) = 65535 - oc (wsum data)"
  by (simp only: checksum_wsum unat_complement_fold)

text \<open>Adding the complement of a sum makes the whole sum a positive multiple of 65535.\<close>

lemma oc_complement: "oc (n + (65535 - oc n)) = 65535"
proof (cases "n mod 65535 = 0")
  case True
  then show ?thesis by (cases "n = 0") (simp_all add: oc_def)
next
  case False
  have "q * k + r + (k - r) = k * Suc q" if "r \<le> k" for q k r :: nat
    using that by (simp add: algebra_simps)
  from this [of "n mod 65535" 65535 "n div 65535"]
  have "n + (65535 - n mod 65535) = 65535 * Suc (n div 65535)"
    by (simp only: div_mult_mod_eq)
  with False show ?thesis by (auto simp: oc_def simp del: mult_Suc_right)
qed

section \<open>The transport checksum is the plain checksum of pseudo-header and segment\<close>

definition zero_field :: "bytes \<Rightarrow> bytes" where
  "zero_field l4 = (if 18 \<le> length l4 then blit 16 [0, 0] l4 else l4)"

lemma length_zero_field [simp]: "length (zero_field l4) = length l4"
  by (simp add: zero_field_def)

lemma nth_zero_field:
  "i < length l4 \<Longrightarrow> zero_field l4 ! i = (if 18 \<le> length l4 \<and> (i = 16 \<or> i = 17) then 0 else l4 ! i)"
  by (auto simp: zero_field_def nth_blit nth_Cons' not_less)

lemma sum_pairs_from_even:
  "sum_pairs_from data i acc = (j, s) \<Longrightarrow> i \<le> length data \<Longrightarrow> even (length data - i) \<Longrightarrow> j = length data"
proof (induction data i acc rule: sum_pairs_from.induct)
  case (1 data i acc)
  then show ?case
    by (cases "i + 1 < length data") (auto simp: sum_pairs_from.simps [of data i] not_less le_Suc_eq)
qed

lemma sum_segment_from_eq:
  assumes "even i" "i \<le> length l4"
  shows "sum_segment_from l4 i acc
      + (if odd (length l4) then push_bit 8 (ucast (l4 ! (length l4 - 1))) else 0)
      = acc + of_nat (wsum (drop i (zero_field l4)))"
  using assms
proof (induction l4 i acc rule: sum_segment_from.induct)
  case (1 l4 i acc)
  let ?z = "zero_field l4"
  show ?case
  proof (cases "i + 1 < length l4")
    case True
    then have d: "drop i ?z = ?z ! i # ?z ! (i + 1) # drop (i + 2) ?z"
      by (metis Suc_eq_plus1 Suc_lessD add_2_eq_Suc' Cons_nth_drop_Suc length_zero_field)
    have w: "(if i = 16 then be16 0 0 else be16 (l4 ! i) (l4 ! (i + 1))) = be16 (?z ! i) (?z ! (i + 1))"
      using True "1.prems"(1) by (auto simp: nth_zero_field)
    show ?thesis
      using "1.IH" [OF True] "1.prems" True
      by (simp add: sum_segment_from.simps [of l4 i] d w ucast_be16 algebra_simps)
  next
    case False
    show ?thesis
    proof (cases "odd (length l4)")
      case True
      with False "1.prems" have i: "length l4 = Suc i" by (auto simp: not_less le_Suc_eq)
      then have "drop i ?z = [l4 ! i]"
        using "1.prems"(1) by (auto simp: nth_zero_field simp flip: Cons_nth_drop_Suc)
      with True False i show ?thesis
        by (simp add: sum_segment_from.simps [of l4 i] push_bit_octet)
    next
      case even: False
      with False "1.prems" have "length l4 = i" by (auto simp: not_less le_Suc_eq)
      with even False show ?thesis by (simp add: sum_segment_from.simps [of l4 i])
    qed
  qed
qed

lemma length_pseudo_header [simp]:
  "length src = 4 \<Longrightarrow> length dst = 4 \<Longrightarrow> length (pseudo_header src dst proto len) = 12"
  by (simp add: pseudo_header_def)

lemma transport_checksum_eq:
  assumes "length src = 4" "length dst = 4"
  shows "transport_checksum src dst proto l4 =
    checksum (pseudo_header src dst proto (length l4) @ zero_field l4)"
proof -
  let ?ph = "pseudo_header src dst proto (length l4)"
  obtain j s where js: "sum_pairs_from ?ph 0 0 = (j, s)" by fastforce
  have "j = 12" using sum_pairs_from_even [OF js] assms by simp
  then have s: "s = of_nat (wsum ?ph)"
    using sum_pairs_from_eq [OF js] assms by simp
  have "(if length l4 mod 2 = 1 then sum_segment_from l4 0 s + push_bit 8 (ucast (l4 ! (length l4 - 1)))
      else sum_segment_from l4 0 s) = s + of_nat (wsum (zero_field l4))"
    using sum_segment_from_eq [of 0 l4 s] by (simp add: odd_iff_mod_2_eq_one split: if_splits)
  moreover have "wsum (?ph @ zero_field l4) = wsum ?ph + wsum (zero_field l4)"
    using assms by (simp add: wsum_append)
  ultimately show ?thesis
    unfolding transport_checksum_def checksum_wsum by (simp only: js s Let_def prod.case of_nat_add)
qed

text \<open>Storing a 16-bit word at an even offset changes the sum by exactly that word.\<close>

lemma wsum_blit:
  "even a \<Longrightarrow> a + 2 \<le> length xs \<Longrightarrow>
   wsum (blit a [u, v] xs) + (unat (xs ! a) * 256 + unat (xs ! (a + 1))) = wsum xs + (unat u * 256 + unat v)"
proof (induction xs arbitrary: a rule: wsum.induct)
  case (1 x y r)
  show ?case
  proof (cases "a = 0")
    case False
    then obtain c where a: "a = c + 2" using "1.prems"(1) by (metis evenE mult_2 nat_arith.rule0 Suc_1
      add_Suc_right add_Suc_shift not0_implies_Suc add_2_eq_Suc')
    then have "blit a [u, v] (x # y # r) = x # y # blit c [u, v] r" by (simp add: blit_def)
    with "1.IH" [of c] "1.prems" a show ?thesis by simp
  qed (simp add: blit_def)
qed simp_all

lemma checksum_insert:
  assumes "even a" "a + 2 \<le> length z" "z ! a = 0" "z ! (a + 1) = 0" "length z \<le> 131072"
  shows "checksum (blit a (to_be16 (checksum z)) z) = 0"
proof -
  obtain u v where uv: "to_be16 (checksum z) = [u, v]" "be16 u v = checksum z"
    by (rule to_be16_cases)
  let ?z = "blit a [u, v] z"
  have "wsum ?z = wsum z + unat (be16 u v)"
    using wsum_blit [OF assms(1,2), of u v] assms by (simp add: unat_be16)
  also have "\<dots> = wsum z + (65535 - oc (wsum z))"
    using assms(5) by (simp only: uv(2) unat_checksum [OF wsum_fits])
  finally have "oc (wsum ?z) = 65535" by (simp only: oc_complement)
  moreover have "length ?z \<le> 131072" using assms by simp
  ultimately have "unat (checksum ?z) = 0" by (simp only: unat_checksum [OF wsum_fits])
  then show ?thesis by (simp only: uv(1) unat_eq_0)
qed

section \<open>Normal form of the rewrites\<close>

definition ihl_of :: "bytes \<Rightarrow> nat" where
  "ihl_of pkt = unat (pkt ! 0 AND 15) * 4"

definition v4_ok :: "bytes \<Rightarrow> bool" where
  "v4_ok pkt \<longleftrightarrow> 20 \<le> length pkt \<and> drop_bit 4 (pkt ! 0) = 4 \<and> ihl_of pkt \<le> length pkt"

definition has_segment_sum :: "bytes \<Rightarrow> bool" where
  "has_segment_sum pkt \<longleftrightarrow> (pkt ! 9 = 6 \<or> pkt ! 9 = 17) \<and> ihl_of pkt + 18 \<le> length pkt"

definition fix_header :: "nat \<Rightarrow> bytes \<Rightarrow> bytes" where
  "fix_header ihl pkt =
     (let p = blit 10 [0, 0] pkt in blit 10 (to_be16 (checksum (take ihl p))) p)"

definition fix_segment :: "nat \<Rightarrow> bytes \<Rightarrow> bytes \<Rightarrow> bytes \<Rightarrow> bytes" where
  "fix_segment ihl src dst pkt =
     blit (ihl + 16) (to_be16 (transport_checksum src dst (pkt ! 9) (drop ihl pkt))) pkt"

definition quad :: "nat \<Rightarrow> bytes \<Rightarrow> bytes" where
  "quad i pkt = [pkt ! i, pkt ! (i + 1), pkt ! (i + 2), pkt ! (i + 3)]"

lemma length_quad [simp]: "length (quad i pkt) = 4"
  by (simp add: quad_def)

lemma length_fix_header [simp]: "12 \<le> length pkt \<Longrightarrow> length (fix_header ihl pkt) = length pkt"
  by (simp add: fix_header_def Let_def)

lemma length_fix_segment [simp]:
  "ihl + 18 \<le> length pkt \<Longrightarrow> length (fix_segment ihl src dst pkt) = length pkt"
  by (simp add: fix_segment_def)

lemma nth_fix_header:
  "12 \<le> length pkt \<Longrightarrow> i < length pkt \<Longrightarrow> i \<noteq> 10 \<Longrightarrow> i \<noteq> 11 \<Longrightarrow> fix_header ihl pkt ! i = pkt ! i"
  by (cases "i < 10") (simp_all add: fix_header_def Let_def blit_out)

lemma nth_fix_segment:
  "ihl + 18 \<le> length pkt \<Longrightarrow> i < length pkt \<Longrightarrow> i \<noteq> ihl + 16 \<Longrightarrow> i \<noteq> ihl + 17 \<Longrightarrow>
   fix_segment ihl src dst pkt ! i = pkt ! i"
  by (cases "i < ihl + 16") (simp_all add: fix_segment_def blit_out)

lemma two_zeros_blit: "12 \<le> length pkt \<Longrightarrow> pkt[10 := 0, 11 := 0] = blit 10 [0, 0] pkt"
  using two_updates_blit [of 10 pkt 0 0] by simp

lemma rewrite_ipv4_source_eq:
  "rewrite_ipv4_source pkt a =
     Some (if v4_ok pkt
           then let p = fix_header (ihl_of pkt) (blit 12 (octets a) pkt)
                in (if has_segment_sum pkt
                    then fix_segment (ihl_of pkt) (octets a) (quad 16 p) p else p, True)
           else (pkt, False))"
proof (cases "length pkt < 20")
  case False
  then have i0: "idx pkt 0 = Some (pkt ! 0)" by (auto simp: idx_def)
  show ?thesis
  proof (cases "drop_bit 4 (pkt ! 0) = 4 \<and> ihl_of pkt \<le> length pkt")
    case True
    with False have "v4_ok pkt" by (simp add: v4_ok_def)
    with False True show ?thesis
      by (simp add: rewrite_ipv4_source_def i0 rust_ok Let_def has_segment_sum_def two_zeros_blit fix_header_def
          fix_segment_def quad_def nth_blit ihl_of_def [symmetric])
  next
    case not_ok: False
    then have "\<not> v4_ok pkt" by (auto simp: v4_ok_def)
    with not_ok False show ?thesis
      by (auto simp: rewrite_ipv4_source_def i0 ihl_of_def)
  qed
qed (simp add: rewrite_ipv4_source_def v4_ok_def)

lemma rewrite_ipv4_dest_eq:
  "rewrite_ipv4_dest pkt a =
     Some (if v4_ok pkt
           then let p = fix_header (ihl_of pkt) (blit 16 (octets a) pkt)
                in (if has_segment_sum pkt
                    then fix_segment (ihl_of pkt) (quad 12 p) (octets a) p else p, True)
           else (pkt, False))"
proof (cases "length pkt < 20")
  case False
  then have i0: "idx pkt 0 = Some (pkt ! 0)" by (auto simp: idx_def)
  show ?thesis
  proof (cases "drop_bit 4 (pkt ! 0) = 4 \<and> ihl_of pkt \<le> length pkt")
    case True
    with False have "v4_ok pkt" by (simp add: v4_ok_def)
    with False True show ?thesis
      by (simp add: rewrite_ipv4_dest_def i0 rust_ok Let_def has_segment_sum_def two_zeros_blit fix_header_def
          fix_segment_def quad_def nth_blit ihl_of_def [symmetric])
  next
    case not_ok: False
    then have "\<not> v4_ok pkt" by (auto simp: v4_ok_def)
    with not_ok False show ?thesis
      by (auto simp: rewrite_ipv4_dest_def i0 ihl_of_def)
  qed
qed (simp add: rewrite_ipv4_dest_def v4_ok_def)

text \<open>The two repaired fields verify.\<close>

lemma fix_header_valid:
  assumes "12 \<le> ihl" "ihl \<le> length pkt" "ihl \<le> 60"
  shows "checksum (take ihl (fix_header ihl pkt)) = 0"
proof -
  let ?z = "take ihl (blit 10 [0, 0] pkt)"
  have "take ihl (fix_header ihl pkt) = blit 10 (to_be16 (checksum ?z)) ?z"
    using assms by (simp add: fix_header_def Let_def take_blit_across)
  moreover have "checksum (blit 10 (to_be16 (checksum ?z)) ?z) = 0"
    using assms by (intro checksum_insert) (simp_all add: nth_blit)
  ultimately show ?thesis by simp
qed

lemma fix_segment_valid:
  assumes "length src = 4" "length dst = 4" "ihl + 18 \<le> length pkt" "length pkt \<le> 131000"
  shows "checksum (pseudo_header src dst (pkt ! 9) (length pkt - ihl)
      @ drop ihl (fix_segment ihl src dst pkt)) = 0"
proof -
  let ?ph = "pseudo_header src dst (pkt ! 9) (length pkt - ihl)"
  let ?l4 = "drop ihl pkt"
  let ?z = "?ph @ zero_field ?l4"
  have "drop ihl (fix_segment ihl src dst pkt) = blit 16 (to_be16 (checksum ?z)) ?l4"
    using assms by (simp add: fix_segment_def drop_blit_across transport_checksum_eq)
  also have "\<dots> = blit 16 (to_be16 (checksum ?z)) (zero_field ?l4)"
    using assms by (simp add: zero_field_def blit_blit_same)
  finally have "?ph @ drop ihl (fix_segment ihl src dst pkt) = blit 28 (to_be16 (checksum ?z)) ?z"
    using assms by (simp add: blit_def)
  moreover have "18 \<le> length ?l4" using assms by simp
  then have "checksum (blit 28 (to_be16 (checksum ?z)) ?z) = 0"
    using assms by (intro checksum_insert) (simp_all add: nth_append nth_zero_field)
  ultimately show ?thesis by simp
qed

lemma ihl_le_60: "ihl_of pkt \<le> 60"
  using low_nibble_less [of "pkt ! 0"] by (simp add: ihl_of_def)

lemma rewritten_bytes:
  assumes p_def: "p = fix_header ihl (blit pos (octets a) pkt)"
    and out_def: "out = (if seg then fix_segment ihl src dst p else p)"
    and len: "20 \<le> length pkt" and pos: "12 \<le> pos" "pos + 4 \<le> 20" and ihl: "20 \<le> ihl"
    and seg: "seg \<longrightarrow> ihl + 18 \<le> length pkt"
  shows "length out = length pkt" "quad pos out = octets a"
    "\<lbrakk>i < length pkt; i \<noteq> 10; i \<noteq> 11; i < pos \<or> pos + 4 \<le> i; seg \<longrightarrow> i \<noteq> ihl + 16 \<and> i \<noteq> ihl + 17\<rbrakk>
       \<Longrightarrow> out ! i = pkt ! i"
proof -
  have p: "length p = length pkt" using len pos by (simp add: p_def)
  then show "length out = length pkt" using seg by (simp add: out_def)
  have out: "out ! j = p ! j" if "j < length pkt" "seg \<longrightarrow> j \<noteq> ihl + 16 \<and> j \<noteq> ihl + 17" for j
    using that seg by (simp add: out_def nth_fix_segment p)
  have hd: "p ! j = blit pos (octets a) pkt ! j" if "j < length pkt" "j \<noteq> 10" "j \<noteq> 11" for j
    using that len pos by (simp add: p_def nth_fix_header)
  have "out ! (pos + j) = octets a ! j" if "j < 4" for j
    using that len pos ihl by (simp add: out hd)
  from this [of 0] this [of 1] this [of 2] this [of 3] show "quad pos out = octets a"
    by (cases a) (simp add: quad_def)
  show "out ! i = pkt ! i" if "i < length pkt" "i \<noteq> 10" "i \<noteq> 11" "i < pos \<or> pos + 4 \<le> i"
      "seg \<longrightarrow> i \<noteq> ihl + 16 \<and> i \<noteq> ihl + 17"
    using that len pos by (simp add: out hd blit_out)
qed

lemma has_segment_sum_len: "has_segment_sum pkt \<Longrightarrow> ihl_of pkt + 18 \<le> length pkt"
  by (simp add: has_segment_sum_def)

lemma rewrite_source_bytes:
  assumes "rewrite_ipv4_source pkt a = Some (out, True)" "20 \<le> ihl_of pkt"
  shows "v4_ok pkt" "length out = length pkt" "quad 12 out = octets a"
    "\<lbrakk>i < length pkt; i < 10 \<or> 16 \<le> i; has_segment_sum pkt \<longrightarrow> i \<noteq> ihl_of pkt + 16 \<and> i \<noteq> ihl_of pkt + 17\<rbrakk>
       \<Longrightarrow> out ! i = pkt ! i"
proof -
  show ok: "v4_ok pkt"
    using assms(1) by (auto simp: rewrite_ipv4_source_eq Let_def split: if_splits)
  define p where "p = fix_header (ihl_of pkt) (blit 12 (octets a) pkt)"
  have out: "out = (if has_segment_sum pkt then fix_segment (ihl_of pkt) (octets a) (quad 16 p) p else p)"
    using assms(1) ok by (auto simp: rewrite_ipv4_source_eq Let_def p_def)
  note b = rewritten_bytes [OF p_def out]
  have len: "20 \<le> length pkt" using ok by (simp add: v4_ok_def)
  show "length out = length pkt" "quad 12 out = octets a"
    using b(1,2) len assms(2) has_segment_sum_len [of pkt] by auto
  show "out ! i = pkt ! i" if "i < length pkt" "i < 10 \<or> 16 \<le> i"
      "has_segment_sum pkt \<longrightarrow> i \<noteq> ihl_of pkt + 16 \<and> i \<noteq> ihl_of pkt + 17"
    using that b(3) [of i] len assms(2) has_segment_sum_len [of pkt] by auto
qed

lemma rewrite_dest_bytes:
  assumes "rewrite_ipv4_dest pkt a = Some (out, True)" "20 \<le> ihl_of pkt"
  shows "v4_ok pkt" "length out = length pkt" "quad 16 out = octets a"
    "\<lbrakk>i < length pkt; i < 10 \<or> (12 \<le> i \<and> i < 16) \<or> 20 \<le> i; has_segment_sum pkt \<longrightarrow> i \<noteq> ihl_of pkt + 16 \<and> i \<noteq> ihl_of pkt + 17\<rbrakk>
       \<Longrightarrow> out ! i = pkt ! i"
proof -
  show ok: "v4_ok pkt"
    using assms(1) by (auto simp: rewrite_ipv4_dest_eq Let_def split: if_splits)
  define p where "p = fix_header (ihl_of pkt) (blit 16 (octets a) pkt)"
  have out: "out = (if has_segment_sum pkt then fix_segment (ihl_of pkt) (quad 12 p) (octets a) p else p)"
    using assms(1) ok by (auto simp: rewrite_ipv4_dest_eq Let_def p_def)
  note b = rewritten_bytes [OF p_def out]
  have len: "20 \<le> length pkt" using ok by (simp add: v4_ok_def)
  show "length out = length pkt" "quad 16 out = octets a"
    using b(1,2) len assms(2) has_segment_sum_len [of pkt] by auto
  show "out ! i = pkt ! i" if "i < length pkt" "i < 10 \<or> (12 \<le> i \<and> i < 16) \<or> 20 \<le> i"
      "has_segment_sum pkt \<longrightarrow> i \<noteq> ihl_of pkt + 16 \<and> i \<noteq> ihl_of pkt + 17"
    using that b(3) [of i] len assms(2) has_segment_sum_len [of pkt] by auto
qed

section \<open>Properties\<close>

text \<open>C27: The checksum of any buffer of at most 131072 bytes (twice the largest IP packet) is the
  ones' complement of the ones' complement sum of its big-endian 16-bit words, an odd last byte
  padded with zero: the \<open>u32\<close> accumulator never overflows and the carry fold ends with the right
  residue.\<close>

theorem checksum_correct:
  assumes "length data \<le> 131072"
  shows "unat (checksum data) = 65535 - oc (wsum data)"
  by (rule unat_checksum [OF wsum_fits [OF assms]])

lemma checksum_correct_witness:
  "unat (checksum [0x45, 0, 0, 0x73, 0, 0, 0x40, 0, 0x40, 0x11, 0, 0, 0xc0, 0xa8, 0, 1, 0xc0, 0xa8, 0, 0xc7])
    = 0xb861"
proof -
  have "unat (checksum [0x45, 0, 0, 0x73, 0, 0, 0x40, 0, 0x40, 0x11, 0, 0, 0xc0, 0xa8, 0, 1, 0xc0, 0xa8, 0, 0xc7])
    = 65535 - oc (wsum [0x45, 0, 0, 0x73, 0, 0, 0x40, 0, 0x40, 0x11, 0, 0, 0xc0, 0xa8, 0, 1, 0xc0, 0xa8, 0, 0xc7])"
    by (rule checksum_correct) simp
  then show ?thesis by (simp add: oc_def)
qed

text \<open>C28: The two-loop transport checksum equals the plain checksum of the 12-byte pseudo-header
  followed by the segment with bytes 16 and 17 zeroed, for segments of every length and parity.\<close>

theorem transport_checksum_is_checksum:
  assumes "length src = 4" and "length dst = 4"
  shows "transport_checksum src dst proto l4 =
    checksum (pseudo_header src dst proto (length l4) @ zero_field l4)"
  by (rule transport_checksum_eq [OF assms])

lemma transport_checksum_is_checksum_witness:
  "transport_checksum [10, 0, 0, 1] [8, 8, 8, 8] 17 (replicate 8 0) =
    checksum (pseudo_header [10, 0, 0, 1] [8, 8, 8, 8] 17 8 @ zero_field (replicate 8 0))"
  using transport_checksum_is_checksum [of "[10, 0, 0, 1]" "[8, 8, 8, 8]" 17 "replicate 8 0"] by simp

text \<open>Source NAT never panics, and it refuses exactly the buffers that do not hold a complete
  IPv4 header (shorter than 20 bytes, another version, or cut before the end of the header), which
  it leaves unchanged.\<close>

theorem rewrite_source_accepts:
  "\<exists>out ok. rewrite_ipv4_source pkt a = Some (out, ok) \<and> ok = v4_ok pkt \<and> (ok \<or> out = pkt)"
  by (simp add: rewrite_ipv4_source_eq Let_def)

lemma source_parts:
  assumes "rewrite_ipv4_source pkt a = Some (out, True)" "20 \<le> ihl_of pkt"
  defines "p \<equiv> fix_header (ihl_of pkt) (blit 12 (octets a) pkt)"
  shows "take (ihl_of pkt) out = take (ihl_of pkt) p"
    "has_segment_sum pkt \<Longrightarrow> out = fix_segment (ihl_of pkt) (octets a) (quad 16 pkt) p"
    "length p = length pkt" "p ! 9 = pkt ! 9" "ihl_of pkt \<le> length pkt"
proof -
  have ok: "v4_ok pkt" by (rule rewrite_source_bytes(1) [OF assms(1,2)])
  then have len: "20 \<le> length pkt" and ihl: "ihl_of pkt \<le> length pkt" by (simp_all add: v4_ok_def)
  show p: "length p = length pkt" using len by (simp add: p_def)
  show "ihl_of pkt \<le> length pkt" by (rule ihl)
  have q: "p ! i = pkt ! i" if "i < 20" "i < 10 \<or> 16 \<le> i" for i
    using that len by (auto simp: p_def nth_fix_header blit_out)
  then show "p ! 9 = pkt ! 9" by simp
  have "quad 16 p = quad 16 pkt" by (simp add: quad_def q)
  then have out: "out = (if has_segment_sum pkt
      then fix_segment (ihl_of pkt) (octets a) (quad 16 pkt) p else p)"
    using assms(1) ok by (auto simp: rewrite_ipv4_source_eq Let_def p_def)
  then show "has_segment_sum pkt \<Longrightarrow> out = fix_segment (ihl_of pkt) (octets a) (quad 16 pkt) p" by simp
  show "take (ihl_of pkt) out = take (ihl_of pkt) p"
    using out p has_segment_sum_len [of pkt] by (auto simp: fix_segment_def take_blit_before)
qed

lemma dest_parts:
  assumes "rewrite_ipv4_dest pkt a = Some (out, True)" "20 \<le> ihl_of pkt"
  defines "p \<equiv> fix_header (ihl_of pkt) (blit 16 (octets a) pkt)"
  shows "take (ihl_of pkt) out = take (ihl_of pkt) p"
    "has_segment_sum pkt \<Longrightarrow> out = fix_segment (ihl_of pkt) (quad 12 pkt) (octets a) p"
    "length p = length pkt" "p ! 9 = pkt ! 9" "ihl_of pkt \<le> length pkt"
proof -
  have ok: "v4_ok pkt" by (rule rewrite_dest_bytes(1) [OF assms(1,2)])
  then have len: "20 \<le> length pkt" and ihl: "ihl_of pkt \<le> length pkt" by (simp_all add: v4_ok_def)
  show p: "length p = length pkt" using len by (simp add: p_def)
  show "ihl_of pkt \<le> length pkt" by (rule ihl)
  have q: "p ! i = pkt ! i" if "i < 20" "i < 10 \<or> (12 \<le> i \<and> i < 16)" for i
    using that len by (auto simp: p_def nth_fix_header blit_out)
  then show "p ! 9 = pkt ! 9" by simp
  have "quad 12 p = quad 12 pkt" by (simp add: quad_def q)
  then have out: "out = (if has_segment_sum pkt
      then fix_segment (ihl_of pkt) (quad 12 pkt) (octets a) p else p)"
    using assms(1) ok by (auto simp: rewrite_ipv4_dest_eq Let_def p_def)
  then show "has_segment_sum pkt \<Longrightarrow> out = fix_segment (ihl_of pkt) (quad 12 pkt) (octets a) p" by simp
  show "take (ihl_of pkt) out = take (ihl_of pkt) p"
    using out p has_segment_sum_len [of pkt] by (auto simp: fix_segment_def take_blit_before)
qed

lemma rewrite_header_valid:
  "rewrite_ipv4_source pkt a = Some (out, True) \<Longrightarrow> 20 \<le> ihl_of pkt \<Longrightarrow> checksum (take (ihl_of pkt) out) = 0"
  "rewrite_ipv4_dest pkt a = Some (out, True) \<Longrightarrow> 20 \<le> ihl_of pkt \<Longrightarrow> checksum (take (ihl_of pkt) out) = 0"
proof -
  assume rw: "rewrite_ipv4_source pkt a = Some (out, True)" "20 \<le> ihl_of pkt"
  note parts = source_parts [OF rw]
  show "checksum (take (ihl_of pkt) out) = 0"
    using rw(2) ihl_le_60 parts(3,5) unfolding parts(1) by (intro fix_header_valid) simp_all
next
  assume rw: "rewrite_ipv4_dest pkt a = Some (out, True)" "20 \<le> ihl_of pkt"
  note parts = dest_parts [OF rw]
  show "checksum (take (ihl_of pkt) out) = 0"
    using rw(2) ihl_le_60 parts(3,5) unfolding parts(1) by (intro fix_header_valid) simp_all
qed

definition tcp_sample :: bytes where
  "tcp_sample = [0x45, 0, 0, 40, 0, 0, 0, 0, 64, 6, 0, 0, 10, 99, 0, 1, 8, 8, 8, 8,
     0x12, 0x34, 1, 0xbb, 0, 0, 0, 0, 0, 0, 0, 0, 0x50, 2, 0xff, 0xff, 0, 0, 0, 0]"

lemma tcp_sample_ok: "v4_ok tcp_sample" "20 \<le> ihl_of tcp_sample" "length tcp_sample \<le> 65535"
  "tcp_sample ! 9 = 6" "ihl_of tcp_sample + 18 \<le> length tcp_sample"
  by (simp_all add: tcp_sample_def v4_ok_def ihl_of_def)





section \<open>What the rewrite forgets\<close>

lemma blit_commute:
  "a + length ys \<le> b \<Longrightarrow> b + length zs \<le> length xs \<Longrightarrow> blit a ys (blit b zs xs) = blit b zs (blit a ys xs)"
  by (rule nth_equalityI) (auto simp: nth_blit)

lemma fix_segment_blit:
  assumes "ihl + 18 \<le> length p" "length ys = 2" "length src = 4" "length dst = 4"
  shows "fix_segment ihl src dst (blit (ihl + 16) ys p) = fix_segment ihl src dst p"
proof -
  have l4: "18 \<le> length p - ihl" using assms(1) by simp
  have "zero_field (blit 16 ys (drop ihl p)) = zero_field (drop ihl p)"
    using l4 assms by (simp add: zero_field_def blit_blit_same)
  then have "transport_checksum src dst pr (blit 16 ys (drop ihl p)) = transport_checksum src dst pr (drop ihl p)" for pr
    using assms by (simp add: transport_checksum_eq)
  then show ?thesis
    using assms by (simp add: fix_segment_def drop_blit_across nth_blit blit_blit_same)
qed

lemma fix_header_blit:
  assumes "12 \<le> ihl" "ihl \<le> b" "b + length ys \<le> length p"
  shows "fix_header ihl (blit b ys p) = blit b ys (fix_header ihl p)"
  using assms by (simp add: fix_header_def Let_def blit_commute take_blit_before)


definition udp_sample :: bytes where
  "udp_sample = [0x45, 0, 0, 40, 0, 0, 0, 0, 64, 17, 0, 0, 10, 99, 0, 1, 8, 8, 8, 8,
     0x12, 0x34, 0, 53, 0, 20, 0, 0, 1, 2, 3, 4, 5, 6, 7, 8, 9, 10, 11, 12]"


end
