(* ===== verification/Packet.thy ===== *)
theory Packet
  imports Checksum
begin

text \<open>
  \<open>packet.rs\<close>: the flow descriptor and its key, the IPv4 and IPv6 header parsers and the IPv6
  text form.  Every index into the packet goes through the panicking \<open>idx\<close>, so that freedom from
  panics is a theorem (\<open>parse_total\<close>) and not an assumption of the model.
\<close>

section \<open>Flow\<close>

record flow =
  fl_src :: string
  fl_dst :: string
  fl_proto :: u8
  fl_sport :: u16
  fl_dport :: u16

definition flow_key :: "flow \<Rightarrow> string" where
  "flow_key f = fl_src f @ '':'' @ show_dec (unat (fl_sport f)) @ ''->'' @
     fl_dst f @ '':'' @ show_dec (unat (fl_dport f))"

section \<open>parse_v4\<close>

definition parse_v4 :: "bytes \<Rightarrow> flow option rust" where
  "parse_v4 pkt =
     (if length pkt < 20 then Some None
      else do {
        b0 \<leftarrow> idx pkt 0;
        let ihl = unat (b0 AND 15) * 4
        in if ihl < 20 \<or> length pkt < ihl then Some None
        else do {
          proto \<leftarrow> idx pkt 9;
          s0 \<leftarrow> idx pkt 12; s1 \<leftarrow> idx pkt 13; s2 \<leftarrow> idx pkt 14; s3 \<leftarrow> idx pkt 15;
          d0 \<leftarrow> idx pkt 16; d1 \<leftarrow> idx pkt 17; d2 \<leftarrow> idx pkt 18; d3 \<leftarrow> idx pkt 19;
          (sport, dport) \<leftarrow>
            (if (proto = 6 \<or> proto = 17) \<and> ihl + 4 \<le> length pkt
             then do {
               p0 \<leftarrow> idx pkt ihl; p1 \<leftarrow> idx pkt (ihl + 1);
               p2 \<leftarrow> idx pkt (ihl + 2); p3 \<leftarrow> idx pkt (ihl + 3);
               Some (be16 p0 p1, be16 p2 p3) }
             else Some (0, 0));
          Some (Some \<lparr>fl_src = show_quad s0 s1 s2 s3, fl_dst = show_quad d0 d1 d2 d3,
                      fl_proto = proto, fl_sport = sport, fl_dport = dport\<rparr>) } })"

section \<open>ip6\<close>

definition usize_max :: nat where
  "usize_max = 2 ^ 64 - 1"

fun hextets :: "bytes \<Rightarrow> u16 list" where
  "hextets (a # b # r) = be16 a b # hextets r"
| "hextets _ = []"

text \<open>The scan for the longest run of zero words: \<open>(best_start, best_len, cur_start, cur_len)\<close>.\<close>

definition run_step :: "nat \<Rightarrow> u16 \<Rightarrow> nat \<times> nat \<times> nat \<times> nat \<Rightarrow> nat \<times> nat \<times> nat \<times> nat" where
  "run_step i w st =
     (case st of (best_start, best_len, cur_start, cur_len) \<Rightarrow>
        if w = 0 then
          let (cur_start, cur_len) = (if cur_start = usize_max then (i, 1) else (cur_start, cur_len + 1))
          in if best_len < cur_len then (cur_start, cur_len, cur_start, cur_len)
             else (best_start, best_len, cur_start, cur_len)
        else (best_start, best_len, usize_max, 0))"

fun scan_runs :: "nat \<Rightarrow> u16 list \<Rightarrow> nat \<times> nat \<times> nat \<times> nat \<Rightarrow> nat \<times> nat \<times> nat \<times> nat" where
  "scan_runs i [] st = st"
| "scan_runs i (w # ws) st = scan_runs (i + 1) ws (run_step i w st)"

definition put_sep :: "string \<Rightarrow> string" where
  "put_sep out = (if out \<noteq> [] \<and> last out \<noteq> CHR '':'' then out @ '':'' else out)"

fun put_words :: "bool \<Rightarrow> nat \<Rightarrow> nat \<Rightarrow> nat \<Rightarrow> u16 list \<Rightarrow> string \<Rightarrow> string" where
  "put_words compress best_start best_len i [] out = out"
| "put_words compress best_start best_len i (w # ws) out =
     put_words compress best_start best_len (i + 1) ws
       (if compress \<and> best_start \<le> i \<and> i < best_start + best_len
        then (if i = best_start then out @ (if best_start = 0 then '':'' else '':'') else out)
        else put_sep out @ show_hex (unat w))"

definition ip6 :: "bytes \<Rightarrow> string" where
  "ip6 b =
     (let words = hextets b;
          (best_start, best_len, _, _) = scan_runs 0 words (usize_max, 0, usize_max, 0);
          compress = (2 \<le> best_len);
          out = put_words compress best_start best_len 0 words [];
          out = (if compress \<and> best_start + best_len = 8 then out @ '':'' else out)
      in if out = [] then ''::'' else out)"

section \<open>parse_v6\<close>

text \<open>The extension-header walk is a \<open>for\<close> loop of eight rounds; the inner option is the early
  \<open>return None\<close>.\<close>

fun walk_ext :: "nat \<Rightarrow> bytes \<Rightarrow> u8 \<Rightarrow> nat \<Rightarrow> (u8 \<times> nat) option rust" where
  "walk_ext 0 pkt next_header offset = Some (Some (next_header, offset))"
| "walk_ext (Suc n) pkt next_header offset =
     (if next_header = 6 \<or> next_header = 17 then Some (Some (next_header, offset))
      else if next_header = 0 \<or> next_header = 43 \<or> next_header = 60 \<or> next_header = 135
      then if length pkt < offset + 2 then Some None
           else do {
             l \<leftarrow> idx pkt (offset + 1);
             nh \<leftarrow> idx pkt offset;
             walk_ext n pkt nh (offset + (unat l + 1) * 8) }
      else Some (Some (next_header, offset)))"

definition parse_v6 :: "bytes \<Rightarrow> flow option rust" where
  "parse_v6 pkt =
     (if length pkt < 40 then Some None
      else do {
        s \<leftarrow> subslice pkt 8 24;
        d \<leftarrow> subslice pkt 24 40;
        nh0 \<leftarrow> idx pkt 6;
        walked \<leftarrow> walk_ext 8 pkt nh0 40;
        (case walked of
           None \<Rightarrow> Some None
         | Some (next_header, offset) \<Rightarrow> do {
             (sport, dport) \<leftarrow>
               (if (next_header = 6 \<or> next_header = 17) \<and> offset + 4 \<le> length pkt
                then do {
                  p0 \<leftarrow> idx pkt offset; p1 \<leftarrow> idx pkt (offset + 1);
                  p2 \<leftarrow> idx pkt (offset + 2); p3 \<leftarrow> idx pkt (offset + 3);
                  Some (be16 p0 p1, be16 p2 p3) }
                else Some (0, 0));
             Some (Some \<lparr>fl_src = ip6 s, fl_dst = ip6 d, fl_proto = next_header,
                         fl_sport = sport, fl_dport = dport\<rparr>) }) })"

definition parse :: "bytes \<Rightarrow> flow option rust" where
  "parse pkt =
     (if pkt = [] then Some None
      else do {
        b0 \<leftarrow> idx pkt 0;
        let version = drop_bit 4 b0
        in if version = 4 then parse_v4 pkt
           else if version = 6 then parse_v6 pkt
           else Some None })"

section \<open>Parsing without the panics\<close>

definition v4_ports :: "bytes \<Rightarrow> u16 \<times> u16" where
  "v4_ports pkt =
     (let ihl = ihl_of pkt
      in if (pkt ! 9 = 6 \<or> pkt ! 9 = 17) \<and> ihl + 4 \<le> length pkt
         then (be16 (pkt ! ihl) (pkt ! (ihl + 1)), be16 (pkt ! (ihl + 2)) (pkt ! (ihl + 3)))
         else (0, 0))"

definition v4_flow :: "bytes \<Rightarrow> flow" where
  "v4_flow pkt =
     \<lparr>fl_src = show_quad (pkt ! 12) (pkt ! 13) (pkt ! 14) (pkt ! 15),
      fl_dst = show_quad (pkt ! 16) (pkt ! 17) (pkt ! 18) (pkt ! 19),
      fl_proto = pkt ! 9, fl_sport = fst (v4_ports pkt), fl_dport = snd (v4_ports pkt)\<rparr>"

lemma idx_0: "xs \<noteq> [] \<Longrightarrow> idx xs 0 = Some (xs ! 0)"
  by (simp add: idx_def)

lemma parse_v4_eq:
  "parse_v4 pkt =
     Some (if 20 \<le> length pkt \<and> 20 \<le> ihl_of pkt \<and> ihl_of pkt \<le> length pkt
           then Some (v4_flow pkt) else None)"
proof (cases "20 \<le> length pkt")
  case True
  then have "pkt \<noteq> []" by auto
  with True show ?thesis
    by (auto simp: parse_v4_def idx_0 rust_ok Let_def v4_flow_def v4_ports_def ihl_of_def)
qed (simp add: parse_v4_def)

lemma walk_ext_total: "\<exists>r. walk_ext n pkt nh off = Some r"
proof (induction n arbitrary: nh off)
  case (Suc n)
  then show ?case by (auto simp: rust_ok)
qed simp

lemma parse_v6_total: "\<exists>r. parse_v6 pkt = Some r"
proof (cases "length pkt < 40")
  case False
  obtain r where "walk_ext 8 pkt (pkt ! 6) 40 = Some r" using walk_ext_total by blast
  with False show ?thesis
    by (auto simp: parse_v6_def rust_ok split: option.splits)
qed (simp add: parse_v6_def)

lemma parse_not_v4_v6:
  "pkt = [] \<or> (drop_bit 4 (pkt ! 0) \<noteq> 4 \<and> drop_bit 4 (pkt ! 0) \<noteq> 6) \<Longrightarrow> parse pkt = Some None"
  by (auto simp: parse_def idx_0 Let_def)

lemma parse_v4_packet:
  "v4_ok pkt \<Longrightarrow> 20 \<le> ihl_of pkt \<Longrightarrow> parse pkt = Some (Some (v4_flow pkt))"
proof -
  assume a: "v4_ok pkt" "20 \<le> ihl_of pkt"
  then have "pkt \<noteq> []" by (auto simp: v4_ok_def)
  with a show ?thesis by (simp add: parse_def idx_0 parse_v4_eq v4_ok_def)
qed

lemma parse_v4_iff:
  assumes "pkt \<noteq> []" "drop_bit 4 (pkt ! 0) = 4"
  shows "parse pkt = Some (Some f) \<longleftrightarrow> v4_ok pkt \<and> 20 \<le> ihl_of pkt \<and> f = v4_flow pkt"
  using assms by (auto simp: parse_def idx_0 parse_v4_eq v4_ok_def)

section \<open>The text of an IPv6 address\<close>

definition zero_run :: "u16 list \<Rightarrow> nat \<Rightarrow> nat \<Rightarrow> bool" where
  "zero_run ws a n \<longleftrightarrow> a + n \<le> length ws \<and> (\<forall>j. a \<le> j \<and> j < a + n \<longrightarrow> ws ! j = 0)"

definition current_run :: "u16 list \<Rightarrow> nat \<Rightarrow> nat \<Rightarrow> bool" where
  "current_run ws start n \<longleftrightarrow>
     (start = usize_max \<and> n = 0 \<and> (ws = [] \<or> last ws \<noteq> 0))
     \<or> (start < usize_max \<and> start + n = length ws \<and> zero_run ws start n \<and> (start = 0 \<or> ws ! (start - 1) \<noteq> 0))"

definition runs_inv :: "u16 list \<Rightarrow> nat \<times> nat \<times> nat \<times> nat \<Rightarrow> bool" where
  "runs_inv ws st = (case st of (best_start, best_len, cur_start, cur_len) \<Rightarrow>
     (best_len \<noteq> 0 \<longrightarrow> zero_run ws best_start best_len) \<and>
     current_run ws cur_start cur_len \<and> (\<forall>a n. zero_run ws a n \<longrightarrow> n \<le> best_len))"

lemma zero_run_snoc_old:
  "a + n \<le> length ws \<Longrightarrow> zero_run (ws @ [w]) a n \<longleftrightarrow> zero_run ws a n"
  by (auto simp: zero_run_def nth_append)

lemma zero_run_snoc_end:
  "a + n = length ws \<Longrightarrow> zero_run (ws @ [w]) a (Suc n) \<longleftrightarrow> zero_run ws a n \<and> w = 0"
  by (auto simp: zero_run_def nth_append less_Suc_eq)

lemma zero_run_end_bound:
  assumes "current_run ws start n" "zero_run ws a m" "a + m = length ws"
  shows "m \<le> n"
proof (cases "start = usize_max \<and> n = 0 \<and> (ws = [] \<or> last ws \<noteq> 0)")
  case True
  show ?thesis
  proof (rule ccontr)
    assume "\<not> m \<le> n"
    then have "a \<le> length ws - 1" "length ws - 1 < a + m" "ws \<noteq> []" using assms(3) by auto
    with assms(2) have "last ws = 0" by (simp add: zero_run_def last_conv_nth)
    with True \<open>ws \<noteq> []\<close> show False by simp
  qed
next
  case False
  with assms(1) have s: "start + n = length ws" "start = 0 \<or> ws ! (start - 1) \<noteq> 0"
    by (auto simp: current_run_def)
  show ?thesis
  proof (rule ccontr)
    assume "\<not> m \<le> n"
    with s assms(3) have "a \<le> start - 1" "start - 1 < a + m" "start \<noteq> 0" by auto
    with assms(2) s(2) show False by (auto simp: zero_run_def)
  qed
qed

lemma current_run_step:
  assumes "current_run ws start n" "length ws < usize_max"
  shows "current_run (ws @ [0]) (if start = usize_max then length ws else start)
      (if start = usize_max then 1 else n + 1)"
proof (cases "start = usize_max")
  case True
  with assms have "ws = [] \<or> last ws \<noteq> 0" by (auto simp: current_run_def)
  then have "length ws = 0 \<or> ws ! (length ws - 1) \<noteq> 0" by (auto simp: last_conv_nth)
  with True assms(2) show ?thesis
    by (cases "ws = []") (auto simp: current_run_def zero_run_def nth_append)
next
  case False
  with assms show ?thesis
    by (auto simp: current_run_def zero_run_snoc_end nth_append)
qed

lemma current_run_break: "w \<noteq> 0 \<Longrightarrow> current_run (ws @ [w]) usize_max 0"
  by (simp add: current_run_def)

lemma runs_inv_step:
  assumes "runs_inv ws st" "length ws < usize_max"
  shows "runs_inv (ws @ [w]) (run_step (length ws) w st)"
proof -
  obtain bs bl cs cl where st: "st = (bs, bl, cs, cl)" by (cases st) auto
  from assms(1) have inv: "bl \<noteq> 0 \<longrightarrow> zero_run ws bs bl" "current_run ws cs cl"
    "\<And>a n. zero_run ws a n \<Longrightarrow> n \<le> bl"
    by (auto simp: runs_inv_def st)
  have old: "bl \<noteq> 0 \<longrightarrow> zero_run (ws @ [w]) bs bl"
    using inv(1) by (auto simp: zero_run_def nth_append)
  have runs: "zero_run (ws @ [w]) a n \<Longrightarrow> n \<le> bl \<or> (w = 0 \<and> n \<le> Suc cl)" for a n
  proof -
    assume r: "zero_run (ws @ [w]) a n"
    show ?thesis
    proof (cases "a + n \<le> length ws")
      case True
      with r inv(3) show ?thesis by (auto simp: zero_run_snoc_old)
    next
      case False
      with r have "a + n = Suc (length ws)" by (auto simp: zero_run_def)
      then show ?thesis
      proof (cases n)
        case (Suc m)
        with \<open>a + n = Suc (length ws)\<close> r have "w = 0" "zero_run ws a m" "a + m = length ws"
          using zero_run_snoc_end [of a m ws w] by auto
        with zero_run_end_bound [OF inv(2)] Suc show ?thesis by simp
      qed simp
    qed
  qed
  show ?thesis
  proof (cases "w = 0")
    case False
    with old runs current_run_break [OF False, of ws] show ?thesis
      by (auto simp: runs_inv_def st run_step_def)
  next
    case True
    define cs' cl' where "cs' = (if cs = usize_max then length ws else cs)"
      and "cl' = (if cs = usize_max then 1 else cl + 1)"
    have cur: "current_run (ws @ [w]) cs' cl'"
      using current_run_step [OF inv(2) assms(2)] True by (simp add: cs'_def cl'_def)
    have cl: "Suc cl \<le> cl'"
      using inv(2) by (auto simp: cl'_def current_run_def)
    have "cs' < usize_max"
      using inv(2) assms(2) by (auto simp: cs'_def current_run_def)
    with cur have "zero_run (ws @ [w]) cs' cl'"
      by (auto simp: current_run_def)
    moreover have "run_step (length ws) w st
        = (if bl < cl' then (cs', cl', cs', cl') else (bs, bl, cs', cl'))"
      using True by (simp add: run_step_def st cs'_def cl'_def)
    ultimately show ?thesis
      using cur old runs cl by (fastforce simp: runs_inv_def dest: runs)
  qed
qed

lemma scan_runs_inv:
  "runs_inv ws st \<Longrightarrow> length ws + length vs \<le> usize_max \<Longrightarrow> runs_inv (ws @ vs) (scan_runs (length ws) vs st)"
proof (induction vs arbitrary: ws st)
  case (Cons v vs)
  then have "runs_inv (ws @ [v]) (run_step (length ws) v st)"
    by (intro runs_inv_step) simp_all
  with Cons.IH [of "ws @ [v]"] Cons.prems show ?case by simp
qed simp

fun join_hex :: "u16 list \<Rightarrow> string" where
  "join_hex [] = []"
| "join_hex [w] = show_hex (unat w)"
| "join_hex (w # v # ws) = show_hex (unat w) @ '':'' @ join_hex (v # ws)"

lemma last_show_hex: "last (show_hex n) \<noteq> CHR '':''"
proof -
  have "last (radix 16 n) < 16" by (rule radix_digits [of 16 _ n]) simp_all
  then have "to_digit 16 (last (show_hex n)) \<noteq> None"
    by (simp add: show_hex_def last_map to_digit_digit)
  then show ?thesis by (auto simp: to_digit_def)
qed

lemma put_sep_hex [simp]: "put_sep (out @ show_hex n) = out @ show_hex n @ '':''"
  by (simp add: put_sep_def last_show_hex)

lemma put_sep_simps [simp]: "put_sep [] = []" "put_sep (out @ '':'') = out @ '':''"
  by (simp_all add: put_sep_def)

lemma put_words_plain:
  "\<not> c \<or> bs + bl \<le> i \<Longrightarrow>
   put_words c bs bl i ws out = (if ws = [] then out else put_sep out @ join_hex ws)"
proof (induction ws arbitrary: i out)
  case (Cons w ws)
  from Cons.prems have c: "\<not> (c \<and> bs \<le> i \<and> i < bs + bl)" and c': "\<not> c \<or> bs + bl \<le> i + 1" by auto
  have "put_words c bs bl i (w # ws) out = put_words c bs bl (i + 1) ws (put_sep out @ show_hex (unat w))"
    by (simp only: put_words.simps if_not_P [OF c])
  also have "\<dots> = (if ws = [] then put_sep out @ show_hex (unat w)
      else put_sep out @ show_hex (unat w) @ '':'' @ join_hex ws)"
    by (simp only: Cons.IH [OF c'] put_sep_hex append_assoc)
  also have "\<dots> = put_sep out @ join_hex (w # ws)" by (cases ws) simp_all
  finally show ?case by simp
qed simp

lemma put_words_inside:
  "bs < i \<Longrightarrow> i \<le> bs + bl \<Longrightarrow>
   put_words True bs bl i ws out = put_words True bs bl (bs + bl) (drop (bs + bl - i) ws) out"
proof (induction ws arbitrary: i)
  case (Cons w ws)
  show ?case
  proof (cases "i = bs + bl")
    case False
    with Cons.prems have "bs + bl - i = Suc (bs + bl - Suc i)" by simp
    with Cons.IH [of "Suc i"] Cons.prems False show ?thesis by simp
  qed simp
qed simp

lemma put_words_before:
  "i \<le> bs \<Longrightarrow> bs - i \<le> length ws \<Longrightarrow>
   put_words True bs bl i ws out =
     put_words True bs bl bs (drop (bs - i) ws)
       (if i = bs then out else put_sep out @ join_hex (take (bs - i) ws))"
proof (induction ws arbitrary: i out)
  case (Cons w ws)
  show ?case
  proof (cases "i = bs")
    case False
    with Cons.prems have d: "bs - i = Suc (bs - Suc i)" by simp
    have "put_words True bs bl i (w # ws) out
        = put_words True bs bl (Suc i) ws (put_sep out @ show_hex (unat w))"
      using False Cons.prems by simp
    also have "\<dots> = put_words True bs bl bs (drop (bs - Suc i) ws)
       (if Suc i = bs then put_sep out @ show_hex (unat w)
        else put_sep out @ show_hex (unat w) @ '':'' @ join_hex (take (bs - Suc i) ws))"
      using Cons.IH [of "Suc i"] Cons.prems False by simp
    also have "(if Suc i = bs then put_sep out @ show_hex (unat w)
        else put_sep out @ show_hex (unat w) @ '':'' @ join_hex (take (bs - Suc i) ws))
        = put_sep out @ join_hex (take (bs - i) (w # ws))"
      using False Cons.prems d by (cases "take (bs - Suc i) ws") auto
    finally show ?thesis
      using False d by simp
  qed simp
qed simp

lemma put_words_compressed:
  assumes "bs + bl \<le> length ws" "0 < bl"
  shows "put_words True bs bl 0 ws [] = join_hex (take bs ws) @ '':'' @ join_hex (drop (bs + bl) ws)"
proof -
  have "drop bs ws \<noteq> []" using assms by simp
  then obtain v vs where v: "drop bs ws = v # vs" by (cases "drop bs ws") auto
  then have vs: "drop (bs + bl) ws = drop (bl - 1) vs"
    using assms by (metis Suc_pred' drop_Suc_Cons drop_drop add.commute)
  have "put_words True bs bl 0 ws [] = put_words True bs bl bs (v # vs) (join_hex (take bs ws))"
    using put_words_before [of 0 bs ws bl "[]"] assms by (auto simp: v put_sep_def)
  also have "\<dots> = put_words True bs bl (Suc bs) vs (join_hex (take bs ws) @ '':'')"
    using assms by simp
  also have "\<dots> = put_words True bs bl (bs + bl) (drop (bl - 1) vs) (join_hex (take bs ws) @ '':'')"
    using assms by (subst put_words_inside) simp_all
  also have "\<dots> = join_hex (take bs ws) @ '':'' @ join_hex (drop (bl - 1) vs)"
    by (subst put_words_plain) (simp_all add: put_sep_def)
  finally show ?thesis by (simp add: vs)
qed

lemma length_hextets [simp]: "length (hextets b) = length b div 2"
  by (induction b rule: hextets.induct) auto

lemma runs_inv_start: "runs_inv [] (usize_max, 0, usize_max, 0)"
  by (simp add: runs_inv_def current_run_def zero_run_def)

section \<open>Properties\<close>

lemma parse_returns: "\<exists>r. parse pkt = Some r"
  using parse_v6_total [of pkt] by (auto simp: parse_def idx_0 Let_def parse_v4_eq)

text \<open>C26: No byte sequence whatever makes the packet parser panic: every index it takes is inside
  the packet, on the IPv4 path, on the IPv6 path and in the extension-header walk.\<close>

theorem parse_total: "\<exists>r. parse pkt = Some r"
  by (rule parse_returns)

lemma ipv4_from_str_v4_flow [simp]:
  "ipv4_from_str (fl_src (v4_flow pkt)) = Some (Ipv4 (pkt ! 12) (pkt ! 13) (pkt ! 14) (pkt ! 15))"
  "ipv4_from_str (fl_dst (v4_flow pkt)) = Some (Ipv4 (pkt ! 16) (pkt ! 17) (pkt ! 18) (pkt ! 19))"
  by (simp_all add: v4_flow_def)

text \<open>The address texts of a parsed IPv4 flow read back as the header's address bytes, so the
  conversions \<open>flow.src.parse()\<close> and \<open>flow.dst.parse()\<close> of the data plane and of the NAT table
  never fail on an IPv4 packet and lose nothing.\<close>

theorem parse_v4_addresses_read_back:
  assumes "parse pkt = Some (Some f)" and "pkt \<noteq> []" and "drop_bit 4 (pkt ! 0) = 4"
  shows "ipv4_from_str (fl_src f) = Some (Ipv4 (pkt ! 12) (pkt ! 13) (pkt ! 14) (pkt ! 15))
    \<and> ipv4_from_str (fl_dst f) = Some (Ipv4 (pkt ! 16) (pkt ! 17) (pkt ! 18) (pkt ! 19))"
  using assms by (simp add: parse_v4_iff)

lemma parse_v4_addresses_read_back_witness:
  "ipv4_from_str (fl_src (v4_flow tcp_sample)) = Some (Ipv4 10 99 0 1)
   \<and> ipv4_from_str (fl_dst (v4_flow tcp_sample)) = Some (Ipv4 8 8 8 8)"
  using parse_v4_addresses_read_back [OF parse_v4_packet [OF tcp_sample_ok(1,2)]]
  by (simp add: tcp_sample_def)

lemma flow_key_inject:
  assumes "CHR '':'' \<notin> set (fl_src f)" "CHR '':'' \<notin> set (fl_src g)"
    "CHR '':'' \<notin> set (fl_dst f)" "CHR '':'' \<notin> set (fl_dst g)"
  shows "flow_key f = flow_key g \<longleftrightarrow>
    fl_src f = fl_src g \<and> fl_sport f = fl_sport g \<and> fl_dst f = fl_dst g \<and> fl_dport f = fl_dport g"
  using assms by (auto simp: flow_key_def split_at_separator dash_not_in_dec word_unat_eq_iff)

text \<open>Rewriting the source address leaves everything the parser reads untouched but the source.\<close>

lemma v4_flow_rewrite_source:
  assumes "rewrite_ipv4_source pkt a = Some (out, True)" "v4_ok pkt" "20 \<le> ihl_of pkt"
  shows "v4_ok out" "ihl_of out = ihl_of pkt" "v4_flow out = (v4_flow pkt)\<lparr>fl_src := show_ipv4 a\<rparr>"
proof -
  note rw = rewrite_source_bytes [OF assms(1,3)]
  have low: "out ! i = pkt ! i" if "i < 10 \<or> (16 \<le> i \<and> i < ihl_of pkt + 16)" "i < length pkt" for i
    using that assms(3) by (intro rw(4)) auto
  have len: "20 \<le> length pkt" "pkt \<noteq> []" using assms(2) by (auto simp: v4_ok_def)
  then have b: "out ! 0 = pkt ! 0" "out ! 9 = pkt ! 9" "quad 16 out = quad 16 pkt"
    using assms(3) by (simp_all add: low quad_def)
  then show ihl: "ihl_of out = ihl_of pkt" by (simp add: ihl_of_def)
  with b assms(2) rw(2) show "v4_ok out" by (simp add: v4_ok_def)
  have "v4_ports out = v4_ports pkt"
    using assms(3) rw(2) by (auto simp: v4_ports_def Let_def ihl b low)
  moreover have "show_quad (out ! 12) (out ! 13) (out ! 14) (out ! 15) = show_ipv4 a"
    using rw(3) by (cases a) (simp add: quad_def)
  ultimately show "v4_flow out = (v4_flow pkt)\<lparr>fl_src := show_ipv4 a\<rparr>"
    using b by (simp add: v4_flow_def quad_def)
qed

lemma v4_flow_rewrite_dest:
  assumes "rewrite_ipv4_dest pkt a = Some (out, True)" "v4_ok pkt" "20 \<le> ihl_of pkt"
  shows "v4_ok out" "ihl_of out = ihl_of pkt" "v4_flow out = (v4_flow pkt)\<lparr>fl_dst := show_ipv4 a\<rparr>"
    "quad 12 out = quad 12 pkt" "out ! 9 = pkt ! 9" "v4_ports out = v4_ports pkt"
proof -
  note rw = rewrite_dest_bytes [OF assms(1,3)]
  have low: "out ! i = pkt ! i" if "i < 10 \<or> (12 \<le> i \<and> i < 16) \<or> (20 \<le> i \<and> i < ihl_of pkt + 16)" "i < length pkt" for i
    using that assms(3) by (intro rw(4)) auto
  have len: "20 \<le> length pkt" "pkt \<noteq> []" using assms(2) by (auto simp: v4_ok_def)
  then have b: "out ! 0 = pkt ! 0" "out ! 9 = pkt ! 9" "quad 12 out = quad 12 pkt"
    using assms(3) by (simp_all add: low quad_def)
  then show ihl: "ihl_of out = ihl_of pkt" by (simp add: ihl_of_def)
  with b assms(2) rw(2) show "v4_ok out" by (simp add: v4_ok_def)
  show ports: "v4_ports out = v4_ports pkt"
    using assms(3) rw(2) by (auto simp: v4_ports_def Let_def ihl b low)
  have "show_quad (out ! 16) (out ! 17) (out ! 18) (out ! 19) = show_ipv4 a"
    using rw(3) by (cases a) (simp add: quad_def)
  with ports show "v4_flow out = (v4_flow pkt)\<lparr>fl_dst := show_ipv4 a\<rparr>"
    using b by (simp add: v4_flow_def quad_def)
  show "quad 12 out = quad 12 pkt" "out ! 9 = pkt ! 9" by (fact b)+
qed

text \<open>Source NAT changes nothing of a packet's flow but the source address: the rewritten packet
  parses, and to the same protocol, destination and ports.\<close>

theorem parse_after_source_rewrite:
  assumes "v4_ok pkt" and "20 \<le> ihl_of pkt" and "rewrite_ipv4_source pkt a = Some (out, True)"
  shows "parse out = Some (Some ((v4_flow pkt)\<lparr>fl_src := show_ipv4 a\<rparr>))"
  using v4_flow_rewrite_source [OF assms(3,1,2)] assms(2) by (simp add: parse_v4_packet)

lemma parse_after_source_rewrite_witness:
  "\<exists>out. rewrite_ipv4_source tcp_sample (Ipv4 192 168 31 49) = Some (out, True) \<and>
     parse out = Some (Some ((v4_flow tcp_sample)\<lparr>fl_src := show_ipv4 (Ipv4 192 168 31 49)\<rparr>))"
proof -
  obtain out where "rewrite_ipv4_source tcp_sample (Ipv4 192 168 31 49) = Some (out, True)"
    using tcp_sample_ok(1) by (auto simp: rewrite_ipv4_source_eq Let_def)
  with parse_after_source_rewrite [OF tcp_sample_ok(1,2) this] show ?thesis by blast
qed

text \<open>Two IPv4 packets get the same flow key exactly when source address, source port,
  destination address and destination port agree.  The transport protocol is not part of the key,
  so a TCP and a UDP flow between the same endpoints share it, although the module documentation
  speaks of a 5-tuple.\<close>

theorem flow_key_v4_iff:
  "flow_key (v4_flow p) = flow_key (v4_flow q) \<longleftrightarrow>
     quad 12 p = quad 12 q \<and> quad 16 p = quad 16 q \<and> v4_ports p = v4_ports q"
proof -
  have "CHR '':'' \<notin> set (fl_src (v4_flow r))" "CHR '':'' \<notin> set (fl_dst (v4_flow r))" for r
    by (simp_all add: v4_flow_def colon_not_in_quad)
  then show ?thesis
    by (auto simp: flow_key_inject v4_flow_def show_quad_inject quad_def prod_eq_iff)
qed

text \<open>The text of a 16-byte IPv6 address.  The scan finds a longest run of zero words; without a
  run of two the eight words are printed in hexadecimal with colons between them, and otherwise the
  run is replaced by one colon, doubled only where the run reaches the end of the address.  (RFC
  5952 asks for a double colon in every case.)\<close>

theorem ip6_text:
  assumes "length b = 16"
  shows "\<exists>start len. (len \<noteq> 0 \<longrightarrow> zero_run (hextets b) start len)
    \<and> (\<forall>a n. zero_run (hextets b) a n \<longrightarrow> n \<le> len)
    \<and> ip6 b = (if len < 2 then join_hex (hextets b)
        else join_hex (take start (hextets b)) @ '':'' @ join_hex (drop (start + len) (hextets b))
          @ (if start + len = 8 then '':'' else []))"
proof -
  let ?ws = "hextets b"
  have l8: "length ?ws = 8" using assms by simp
  have ws: "?ws \<noteq> []" using l8 by (metis list.size(3) zero_neq_numeral)
  have len: "length ?ws \<le> usize_max" by (simp only: l8 usize_max_def) simp
  obtain bs bl cs cl where scan: "scan_runs 0 ?ws (usize_max, 0, usize_max, 0) = (bs, bl, cs, cl)"
    using prod_cases4 by blast
  have "runs_inv ?ws (bs, bl, cs, cl)"
    using scan_runs_inv [OF runs_inv_start, of ?ws] len by (simp add: scan)
  then have inv: "bl \<noteq> 0 \<longrightarrow> zero_run ?ws bs bl" "\<forall>a n. zero_run ?ws a n \<longrightarrow> n \<le> bl"
    by (auto simp: runs_inv_def)
  have "ip6 b = (if bl < 2 then join_hex ?ws
      else join_hex (take bs ?ws) @ '':'' @ join_hex (drop (bs + bl) ?ws)
        @ (if bs + bl = 8 then '':'' else []))"
  proof (cases "bl < 2")
    case True
    then have "ip6 b = (if join_hex ?ws = [] then ''::'' else join_hex ?ws)"
      using ws by (simp add: ip6_def scan put_words_plain Let_def)
    then show ?thesis using True ws by (cases ?ws rule: join_hex.cases) simp_all
  next
    case False
    with inv(1) have "bs + bl \<le> length ?ws" "0 < bl" by (auto simp: zero_run_def)
    with False show ?thesis by (simp add: ip6_def scan put_words_compressed Let_def)
  qed
  with inv show ?thesis by blast
qed

lemma ip6_text_witness:
  "\<exists>start len. (len \<noteq> 0 \<longrightarrow> zero_run (hextets [0x20,1,0x0d,0xb8,0,0,0,0,0,0,0,0,0,0,0,1]) start len)
    \<and> (\<forall>a n. zero_run (hextets [0x20,1,0x0d,0xb8,0,0,0,0,0,0,0,0,0,0,0,1]) a n \<longrightarrow> n \<le> len)
    \<and> ip6 [0x20,1,0x0d,0xb8,0,0,0,0,0,0,0,0,0,0,0,1] = (if len < 2
        then join_hex (hextets [0x20,1,0x0d,0xb8,0,0,0,0,0,0,0,0,0,0,0,1])
        else join_hex (take start (hextets [0x20,1,0x0d,0xb8,0,0,0,0,0,0,0,0,0,0,0,1])) @ '':''
          @ join_hex (drop (start + len) (hextets [0x20,1,0x0d,0xb8,0,0,0,0,0,0,0,0,0,0,0,1]))
          @ (if start + len = 8 then '':'' else []))"
  by (rule ip6_text) simp

text \<open>The text of an IPv6 address has a colon, which the parser of IPv4 addresses refuses; so a flow whose
  destination reads as an IPv4 address comes from an IPv4 packet.\<close>

lemma join_hex_colon: "2 \<le> length ws \<Longrightarrow> CHR '':'' \<in> set (join_hex ws)"
  by (cases ws rule: join_hex.cases) simp_all

lemma ip6_colon: "length b = 16 \<Longrightarrow> CHR '':'' \<in> set (ip6 b)"
  using ip6_text [of b] join_hex_colon [of "hextets b"] by (auto split: if_splits)

lemma parse_v6_colon:
  assumes "parse_v6 pkt = Some (Some f)"
  shows "CHR '':'' \<in> set (fl_dst f)"
proof -
  have l: "40 \<le> length pkt" using assms by (simp add: parse_v6_def split: if_splits)
  then have "subslice pkt 8 24 = Some (take 16 (drop 8 pkt))" "subslice pkt 24 40 = Some (take 16 (drop 24 pkt))"
    by (simp_all add: subslice_ok)
  then have "fl_dst f = ip6 (take 16 (drop 24 pkt))"
    using assms l by (auto simp: parse_v6_def split: bind_splits option.splits)
  then show ?thesis using l by (simp add: ip6_colon)
qed

lemma parse_ipv4_only:
  assumes "parse pkt = Some (Some f)" "ipv4_from_str (fl_dst f) = Some ip"
  shows "v4_ok pkt" "20 \<le> ihl_of pkt" "f = v4_flow pkt"
proof -
  have ne: "pkt \<noteq> []" using assms(1) by (auto simp: parse_def)
  have "drop_bit 4 (pkt ! 0) = 4"
  proof (rule ccontr)
    assume "drop_bit 4 (pkt ! 0) \<noteq> 4"
    with assms(1) ne have "parse_v6 pkt = Some (Some f)" by (auto simp: parse_def idx_0 Let_def split: if_splits)
    then show False using parse_v6_colon no_colon_in_ipv4 [OF assms(2)] by blast
  qed
  then show "v4_ok pkt" "20 \<le> ihl_of pkt" "f = v4_flow pkt" using assms(1) by (simp_all add: parse_v4_iff [OF ne])
qed

text \<open>The missing colon loses information: 2001:db8::1 prints as \<open>2001:db8:1\<close>, and so does the
  different address 2001::db8:1, so two IPv6 flows to different hosts can share a flow key.\<close>

theorem ip6_texts_collide:
  "ip6 [0x20,0x01,0x0d,0xb8,0,0,0,0,0,0,0,0,0,0,0,1] = ''2001:db8:1'' \<and>
   ip6 [0x20,0x01,0,0,0,0,0,0,0,0,0,0,0x0d,0xb8,0,1] = ''2001:db8:1''"
proof -
  have "show_hex 0x2001 = ''2001''" "show_hex 0xdb8 = ''db8''" "show_hex (Suc 0) = ''1''"
    by (simp_all add: show_hex_def radix_small radix_big)
  then show ?thesis
    by (simp add: ip6_def run_step_def usize_max_def be16_def put_sep_def)
qed

end
