(* ===== verification/Aggregator.thy ===== *)
theory Aggregator
  imports Policy Stats Packet
begin

text \<open>
  \<open>aggregator.rs\<close>: the engine that ties enumeration, statistics and the scheduler together, and the
  synthetic packet generator of the simulation mode.  The aggregator is a record that every
  operation returns updated; \<open>/sys/class/net\<close> and the clock are parameters of the operations that
  read them.  \<open>agg_step\<close> is the step relation of one aggregator under all its operations, whose
  invariant gives the properties that hold in every reachable state.
\<close>

datatype mode = Tunnelling | Simulation

record forward_decision =
  fd_flow :: flow
  fd_interface :: "string option"

record aggregator =
  ag_config :: aggregator_config
  ag_mode :: mode
  ag_stats :: stats_collector
  ag_candidates :: "candidate list"
  ag_rr_counter :: u64
  ag_flow_table :: "(string, string) hmap"

section \<open>Operations\<close>

definition aggregator_new :: "aggregator_config \<Rightarrow> mode \<Rightarrow> nat \<Rightarrow> netmux_error + aggregator" where
  "aggregator_new cfg m now =
     (case validate cfg of
        Inl e \<Rightarrow> Inl e
      | Inr u \<Rightarrow> Inr \<lparr>ag_config = cfg, ag_mode = m, ag_stats = default_stats now, ag_candidates = [],
          ag_rr_counter = 0, ag_flow_table = []\<rparr>)"

definition set_mode :: "mode \<Rightarrow> aggregator \<Rightarrow> aggregator" where
  "set_mode m self = self\<lparr>ag_mode := m\<rparr>"

fun base_prior :: "interface_kind \<Rightarrow> u32" where
  "base_prior Ethernet = 30"
| "base_prior Cellular = 20"
| "base_prior Wifi = 10"
| "base_prior k = 5"

definition candidate_of ::
    "aggregator_config \<Rightarrow> (string, iface_sample) hmap \<Rightarrow> interface \<Rightarrow> candidate" where
  "candidate_of cfg samples i =
     (let cfg_pol = with_priority
            (case hm_get (cfg_interfaces cfg) (if_name i) of Some p \<Rightarrow> p | None \<Rightarrow> default_policy)
            (max (base_prior (if_kind i)) 0);
          s = hm_get samples (if_name i)
      in \<lparr>ci_name = if_name i, ci_kind = if_kind i, ci_policy = cfg_pol,
          ci_tx_bps = (case s of Some v \<Rightarrow> smp_tx_bytes_per_sec v | None \<Rightarrow> Fin 0),
          ci_rx_bps = (case s of Some v \<Rightarrow> smp_rx_bytes_per_sec v | None \<Rightarrow> Fin 0),
          ci_healthy = (if_carrier i \<and> if_is_up i)\<rparr>)"

definition refresh_candidates :: "sysfs \<Rightarrow> aggregator \<Rightarrow> aggregator" where
  "refresh_candidates fs self =
     (let ifaces = (case enumerate_interfaces fs of Inr is \<Rightarrow> is | Inl e \<Rightarrow> []);
          next_list = map (candidate_of (ag_config self) (st_samples (ag_stats self)))
            (filter (\<lambda>i. if_kind i \<noteq> Loopback \<and> if_kind i \<noteq> Virtual) ifaces)
      in self\<lparr>ag_candidates := next_list\<rparr>)"

definition reload :: "(string, iface_sample) hmap \<Rightarrow> candidate \<Rightarrow> candidate" where
  "reload samples c =
     (case hm_get samples (ci_name c) of
        None \<Rightarrow> c
      | Some s \<Rightarrow> c\<lparr>ci_tx_bps := smp_tx_bytes_per_sec s, ci_rx_bps := smp_rx_bytes_per_sec s\<rparr>)"

text \<open>\<open>fs\<close> is what the statistics read, \<open>fs'\<close> what the enumeration after them reads.\<close>

definition agg_tick :: "sysfs \<Rightarrow> nat \<Rightarrow> sysfs \<Rightarrow> aggregator \<Rightarrow> aggregator" where
  "agg_tick fs now fs' self =
     (let self1 = self\<lparr>ag_stats := refresh fs now (ag_stats self)\<rparr>;
          self2 = self1\<lparr>ag_candidates :=
            map (reload (st_samples (ag_stats self1))) (ag_candidates self1)\<rparr>
      in refresh_candidates fs' self2)"

definition inject_sim_candidates ::
    "(string \<times> interface_kind \<times> u32 \<times> u32) list \<Rightarrow> aggregator \<Rightarrow> aggregator" where
  "inject_sim_candidates entries self =
     self\<lparr>ag_candidates := map (\<lambda>(name, kind, priority, weight).
        let policy = with_priority default_policy priority
        in \<lparr>ci_name = name, ci_kind = kind,
            ci_policy = \<lparr>pol_priority = pol_priority policy, pol_weight = weight, pol_enabled = True\<rparr>,
            ci_tx_bps = Fin 0, ci_rx_bps = Fin 0, ci_healthy = True\<rparr>) entries\<rparr>"

definition agg_select :: "string \<Rightarrow> aggregator \<Rightarrow> string option \<times> aggregator" where
  "agg_select key self =
     (case select_interface (ag_config self) (ag_candidates self) key (ag_rr_counter self) of
        (None, rr) \<Rightarrow> (None, self\<lparr>ag_rr_counter := rr\<rparr>)
      | (Some pick, rr) \<Rightarrow>
          (Some pick, self\<lparr>ag_rr_counter := rr, ag_flow_table := hm_insert key pick (ag_flow_table self)\<rparr>))"

definition route :: "bytes \<Rightarrow> aggregator \<Rightarrow> (forward_decision option \<times> aggregator) rust" where
  "route pkt self =
     (if \<not> cfg_enabled (ag_config self) then Some (None, self)
      else do {
        parsed \<leftarrow> parse pkt;
        (case parsed of
           None \<Rightarrow> Some (None, self)
         | Some f \<Rightarrow>
             (let (decision, self') = agg_select (flow_key f) self
              in Some (map_option (\<lambda>d. \<lparr>fd_flow = f, fd_interface = Some d\<rparr>) decision, self'))) })"

definition load_of :: "string \<Rightarrow> aggregator \<Rightarrow> f64" where
  "load_of name self =
     (case find (\<lambda>c. ci_name c = name) (ag_candidates self) of
        None \<Rightarrow> Fin 0 | Some c \<Rightarrow> ci_tx_bps c + ci_rx_bps c)"

section \<open>The synthetic generator\<close>

record pcap_generator =
  pg_rate_per_sec :: f64
  pg_tick :: u64
  pg_seeds :: "u32 list"

definition default_generator :: pcap_generator where
  "default_generator = \<lparr>pg_rate_per_sec = Fin 50, pg_tick = 0, pg_seeds = [7, 13, 29, 41, 53, 67, 79, 97]\<rparr>"

definition next_packet :: "nat \<Rightarrow> pcap_generator \<Rightarrow> (bytes \<times> pcap_generator) rust" where
  "next_packet len self =
     (let t = pg_tick self + 1; i = unat t mod 8
      in do {
        s \<leftarrow> idx (pg_seeds self) i;
        let rnd = s * 1664525 + 1013904223
        in do {
          seeds \<leftarrow> set_idx (pg_seeds self) i rnd;
          pkt \<leftarrow> Some (replicate (max 40 len) 0);
          pkt \<leftarrow> set_idx pkt 0 0x45;
          pkt \<leftarrow> set_idx pkt 9 6;
          pkt \<leftarrow> set_idx pkt 12 (ucast (drop_bit 16 rnd));
          pkt \<leftarrow> set_idx pkt 13 (ucast (drop_bit 8 rnd));
          pkt \<leftarrow> set_idx pkt 14 1;
          pkt \<leftarrow> set_idx pkt 15 (ucast (drop_bit 24 rnd));
          pkt \<leftarrow> set_idx pkt 16 8;
          pkt \<leftarrow> set_idx pkt 17 8;
          pkt \<leftarrow> set_idx pkt 18 (4 + ucast (rnd mod 4));
          pkt \<leftarrow> set_idx pkt 19 8;
          pkt \<leftarrow> copy_from_slice pkt 20 22 (to_be16 (ucast (rnd mod 60000) + 1024));
          pkt \<leftarrow> copy_from_slice pkt 22 24 (to_be16 443);
          Some (pkt, self\<lparr>pg_tick := t, pg_seeds := seeds\<rparr>) } })"

text \<open>The duration is in nanoseconds.\<close>

definition per_tick :: "pcap_generator \<Rightarrow> nat \<Rightarrow> nat" where
  "per_tick self dt = unat (f64_as_u64 (f64_max (pg_rate_per_sec self * as_secs_f64 dt) (Fin 1)))"

section \<open>Routing\<close>

lemma agg_select_some:
  assumes "agg_select key ag = (Some n, ag')"
  shows "\<exists>c \<in> set (ag_candidates ag). ci_name c = n \<and> pol_enabled (ci_policy c) \<and> ci_healthy c"
    and "\<exists>rr. ag' = ag\<lparr>ag_rr_counter := rr, ag_flow_table := hm_insert key n (ag_flow_table ag)\<rparr>"
    and "fst (select_interface (ag_config ag) (ag_candidates ag) key (ag_rr_counter ag)) = Some n"
  using assms sched.sel_usable
  by (fastforce simp: agg_select_def usable_iff split: prod.splits option.splits)+

lemma agg_select_none:
  assumes "agg_select key ag = (None, ag')"
  shows "\<exists>rr. ag' = ag\<lparr>ag_rr_counter := rr\<rparr>"
    and "fst (select_interface (ag_config ag) (ag_candidates ag) key (ag_rr_counter ag)) = None"
  using assms by (auto simp: agg_select_def split: prod.splits option.splits)

lemma route_cases:
  obtains (disabled) "\<not> cfg_enabled (ag_config ag)" "route pkt ag = Some (None, ag)"
  | (unparsed) "cfg_enabled (ag_config ag)" "parse pkt = Some None" "route pkt ag = Some (None, ag)"
  | (undecided) f ag' where "cfg_enabled (ag_config ag)" "parse pkt = Some (Some f)"
      "agg_select (flow_key f) ag = (None, ag')" "route pkt ag = Some (None, ag')"
  | (decided) f n ag' where "cfg_enabled (ag_config ag)" "parse pkt = Some (Some f)"
      "agg_select (flow_key f) ag = (Some n, ag')"
      "route pkt ag = Some (Some \<lparr>fd_flow = f, fd_interface = Some n\<rparr>, ag')"
proof -
  obtain r where r: "parse pkt = Some r" using parse_returns by blast
  show ?thesis
  proof (cases "cfg_enabled (ag_config ag)")
    case True
    show ?thesis
    proof (cases r)
      case None
      with True r show ?thesis by (intro unparsed) (simp_all add: route_def)
    next
      case (Some f)
      obtain d ag' where sel: "agg_select (flow_key f) ag = (d, ag')" by fastforce
      with True r Some show ?thesis
        by (cases d) (auto simp: route_def intro: undecided decided)
    qed
  qed (auto simp: route_def intro: disabled)
qed

section \<open>The invariant of the aggregator\<close>

definition candidate_ok :: "candidate \<Rightarrow> bool" where
  "candidate_ok c \<longleftrightarrow> rate_ok (ci_tx_bps c) \<and> rate_ok (ci_rx_bps c)"

definition agg_ok :: "aggregator \<Rightarrow> bool" where
  "agg_ok ag \<longleftrightarrow> stats_ok (ag_stats ag) \<and> (\<forall>c \<in> set (ag_candidates ag). candidate_ok c)
     \<and> hm_ok (ag_flow_table ag)"

lemma load_finite:
  assumes "candidate_ok c"
  shows "\<exists>x. load c = Fin x \<and> 0 \<le> x"
proof -
  obtain x y where xy: "ci_tx_bps c = Fin x" "ci_rx_bps c = Fin y" "0 \<le> x" "0 \<le> y" "x \<le> 2 ^ 74" "y \<le> 2 ^ 74"
    using assms by (auto simp: candidate_ok_def rate_ok_def split: f64.splits)
  then have "x + y \<le> 2 ^ 75" by simp
  with xy show ?thesis using round64_bounded [of "x + y" 75] by (auto simp: load_def)
qed

lemma sample_rates [simp]:
  "stats_ok st \<Longrightarrow> hm_get (st_samples st) n = Some s \<Longrightarrow> rate_ok (smp_tx_bytes_per_sec s)"
  "stats_ok st \<Longrightarrow> hm_get (st_samples st) n = Some s \<Longrightarrow> rate_ok (smp_rx_bytes_per_sec s)"
  by (auto simp: stats_ok_def sample_ok_def)

lemma candidate_of_ok: "stats_ok st \<Longrightarrow> candidate_ok (candidate_of cfg (st_samples st) i)"
  by (auto simp: candidate_ok_def candidate_of_def Let_def split: option.splits)

lemma refresh_candidates_ok: "agg_ok ag \<Longrightarrow> agg_ok (refresh_candidates fs ag)"
  by (auto simp: agg_ok_def refresh_candidates_def Let_def candidate_of_ok)

lemma agg_tick_eq:
  "agg_tick fs now fs' ag = refresh_candidates fs' (ag\<lparr>ag_stats := refresh fs now (ag_stats ag)\<rparr>)"
  by (simp add: agg_tick_def refresh_candidates_def Let_def)

lemma agg_tick_ok: "agg_ok ag \<Longrightarrow> agg_ok (agg_tick fs now fs' ag)"
  unfolding agg_tick_eq by (rule refresh_candidates_ok) (simp add: agg_ok_def refresh_ok)

lemma inject_ok: "agg_ok ag \<Longrightarrow> agg_ok (inject_sim_candidates es ag)"
  by (auto simp: agg_ok_def inject_sim_candidates_def candidate_ok_def Let_def)

lemma route_frame:
  assumes "route pkt ag = Some (d, ag')"
  shows "ag_config ag' = ag_config ag" "ag_candidates ag' = ag_candidates ag" "ag_stats ag' = ag_stats ag"
    "ag_mode ag' = ag_mode ag"
proof -
  have "agg_select key ag = (d, ag') \<Longrightarrow> ag_config ag' = ag_config ag \<and> ag_candidates ag' = ag_candidates ag
      \<and> ag_stats ag' = ag_stats ag \<and> ag_mode ag' = ag_mode ag" for key d ag'
    by (auto simp: agg_select_def split: prod.splits option.splits)
  then have "ag_config ag' = ag_config ag \<and> ag_candidates ag' = ag_candidates ag
      \<and> ag_stats ag' = ag_stats ag \<and> ag_mode ag' = ag_mode ag"
    using assms by (cases rule: route_cases [of ag pkt]) auto
  then show "ag_config ag' = ag_config ag" "ag_candidates ag' = ag_candidates ag" "ag_stats ag' = ag_stats ag"
    "ag_mode ag' = ag_mode ag" by simp_all
qed

lemma route_ok: "agg_ok ag \<Longrightarrow> route pkt ag = Some (d, ag') \<Longrightarrow> agg_ok ag'"
proof (cases rule: route_cases [of ag pkt])
  case (undecided f ag'')
  assume ag: "agg_ok ag" "route pkt ag = Some (d, ag')"
  obtain rr where "ag'' = ag\<lparr>ag_rr_counter := rr\<rparr>" using agg_select_none(1) [OF undecided(3)] ..
  with ag undecided show ?thesis by (auto simp: agg_ok_def)
next
  case (decided f n ag'')
  assume ag: "agg_ok ag" "route pkt ag = Some (d, ag')"
  obtain rr where "ag'' = ag\<lparr>ag_rr_counter := rr, ag_flow_table := hm_insert (flow_key f) n (ag_flow_table ag)\<rparr>"
    using agg_select_some(2) [OF decided(3)] ..
  with ag decided show ?thesis by (auto simp: agg_ok_def hm.ok_insert)
qed auto

inductive agg_step :: "aggregator \<Rightarrow> aggregator \<Rightarrow> bool" where
  step_route: "route pkt ag = Some (d, ag') \<Longrightarrow> agg_step ag ag'"
| step_tick: "agg_step ag (agg_tick fs now fs' ag)"
| step_refresh: "agg_step ag (refresh_candidates fs ag)"
| step_inject: "agg_step ag (inject_sim_candidates es ag)"
| step_mode: "agg_step ag (set_mode m ag)"
| step_config: "agg_step ag (ag\<lparr>ag_config := cfg\<rparr>)"

inductive_cases agg_stepE: "agg_step ag ag'"

definition agg_init :: "aggregator \<Rightarrow> bool" where
  "agg_init ag \<longleftrightarrow> (\<exists>cfg m now. aggregator_new cfg m now = Inr ag)"

lemma aggregator_new_Inr:
  "aggregator_new cfg m now = Inr ag \<longleftrightarrow> validate cfg = Inr () \<and>
     ag = \<lparr>ag_config = cfg, ag_mode = m, ag_stats = default_stats now, ag_candidates = [],
       ag_rr_counter = 0, ag_flow_table = []\<rparr>"
  by (cases "validate cfg") (auto simp: aggregator_new_def)

lemma agg_new_ok: "agg_init ag \<Longrightarrow> agg_ok ag"
  by (auto simp: agg_init_def aggregator_new_Inr agg_ok_def)

lemma agg_step_ok: "agg_ok ag \<Longrightarrow> agg_step ag ag' \<Longrightarrow> agg_ok ag'"
  by (erule agg_stepE)
    (auto simp: route_ok agg_tick_ok refresh_candidates_ok inject_ok set_mode_def, simp_all add: agg_ok_def)

interpretation agg_sys: invariant_system agg_init agg_step agg_ok
  by unfold_locales (fact agg_new_ok, fact agg_step_ok)

lemma select_decides:
  assumes "\<forall>c \<in> set cs. candidate_ok c" "usable cs \<noteq> []"
  shows "fst (select_interface cfg cs k rr) \<noteq> None"
proof -
  obtain c where c: "c \<in> set (usable cs)" using assms(2) by (cases "usable cs") auto
  then have "candidate_ok c" using assms(1) by (auto simp: usable_iff)
  then have "load c \<noteq> NaN \<and> load c \<noteq> PosInf" using load_finite by force
  with c have "fst (least_loaded (usable cs) (None, PosInf)) \<noteq> None" by (auto simp: least_loaded_none)
  moreover have "sort_key f (usable cs) \<noteq> []" for f :: "candidate \<Rightarrow> int"
    using assms(2) by (metis length_0_conv length_sort)
  ultimately show ?thesis using assms(2)
    by (auto simp: select_interface_def Let_def split: strategy.splits balance_algorithm.splits list.splits)
qed

section \<open>The generated packets\<close>

definition syn_rnd :: "pcap_generator \<Rightarrow> u32" where
  "syn_rnd g = pg_seeds g ! (unat (pg_tick g + 1) mod 8) * 1664525 + 1013904223"

definition syn_head :: "u32 \<Rightarrow> bytes" where
  "syn_head rnd = [0x45, 0, 0, 0, 0, 0, 0, 0, 0, 6, 0, 0, ucast (drop_bit 16 rnd), ucast (drop_bit 8 rnd), 1,
     ucast (drop_bit 24 rnd), 8, 8, 4 + ucast (rnd mod 4), 8] @ to_be16 (ucast (rnd mod 60000) + 1024) @ to_be16 443"

lemma syn_head_split: "replicate (max 40 len) (0 :: u8) = replicate 24 0 @ replicate (max 40 len - 24) 0"
  by (simp flip: replicate_add)

lemma length_syn_head: "length (syn_head rnd) = 24"
  by (simp add: syn_head_def)

lemma next_packet_eq:
  assumes "length (pg_seeds g) = 8"
  shows "next_packet len g = Some (syn_head (syn_rnd g) @ replicate (max 40 len - 24) 0,
    g\<lparr>pg_tick := pg_tick g + 1, pg_seeds := (pg_seeds g)[unat (pg_tick g + 1) mod 8 := syn_rnd g]\<rparr>)"
proof -
  obtain a b where ab: "to_be16 (ucast (syn_rnd g mod 60000) + 1024) = [a, b]"
    using to_be16_cases by blast
  obtain c d where cd: "to_be16 443 = [c, d]" using to_be16_cases by blast
  show ?thesis
    unfolding next_packet_def Let_def syn_head_split
    by (simp add: assms rust_ok blit_def syn_head_def syn_rnd_def [symmetric] ab cd)
      (simp add: numeral_eq_Suc blit_def)
qed

lemma syn_flow:
  assumes "length (pg_seeds g) = 8" "next_packet len g = Some (pkt, g')"
  shows "v4_ok pkt" "ihl_of pkt = 20" "length pkt = max 40 len" "length (pg_seeds g') = 8"
    "v4_ports pkt = (ucast (syn_rnd g mod 60000) + 1024, 443)" "pkt ! 9 = 6"
    "quad 16 pkt = [8, 8, 4 + ucast (syn_rnd g mod 4), 8]"
proof -
  obtain a b where ab: "to_be16 (ucast (syn_rnd g mod 60000) + 1024) = [a, b]"
    "be16 a b = ucast (syn_rnd g mod 60000) + 1024"
    using to_be16_cases by blast
  obtain c d where cd: "to_be16 443 = [c, d]" "be16 c d = 443" using to_be16_cases by blast
  have p: "pkt = syn_head (syn_rnd g) @ replicate (max 40 len - 24) 0" and g': "length (pg_seeds g') = 8"
    using assms by (auto simp: next_packet_eq)
  have n: "pkt ! i = syn_head (syn_rnd g) ! i" if "i < 24" for i
    using that by (simp add: p nth_append length_syn_head)
  show len: "length pkt = max 40 len" by (simp add: p length_syn_head)
  show "ihl_of pkt = 20" "v4_ok pkt"
    by (simp_all add: ihl_of_def v4_ok_def n len) (simp_all add: syn_head_def)
  then show "v4_ports pkt = (ucast (syn_rnd g mod 60000) + 1024, 443)"
    by (simp add: v4_ports_def n len Let_def) (simp add: syn_head_def ab cd)
  show "pkt ! 9 = 6" "quad 16 pkt = [8, 8, 4 + ucast (syn_rnd g mod 4), 8]"
    by (simp_all add: quad_def n) (simp_all add: syn_head_def)
  show "length (pg_seeds g') = 8" by (fact g')
qed

section \<open>Properties\<close>

definition live_fs :: sysfs where
  "live_fs = \<lparr>net_dir = Inr [Entry (Some ''wlan0''), Entry (Some ''eth0''), Entry (Some ''lo''), Entry (Some ''netmux0'')],
     attr = (\<lambda>n f. if f = ''flags'' then Some ''0x1003'' else if f = ''carrier'' then Some ''1'' else None)\<rparr>"


definition sim_agg :: aggregator where
  "sim_agg = \<lparr>ag_config = default_config\<lparr>cfg_strategy := Failover\<rparr>, ag_mode = Simulation,
     ag_stats = default_stats 0, ag_candidates = two_links, ag_rr_counter = 0, ag_flow_table = []\<rparr>"

lemma sim_agg_pick: "fst (select_interface (ag_config sim_agg) two_links k rr) = Some ''eth0''"
  by (simp add: select_interface_def sim_agg_def) (simp add: two_links_def mk_candidate_def)

lemma sim_agg_routes:
  "\<exists>ag'. route tcp_sample sim_agg = Some (Some \<lparr>fd_flow = v4_flow tcp_sample, fd_interface = Some ''eth0''\<rparr>, ag')"
proof (cases rule: route_cases [of sim_agg tcp_sample])
  case (decided f n ag')
  then show ?thesis
    using sim_agg_pick agg_select_some(3) [OF decided(3)]
    by (simp add: parse_v4_packet tcp_sample_ok) (simp add: sim_agg_def)
next
  case (undecided f ag')
  then show ?thesis using sim_agg_pick agg_select_none(2) [OF undecided(3)] by (simp add: sim_agg_def)
next
  case disabled
  then show ?thesis by (simp add: sim_agg_def default_config_def)
qed (simp add: parse_v4_packet tcp_sample_ok)



definition fresh_agg :: aggregator where
  "fresh_agg = \<lparr>ag_config = default_config, ag_mode = Simulation, ag_stats = default_stats 0,
     ag_candidates = [], ag_rr_counter = 0, ag_flow_table = []\<rparr>"

lemma fresh_agg_init: "agg_init fresh_agg"
  by (auto simp: agg_init_def aggregator_new_Inr fresh_agg_def validate_def default_config_def)


lemma refresh_candidates_of:
  "net_dir fs = Inr es \<Longrightarrow> ag_candidates (refresh_candidates fs ag) =
     map (candidate_of (ag_config ag) (st_samples (ag_stats ag)))
       (filter (\<lambda>i. if_kind i \<noteq> Loopback \<and> if_kind i \<noteq> Virtual)
         (sort_key if_name (map (read_interface fs) (entry_names es))))"
  by (simp add: refresh_candidates_def enumerate_interfaces_def Let_def)

lemma candidate_of_simps [simp]:
  "ci_name (candidate_of cfg st i) = if_name i"
  "ci_healthy (candidate_of cfg st i) = (if_carrier i \<and> if_is_up i)"
  "ci_kind (candidate_of cfg st i) = if_kind i"
  "pol_priority (ci_policy (candidate_of cfg st i)) = base_prior (if_kind i)"
  by (simp_all add: candidate_of_def with_priority_def Let_def word_le_nat_alt)



text \<open>The configured priority has no effect.  Every refresh overwrites it with the base priority of
  the interface kind: changing the priorities of a configuration leaves the candidates as they are,
  although the documentation calls the base priority overridable through \<open>config.interfaces\<close>.\<close>

theorem configured_priority_ignored:
  "ag_candidates (refresh_candidates fs (ag\<lparr>ag_config := (ag_config ag)\<lparr>cfg_interfaces :=
       map (\<lambda>(n, p). (n, with_priority p (prio n))) (cfg_interfaces (ag_config ag))\<rparr>\<rparr>))
   = ag_candidates (refresh_candidates fs ag)
   \<and> (\<forall>c \<in> set (ag_candidates (refresh_candidates fs ag)). pol_priority (ci_policy c) = base_prior (ci_kind c))"
proof -
  have get: "hm_get (map (\<lambda>(n, p). (n, with_priority p (prio n))) m) k
      = map_option (\<lambda>p. with_priority p (prio k)) (hm_get m k)" for m k
    by (induction m) auto
  have "candidate_of (cfg\<lparr>cfg_interfaces := map (\<lambda>(n, p). (n, with_priority p (prio n))) (cfg_interfaces cfg)\<rparr>) st i
      = candidate_of cfg st i" for cfg :: aggregator_config and st i
    by (cases "hm_get (cfg_interfaces cfg) (if_name i)") (simp_all add: candidate_of_def get, simp_all add: with_priority_def)
  then show ?thesis by (auto simp: refresh_candidates_def Let_def)
qed

text \<open>A tick is a statistics refresh followed by a candidate refresh; the loop between them that
  copies the new rates into the old candidates has no effect.  Afterwards every candidate carries the
  rates just sampled.\<close>

theorem tick_refreshes:
  "agg_tick fs now fs' ag = refresh_candidates fs' (ag\<lparr>ag_stats := refresh fs now (ag_stats ag)\<rparr>)
   \<and> (\<forall>c \<in> set (ag_candidates (agg_tick fs now fs' ag)).
        case hm_get (st_samples (refresh fs now (ag_stats ag))) (ci_name c) of
          None \<Rightarrow> ci_tx_bps c = Fin 0 \<and> ci_rx_bps c = Fin 0
        | Some s \<Rightarrow> ci_tx_bps c = smp_tx_bytes_per_sec s \<and> ci_rx_bps c = smp_rx_bytes_per_sec s)"
  by (auto simp: agg_tick_eq refresh_candidates_def Let_def candidate_of_def split: option.splits)

text \<open>C31: Flow pinning under hash balancing: routing the same flow again, after any number of other
  packets have moved the counter and filled the flow table, gives the same interface as long as the
  candidates are the same up to enumeration order.\<close>

theorem hash_routing_sticky:
  assumes "cfg_strategy (ag_config ag) = LoadBalance" and "cfg_algorithm (ag_config ag) = Hash"
    and "ag_config ag2 = ag_config ag" and "mset (ag_candidates ag2) = mset (ag_candidates ag)"
    and "inj_on ci_name (set (ag_candidates ag))"
    and "parse p = Some (Some f)" and "parse q = Some (Some g)" and "flow_key f = flow_key g"
    and "route p ag = Some (d, ag')" and "route q ag2 = Some (e, ag2')"
  shows "map_option fd_interface d = map_option fd_interface e"
proof -
  have pin: "fst (select_interface (ag_config ag2) (ag_candidates ag2) k rr')
      = fst (select_interface (ag_config ag) (ag_candidates ag) k rr)" for k rr rr'
    using hash_pinned [OF assms(1,2,4,5), of k rr' rr] assms(3) by simp
  have pick: "map_option fd_interface d = map_option Some (if cfg_enabled (ag_config a) then
      fst (select_interface (ag_config a) (ag_candidates a) (flow_key f) (ag_rr_counter a)) else None)"
    if "route p a = Some (d, a')" "parse p = Some (Some f)" for p a d a' f
    using that by (auto simp: route_def agg_select_def split: prod.splits option.splits if_splits)
  show ?thesis
    unfolding pick [OF assms(9,6)] pick [OF assms(10,7)] assms(8) assms(3) [symmetric]
    using pin [of "flow_key g" "ag_rr_counter ag2" "ag_rr_counter ag"] assms(3) by simp
qed

lemma hash_routing_sticky_witness:
  "\<exists>d ag1 e ag2. route tcp_sample (sim_agg\<lparr>ag_config := default_config\<rparr>) = Some (d, ag1)
    \<and> route tcp_sample ag1 = Some (e, ag2) \<and> map_option fd_interface d = map_option fd_interface e"
proof -
  let ?ag = "sim_agg\<lparr>ag_config := default_config\<rparr>"
  obtain d ag1 where r1: "route tcp_sample ?ag = Some (d, ag1)" by (cases rule: route_cases [of ?ag tcp_sample])
  obtain e ag2 where r2: "route tcp_sample ag1 = Some (e, ag2)" by (cases rule: route_cases [of ag1 tcp_sample])
  have "map_option fd_interface d = map_option fd_interface e"
    by (rule hash_routing_sticky [OF _ _ _ _ _ _ _ refl r1 r2])
      (simp_all add: route_frame [OF r1] parse_v4_packet [OF tcp_sample_ok(1,2)],
        simp_all add: sim_agg_def default_config_def)
  with r1 r2 show ?thesis by blast
qed

text \<open>The simulator's packets are real to the router: whatever the generator's state, the packet
  for a requested length has that length (at least 40), and parses as a TCP flow to port 443 of a
  host 8.8.4.8 to 8.8.7.8 from an unprivileged port; the port arithmetic does not overflow.\<close>

theorem generated_packet_parses:
  assumes "length (pg_seeds g) = 8"
  shows "\<exists>pkt g'. next_packet len g = Some (pkt, g') \<and> length pkt = max 40 len \<and> length (pg_seeds g') = 8
    \<and> parse pkt = Some (Some (v4_flow pkt)) \<and> fl_proto (v4_flow pkt) = 6 \<and> fl_dport (v4_flow pkt) = 443
    \<and> 1024 \<le> unat (fl_sport (v4_flow pkt)) \<and> unat (fl_sport (v4_flow pkt)) < 61024
    \<and> (\<exists>x. 4 \<le> unat x \<and> unat x < 8 \<and> fl_dst (v4_flow pkt) = show_quad 8 8 x 8)"
proof -
  obtain pkt g' where np: "next_packet len g = Some (pkt, g')" using assms by (simp add: next_packet_eq)
  note sf = syn_flow [OF assms np]
  let ?r = "syn_rnd g"
  have m: "unat (?r mod 60000) = unat ?r mod 60000" by (simp add: unat_mod)
  then have "unat (ucast (?r mod 60000) :: u16) = unat ?r mod 60000"
    by (simp add: unsigned_ucast_eq take_bit_eq_mod)
  then have sport: "unat (ucast (?r mod 60000) + 1024 :: u16) = unat ?r mod 60000 + 1024"
    by (simp add: unat_word_ariths)
  have "unat (?r mod 4) = unat ?r mod 4" by (simp add: unat_mod)
  then have "unat (ucast (?r mod 4) :: u8) = unat ?r mod 4" by (simp add: unsigned_ucast_eq take_bit_eq_mod)
  then have x: "unat (4 + ucast (?r mod 4) :: u8) = 4 + unat ?r mod 4"
    by (simp add: unat_word_ariths)
  have "fl_dst (v4_flow pkt) = show_quad 8 8 (4 + ucast (?r mod 4)) 8"
    using sf(7) by (simp add: v4_flow_def quad_def)
  moreover have "4 \<le> unat (4 + ucast (?r mod 4) :: u8)" "unat (4 + ucast (?r mod 4) :: u8) < 8"
    by (simp_all only: x)
  moreover have "parse pkt = Some (Some (v4_flow pkt))" using sf by (intro parse_v4_packet) simp_all
  moreover have "unat (fl_sport (v4_flow pkt)) = unat ?r mod 60000 + 1024"
    using sf(5) by (simp add: v4_flow_def sport)
  moreover have "fl_proto (v4_flow pkt) = 6" "fl_dport (v4_flow pkt) = 443"
    using sf(5,6) by (simp_all add: v4_flow_def)
  ultimately show ?thesis using np sf(3,4) by (intro exI [of _ pkt] exI [of _ g']) auto
qed

lemma generated_packet_parses_witness:
  "\<exists>pkt g'. next_packet 96 default_generator = Some (pkt, g') \<and> length pkt = 96
     \<and> parse pkt = Some (Some (v4_flow pkt)) \<and> fl_dport (v4_flow pkt) = 443"
proof -
  have "length (pg_seeds default_generator) = 8" by (simp add: default_generator_def)
  from generated_packet_parses [OF this, of 96] show ?thesis by auto
qed

end
