(* ===== verification/Nat_Table.thy ===== *)
theory Nat_Table
  imports Packet
begin

text \<open>
  \<open>nat.rs\<close>: the session table of the userspace NAT.  The two hash maps are entry lists in their
  iteration order (\<open>lookup_return\<close> searches the values in that order); \<open>nat_step\<close> lets a map be
  reordered between operations, so the invariant and the round trip hold for every order the
  standard library may choose.  The table refines a single map from flows to sessions (\<open>spec_register\<close>,
  \<open>spec_lookup\<close>).
\<close>

record session =
  ses_client_ip :: ipv4
  ses_client_port :: u16
  ses_server_ip :: ipv4
  ses_server_port :: u16
  ses_proto :: u8
  ses_egress_iface :: string
  ses_egress_ip :: ipv4
  ses_tx_packets :: u64
  ses_rx_packets :: u64

type_synonym out_key = "u8 \<times> ipv4 \<times> u16 \<times> ipv4 \<times> u16"
type_synonym ret_key = "u8 \<times> ipv4 \<times> u16 \<times> ipv4 \<times> u16"

record nat_table =
  nt_by_outbound :: "(out_key, session) hmap"
  nt_by_return :: "(ret_key, u64) hmap"
  nt_index :: u64

definition nat_new :: nat_table where
  "nat_new = \<lparr>nt_by_outbound = [], nt_by_return = [], nt_index = 0\<rparr>"

definition sessions :: "nat_table \<Rightarrow> nat" where
  "sessions self = length (nt_by_outbound self)"

definition parse_ip :: "string \<Rightarrow> ipv4 option" where
  "parse_ip s = ipv4_from_str s"

definition register :: "flow \<Rightarrow> string \<Rightarrow> ipv4 \<Rightarrow> nat_table \<Rightarrow> session option \<times> nat_table" where
  "register f egress_iface egress_ip self =
     (case parse_ip (fl_src f) of
        None \<Rightarrow> (None, self)
      | Some client_ip \<Rightarrow>
          (case parse_ip (fl_dst f) of
             None \<Rightarrow> (None, self)
           | Some server_ip \<Rightarrow>
               (let key = (fl_proto f, client_ip, fl_sport f, server_ip, fl_dport f)
                in case hm_get (nt_by_outbound self) key of
                     Some s \<Rightarrow> (Some s, self)
                   | None \<Rightarrow>
                       (let ret_key = (fl_proto f, server_ip, fl_dport f, egress_ip, fl_sport f);
                            s = \<lparr>ses_client_ip = client_ip, ses_client_port = fl_sport f,
                                 ses_server_ip = server_ip, ses_server_port = fl_dport f,
                                 ses_proto = fl_proto f, ses_egress_iface = egress_iface,
                                 ses_egress_ip = egress_ip, ses_tx_packets = 0, ses_rx_packets = 0\<rparr>
                        in (Some s, \<lparr>nt_by_outbound = hm_insert key s (nt_by_outbound self),
                              nt_by_return = hm_insert ret_key (nt_index self) (nt_by_return self),
                              nt_index = nt_index self + 1\<rparr>)))))"

definition lookup_return :: "u8 \<Rightarrow> ipv4 \<Rightarrow> u16 \<Rightarrow> ipv4 \<Rightarrow> u16 \<Rightarrow> nat_table \<Rightarrow> session option" where
  "lookup_return proto src_ip sport dst_ip dport self =
     (case hm_get (nt_by_return self) (proto, src_ip, sport, dst_ip, dport) of
        None \<Rightarrow> None
      | Some i \<Rightarrow>
          find (\<lambda>s. ses_proto s = proto \<and> ses_server_ip s = src_ip \<and> ses_server_port s = sport
                  \<and> ses_egress_ip s = dst_ip \<and> ses_client_port s = dport)
            (map snd (nt_by_outbound self)))"

section \<open>The invariant\<close>

definition out_key_of :: "session \<Rightarrow> out_key" where
  "out_key_of s = (ses_proto s, ses_client_ip s, ses_client_port s, ses_server_ip s, ses_server_port s)"

definition ret_key_of :: "session \<Rightarrow> ret_key" where
  "ret_key_of s = (ses_proto s, ses_server_ip s, ses_server_port s, ses_egress_ip s, ses_client_port s)"

definition live :: "nat_table \<Rightarrow> session set" where
  "live t = {s. hm_get (nt_by_outbound t) (out_key_of s) = Some s}"

definition nat_ok :: "nat_table \<Rightarrow> bool" where
  "nat_ok t \<longleftrightarrow> hm_ok (nt_by_outbound t) \<and> hm_ok (nt_by_return t)
     \<and> (\<forall>k s. hm_get (nt_by_outbound t) k = Some s \<longrightarrow> k = out_key_of s)
     \<and> (\<forall>k. hm_get (nt_by_return t) k \<noteq> None \<longleftrightarrow> (\<exists>s \<in> live t. ret_key_of s = k))
     \<and> nt_index t = of_nat (sessions t)"

lemma nat_okD:
  assumes "nat_ok t"
  shows "hm_ok (nt_by_outbound t)" "hm_ok (nt_by_return t)"
    and "hm_get (nt_by_outbound t) k = Some s \<Longrightarrow> k = out_key_of s"
    and "hm_get (nt_by_return t) r \<noteq> None \<longleftrightarrow> (\<exists>s \<in> live t. ret_key_of s = r)"
    and "nt_index t = of_nat (sessions t)"
  using assms unfolding nat_ok_def by blast+

lemma live_iff: "nat_ok t \<Longrightarrow> s \<in> live t \<longleftrightarrow> (\<exists>k. hm_get (nt_by_outbound t) k = Some s)"
  using nat_okD(3) unfolding live_def by blast

lemma live_values:
  assumes "nat_ok t"
  shows "set (map snd (nt_by_outbound t)) = live t"
proof -
  have "s \<in> set (map snd (nt_by_outbound t)) \<longleftrightarrow> s \<in> live t" for s
    using hm.values_entries [OF nat_okD(1) [OF assms]] live_iff [OF assms] by simp
  then show ?thesis by blast
qed

lemma live_inj: "s \<in> live t \<Longrightarrow> s' \<in> live t \<Longrightarrow> out_key_of s = out_key_of s' \<Longrightarrow> s = s'"
  by (simp add: live_def)

lemma lookup_return_find:
  "lookup_return p a sp b dp t = (if hm_get (nt_by_return t) (p, a, sp, b, dp) = None then None
     else find (\<lambda>s. ret_key_of s = (p, a, sp, b, dp)) (map snd (nt_by_outbound t)))"
  by (simp add: lookup_return_def ret_key_of_def split: option.splits)

lemma lookup_return_Some:
  assumes "nat_ok t" "lookup_return p a sp b dp t = Some s"
  shows "s \<in> live t \<and> ret_key_of s = (p, a, sp, b, dp)"
proof -
  have "find (\<lambda>s. ret_key_of s = (p, a, sp, b, dp)) (map snd (nt_by_outbound t)) = Some s"
    using assms(2) by (simp add: lookup_return_find split: if_splits)
  then have "s \<in> set (map snd (nt_by_outbound t)) \<and> ret_key_of s = (p, a, sp, b, dp)"
    by (metis (mono_tags, lifting) find_Some_iff nth_mem)
  then show ?thesis by (simp only: live_values [OF assms(1)])
qed

lemma lookup_return_None:
  assumes "nat_ok t"
  shows "lookup_return p a sp b dp t = None \<longleftrightarrow> (\<forall>s \<in> live t. ret_key_of s \<noteq> (p, a, sp, b, dp))"
proof -
  let ?k = "(p, a, sp, b, dp)"
  have "find (\<lambda>s. ret_key_of s = ?k) (map snd (nt_by_outbound t)) = None \<longleftrightarrow> (\<forall>s \<in> live t. ret_key_of s \<noteq> ?k)"
    unfolding find_None_iff live_values [OF assms] by blast
  then show ?thesis using nat_okD(4) [OF assms, of ?k] by (simp only: lookup_return_find split: if_split) blast
qed

section \<open>Registration\<close>

definition new_session :: "flow \<Rightarrow> ipv4 \<Rightarrow> ipv4 \<Rightarrow> string \<Rightarrow> ipv4 \<Rightarrow> session" where
  "new_session f client server iface egress =
     \<lparr>ses_client_ip = client, ses_client_port = fl_sport f, ses_server_ip = server,
      ses_server_port = fl_dport f, ses_proto = fl_proto f, ses_egress_iface = iface,
      ses_egress_ip = egress, ses_tx_packets = 0, ses_rx_packets = 0\<rparr>"

definition add_session :: "session \<Rightarrow> nat_table \<Rightarrow> nat_table" where
  "add_session s t =
     \<lparr>nt_by_outbound = hm_insert (out_key_of s) s (nt_by_outbound t),
      nt_by_return = hm_insert (ret_key_of s) (nt_index t) (nt_by_return t), nt_index = nt_index t + 1\<rparr>"

lemma register_cases:
  fixes t :: nat_table
  obtains (bad) "parse_ip (fl_src f) = None \<or> parse_ip (fl_dst f) = None" "register f i e t = (None, t)"
  | (reuse) c sv s where "parse_ip (fl_src f) = Some c" "parse_ip (fl_dst f) = Some sv"
      "hm_get (nt_by_outbound t) (fl_proto f, c, fl_sport f, sv, fl_dport f) = Some s" "register f i e t = (Some s, t)"
  | (new) c sv where "parse_ip (fl_src f) = Some c" "parse_ip (fl_dst f) = Some sv"
      "hm_get (nt_by_outbound t) (out_key_of (new_session f c sv i e)) = None"
      "register f i e t = (Some (new_session f c sv i e), add_session (new_session f c sv i e) t)"
proof (cases "parse_ip (fl_src f)")
  case None
  then show thesis by (intro bad) (simp_all add: register_def)
next
  case (Some c)
  show thesis
  proof (cases "parse_ip (fl_dst f)")
    case None
    with Some show thesis by (intro bad) (simp_all add: register_def)
  next
    case sv: (Some sv)
    show thesis
    proof (cases "hm_get (nt_by_outbound t) (fl_proto f, c, fl_sport f, sv, fl_dport f)")
      case None
      with Some sv show thesis
        by (intro new [of c sv])
          (simp_all add: register_def Let_def new_session_def add_session_def out_key_of_def ret_key_of_def)
    next
      case (Some s)
      with \<open>parse_ip (fl_src f) = Some c\<close> sv show thesis
        by (intro reuse [of c sv s]) (simp_all add: register_def Let_def)
    qed
  qed
qed

lemma live_add: "nat_ok t \<Longrightarrow> hm_get (nt_by_outbound t) (out_key_of s) = None \<Longrightarrow> live (add_session s t) = insert s (live t)"
  by (auto simp: live_def add_session_def hm.get_insert)

lemma add_session_ok:
  assumes "nat_ok t" "hm_get (nt_by_outbound t) (out_key_of s) = None"
  shows "nat_ok (add_session s t)"
proof -
  note ok = nat_okD [OF assms(1)]
  have "sessions (add_session s t) = Suc (sessions t)"
    using assms(2) hm.count_insert [OF ok(1), of "out_key_of s" s]
    by (simp add: sessions_def add_session_def)
  then have "nt_index (add_session s t) = of_nat (sessions (add_session s t))"
    using ok(5) by (simp add: add_session_def)
  moreover have "hm_get (nt_by_return (add_session s t)) k \<noteq> None \<longleftrightarrow> (\<exists>s' \<in> live (add_session s t). ret_key_of s' = k)" for k
    using ok(4) [of k] unfolding live_add [OF assms] by (auto simp: add_session_def hm.get_insert)
  moreover have "hm_get (nt_by_outbound (add_session s t)) k = Some s' \<Longrightarrow> k = out_key_of s'" for k s'
    using ok(3) [of k s'] by (simp add: add_session_def hm.get_insert split: if_splits)
  moreover have "hm_ok (nt_by_outbound (add_session s t)) \<and> hm_ok (nt_by_return (add_session s t))"
    using ok(1,2) by (simp add: add_session_def hm.ok_insert)
  ultimately show ?thesis unfolding nat_ok_def by blast
qed

lemma register_ok: "nat_ok t \<Longrightarrow> register f i e t = (r, t') \<Longrightarrow> nat_ok t'"
  by (cases rule: register_cases [of f i e t]) (auto simp: add_session_ok)

lemma nat_new_ok [simp]: "nat_ok nat_new"
  by (simp add: nat_ok_def nat_new_def sessions_def live_def)

section \<open>Histories\<close>

definition rehashed :: "nat_table \<Rightarrow> nat_table \<Rightarrow> bool" where
  "rehashed t t' \<longleftrightarrow> mset (nt_by_outbound t') = mset (nt_by_outbound t)
     \<and> mset (nt_by_return t') = mset (nt_by_return t) \<and> nt_index t' = nt_index t"

inductive nat_step :: "nat_table \<Rightarrow> nat_table \<Rightarrow> bool" where
  nat_register: "register f i e t = (r, t') \<Longrightarrow> nat_step t t'"
| nat_rehash: "rehashed t t' \<Longrightarrow> nat_step t t'"

inductive_cases nat_stepE: "nat_step t t'"

lemma rehash_live:
  assumes "nat_ok t" "mset (nt_by_outbound t') = mset (nt_by_outbound t)"
  shows "live t' = live t"
  using hm_get_perm(2) [OF _ assms(2)] assms(1) by (simp add: live_def nat_ok_def)

lemma nat_step_ok: "nat_ok t \<Longrightarrow> nat_step t t' \<Longrightarrow> nat_ok t'"
proof (erule nat_stepE)
  assume a0: "nat_ok t" "rehashed t t'"
  then have a: "nat_ok t" "mset (nt_by_outbound t') = mset (nt_by_outbound t)"
    "mset (nt_by_return t') = mset (nt_by_return t)" "nt_index t' = nt_index t"
    by (simp_all add: rehashed_def)
  note ok = nat_okD(1,2) [OF a(1)]
  have "sessions t' = sessions t" using a(2) by (metis sessions_def size_mset)
  note eqs = this rehash_live [OF a(1,2)] hm_get_perm(2) [OF ok(1) a(2)] hm_get_perm(2) [OF ok(2) a(3)] a(4)
  show ?thesis
    using a(1) hm_get_perm(1) [OF ok(1) a(2)] hm_get_perm(1) [OF ok(2) a(3)]
    unfolding nat_ok_def eqs by blast
qed (rule register_ok)

lemma nat_step_live: "nat_ok t \<Longrightarrow> nat_step t t' \<Longrightarrow> live t \<subseteq> live t'"
proof (erule nat_stepE)
  fix f i e r
  assume "nat_ok t" "register f i e t = (r, t')"
  then show ?thesis
  proof (cases rule: register_cases [of f i e t])
    case (new c sv)
    then have "t' = add_session (new_session f c sv i e) t"
      using \<open>register f i e t = (r, t')\<close> by simp
    then show ?thesis using live_add [OF \<open>nat_ok t\<close> new(3)] by blast
  qed simp_all
next
  assume "nat_ok t" "rehashed t t'"
  then show ?thesis using rehash_live unfolding rehashed_def by blast
qed

interpretation nat_sys: invariant_system "\<lambda>t. t = nat_new" nat_step nat_ok
  by unfold_locales (simp, fact nat_step_ok)

lemma nat_steps_live: "nat_step\<^sup>*\<^sup>* t t' \<Longrightarrow> nat_ok t \<Longrightarrow> live t \<subseteq> live t'"
proof (induction rule: rtranclp_induct)
  case (step u v)
  then show ?case using nat_step_live nat_sys.steps_inv by blast
qed simp

lemma same_session: "ret_key_of s = ret_key_of s' \<Longrightarrow> ses_client_ip s = ses_client_ip s' \<Longrightarrow> out_key_of s = out_key_of s'"
  by (simp add: ret_key_of_def out_key_of_def)

lemma register_session:
  assumes "nat_ok t" "register f i e t = (Some s, t')"
  shows "s \<in> live t'" "ipv4_from_str (fl_src f) = Some (ses_client_ip s)" "ipv4_from_str (fl_dst f) = Some (ses_server_ip s)"
    "ses_proto s = fl_proto f" "ses_client_port s = fl_sport f" "ses_server_port s = fl_dport f"
proof -
  have "s \<in> live t' \<and> parse_ip (fl_src f) = Some (ses_client_ip s) \<and> parse_ip (fl_dst f) = Some (ses_server_ip s)
      \<and> ses_proto s = fl_proto f \<and> ses_client_port s = fl_sport f \<and> ses_server_port s = fl_dport f"
  proof (cases rule: register_cases [of f i e t])
    case (reuse c sv s')
    with assms(2) have s: "s' = s" "t' = t" by auto
    from nat_okD(3) [OF assms(1) reuse(3)] have "out_key_of s = (fl_proto f, c, fl_sport f, sv, fl_dport f)"
      by (simp add: s)
    with reuse s show ?thesis by (simp add: live_def out_key_of_def)
  next
    case (new c sv)
    with assms(2) have "s = new_session f c sv i e" "t' = add_session s t" by auto
    with new live_add [OF assms(1), of s] show ?thesis by (simp add: new_session_def)
  qed (use assms(2) in simp)
  then show "s \<in> live t'" "ipv4_from_str (fl_src f) = Some (ses_client_ip s)" "ipv4_from_str (fl_dst f) = Some (ses_server_ip s)"
    "ses_proto s = fl_proto f" "ses_client_port s = fl_sport f" "ses_server_port s = fl_dport f"
    by (simp_all add: parse_ip_def)
qed

section \<open>The table as one map of sessions\<close>

text \<open>The contract: a session per flow, made on first use; a reply is matched against all of them.  The
  return map and the index of the code do not appear in it.\<close>

definition session_map :: "nat_table \<Rightarrow> out_key \<rightharpoonup> session" where
  "session_map t = hm_get (nt_by_outbound t)"

definition spec_register :: "flow \<Rightarrow> string \<Rightarrow> ipv4 \<Rightarrow> (out_key \<rightharpoonup> session) \<Rightarrow> session option \<times> (out_key \<rightharpoonup> session)" where
  "spec_register f i e m =
     (case (ipv4_from_str (fl_src f), ipv4_from_str (fl_dst f)) of
        (Some c, Some sv) \<Rightarrow>
          (let s = new_session f c sv i e
           in case m (out_key_of s) of Some s' \<Rightarrow> (Some s', m) | None \<Rightarrow> (Some s, m(out_key_of s \<mapsto> s)))
      | _ \<Rightarrow> (None, m))"

definition spec_lookup :: "ret_key \<Rightarrow> (out_key \<rightharpoonup> session) \<Rightarrow> session option \<Rightarrow> bool" where
  "spec_lookup k m r \<longleftrightarrow> (case r of None \<Rightarrow> \<forall>s \<in> ran m. ret_key_of s \<noteq> k | Some s \<Rightarrow> s \<in> ran m \<and> ret_key_of s = k)"

inductive spec_step :: "(out_key \<rightharpoonup> session) \<Rightarrow> (out_key \<rightharpoonup> session) \<Rightarrow> bool" where
  spec_registered: "spec_register f i e m = (r, m') \<Longrightarrow> spec_step m m'"

lemma register_refines:
  "register f i e t = (r, t') \<Longrightarrow> spec_register f i e (session_map t) = (r, session_map t')"
proof (cases rule: register_cases [of f i e t])
  case bad
  then show "register f i e t = (r, t') \<Longrightarrow> ?thesis"
    by (auto simp: spec_register_def parse_ip_def split: option.splits)
next
  case (reuse c sv s)
  have "out_key_of (new_session f c sv i e) = (fl_proto f, c, fl_sport f, sv, fl_dport f)"
    by (simp add: new_session_def out_key_of_def)
  with reuse have "spec_register f i e (session_map t) = (Some s, session_map t)"
    by (simp add: spec_register_def parse_ip_def session_map_def Let_def)
  with reuse show "register f i e t = (r, t') \<Longrightarrow> ?thesis" by simp
next
  case (new c sv)
  then show "register f i e t = (r, t') \<Longrightarrow> ?thesis"
    by (auto simp: spec_register_def parse_ip_def session_map_def add_session_def Let_def hm.get_insert)
qed

interpretation nat_ref: refinement "\<lambda>t. t = nat_new" nat_step nat_ok session_map spec_step
proof
  fix t t'
  assume ok: "nat_ok t" and "nat_step t t'"
  from this(2) show "session_map t' = session_map t \<or> spec_step (session_map t) (session_map t')"
  proof cases
    case (nat_register f i e r)
    then show ?thesis using register_refines spec_registered by blast
  next
    case nat_rehash
    then have "mset (nt_by_outbound t') = mset (nt_by_outbound t)" by (simp only: rehashed_def)
    then have "session_map t' = session_map t"
      unfolding session_map_def by (rule hm_get_perm(2) [OF nat_okD(1) [OF ok]])
    then show ?thesis ..
  qed
qed

lemma ran_session_map: "nat_ok t \<Longrightarrow> ran (session_map t) = live t"
  unfolding session_map_def ran_def using live_iff by blast

section \<open>Properties\<close>

text \<open>C11: NAT round trip.  Once a flow is registered, in any table the program can have built, every
  later lookup of a reply from the flow's server to the session's egress address and the client's
  port finds a session with exactly those endpoints, whatever else was registered meanwhile and in
  whatever order the maps iterate; and it is the flow's own session as soon as its client address is
  the flow's.\<close>

theorem nat_roundtrip:
  assumes "nat_step\<^sup>*\<^sup>* nat_new t" and "register f i e t = (Some s, t1)" and "nat_step\<^sup>*\<^sup>* t1 t2"
    and "ipv4_from_str (fl_dst f) = Some server"
  shows "\<exists>s'. lookup_return (fl_proto f) server (fl_dport f) (ses_egress_ip s) (fl_sport f) t2 = Some s'
    \<and> ret_key_of s' = ret_key_of s \<and> (ses_client_ip s' = ses_client_ip s \<longrightarrow> s' = s)"
proof -
  have ok: "nat_ok t" by (rule nat_sys.reachable_inv [OF refl assms(1)])
  note reg = register_session [OF ok assms(2)]
  have ok1: "nat_ok t1" by (rule register_ok [OF ok assms(2)])
  have ok2: "nat_ok t2" by (rule nat_sys.steps_inv [OF assms(3) ok1])
  have s: "s \<in> live t2" using reg(1) nat_steps_live [OF assms(3) ok1] by blast
  have key: "ret_key_of s = (fl_proto f, server, fl_dport f, ses_egress_ip s, fl_sport f)"
    using reg assms(4) by (simp add: ret_key_of_def)
  with s obtain s' where l: "lookup_return (fl_proto f) server (fl_dport f) (ses_egress_ip s) (fl_sport f) t2 = Some s'"
    using lookup_return_None [OF ok2] by (metis not_Some_eq)
  from lookup_return_Some [OF ok2 l] have "s' \<in> live t2" "ret_key_of s' = ret_key_of s" by (simp_all add: key)
  moreover from this have "ses_client_ip s' = ses_client_ip s \<Longrightarrow> s' = s"
    by (intro live_inj [OF _ s] same_session)
  ultimately show ?thesis using l by blast
qed

definition sample_flow :: flow where
  "sample_flow = \<lparr>fl_src = show_ipv4 (Ipv4 10 99 0 1), fl_dst = show_ipv4 (Ipv4 8 8 8 8), fl_proto = 6, fl_sport = 12345, fl_dport = 443\<rparr>"

lemma sample_flow_ips [simp]:
  "ipv4_from_str (fl_src sample_flow) = Some (Ipv4 10 99 0 1)" "ipv4_from_str (fl_dst sample_flow) = Some (Ipv4 8 8 8 8)"
  by (simp_all add: sample_flow_def)

definition sample_session :: session where
  "sample_session = new_session sample_flow (Ipv4 10 99 0 1) (Ipv4 8 8 8 8) ''wlan0'' (Ipv4 192 168 31 49)"

lemma sample_register:
  "register sample_flow ''wlan0'' (Ipv4 192 168 31 49) nat_new = (Some sample_session, add_session sample_session nat_new)"
  by (simp add: register_def parse_ip_def sample_session_def new_session_def add_session_def Let_def
      nat_new_def out_key_of_def ret_key_of_def)

lemma nat_roundtrip_witness:
  "\<exists>s'. lookup_return 6 (Ipv4 8 8 8 8) 443 (Ipv4 192 168 31 49) 12345 (add_session sample_session nat_new) = Some s'
    \<and> ret_key_of s' = ret_key_of sample_session \<and> (ses_client_ip s' = ses_client_ip sample_session \<longrightarrow> s' = sample_session)"
  using nat_roundtrip [OF rtranclp.rtrancl_refl sample_register rtranclp.rtrancl_refl, of "Ipv4 8 8 8 8"]
  by (simp add: sample_flow_ips) (simp add: sample_flow_def sample_session_def new_session_def)

text \<open>What a reply is translated to.  In a reachable table a lookup succeeds exactly when some
  registered session has the reply's protocol, server, server port, egress address and client port,
  and then it returns such a session: no unsolicited packet is let through.\<close>

theorem lookup_only_registered:
  assumes "nat_step\<^sup>*\<^sup>* nat_new t"
  shows "case lookup_return p a sp b dp t of
      None \<Rightarrow> \<forall>s \<in> set (map snd (nt_by_outbound t)). ret_key_of s \<noteq> (p, a, sp, b, dp)
    | Some s \<Rightarrow> s \<in> set (map snd (nt_by_outbound t)) \<and> ret_key_of s = (p, a, sp, b, dp)"
proof -
  have ok: "nat_ok t" by (rule nat_sys.reachable_inv [OF refl assms])
  show ?thesis
    unfolding live_values [OF ok]
    using lookup_return_None [OF ok, of p a sp b dp] lookup_return_Some [OF ok, of p a sp b dp]
    by (simp split: option.split)
qed

lemma sample_reachable: "nat_step\<^sup>*\<^sup>* nat_new (add_session sample_session nat_new)"
  using nat_register [OF sample_register] by (rule r_into_rtranclp)

lemma lookup_only_registered_witness:
  "lookup_return 6 (Ipv4 9 9 9 9) 443 (Ipv4 192 168 31 49) 12345 (add_session sample_session nat_new) = None"
  using lookup_only_registered [OF sample_reachable, of 6 "Ipv4 9 9 9 9" 443 "Ipv4 192 168 31 49" 12345]
  by (auto simp: add_session_def nat_new_def ret_key_of_def sample_session_def new_session_def split: option.splits)

text \<open>Registration succeeds exactly on IPv4 flows, never panics, and its effect is one of two: the
  flow's existing session comes back and the table is unchanged, or one fresh session with zeroed
  counters, the flow's endpoints and the given egress is added under both keys.\<close>

theorem register_effect:
  assumes "nat_step\<^sup>*\<^sup>* nat_new t" and "register f i e t = (r, t')"
  shows "(r = None \<longleftrightarrow> ipv4_from_str (fl_src f) = None \<or> ipv4_from_str (fl_dst f) = None)
    \<and> (r = None \<longrightarrow> t' = t)
    \<and> (\<forall>s. r = Some s \<longrightarrow> (t' = t \<and> s \<in> live t) \<or>
         (s = new_session f (ses_client_ip s) (ses_server_ip s) i e \<and> s \<notin> live t \<and> live t' = insert s (live t)
          \<and> sessions t' = Suc (sessions t)))"
proof -
  have ok: "nat_ok t" by (rule nat_sys.reachable_inv [OF refl assms(1)])
  show ?thesis
  proof (cases rule: register_cases [of f i e t])
    case bad
    then show ?thesis using assms(2) by (auto simp: parse_ip_def)
  next
    case (reuse c sv s)
    then show ?thesis using assms(2) live_iff [OF ok, of s] by (auto simp: parse_ip_def)
  next
    case (new c sv)
    let ?s = "new_session f c sv i e"
    have r: "r = Some ?s" "t' = add_session ?s t" using new(4) assms(2) by simp_all
    have "sessions t' = Suc (sessions t)"
      using hm.count_insert [OF nat_okD(1) [OF ok], of "out_key_of ?s" ?s] new(3)
      by (simp add: r sessions_def add_session_def)
    moreover have "?s \<notin> live t" using new(3) by (simp add: live_def)
    moreover have "?s = new_session f (ses_client_ip ?s) (ses_server_ip ?s) i e" by (simp add: new_session_def)
    ultimately show ?thesis using new(1,2) live_add [OF ok new(3)] by (simp add: r parse_ip_def)
  qed
qed

lemma register_effect_witness:
  "sessions (add_session sample_session nat_new) = Suc (sessions nat_new) \<or> sample_session \<in> live nat_new"
  using register_effect [OF rtranclp.rtrancl_refl sample_register] by blast

text \<open>C39: A session keeps its first egress.  When the scheduler moves a registered flow to another
  interface, registration returns the old session unchanged, and as long as no other session has
  been set up there, replies to the new egress address find no session: the caller, which sends the
  packet with the new address, cannot get an answer through.\<close>

theorem moved_flow_loses_replies:
  assumes "nat_step\<^sup>*\<^sup>* nat_new t" and "register f i1 e1 t = (Some s, t1)"
    and "e2 \<noteq> ses_egress_ip s"
    and "\<forall>s' \<in> live t. ret_key_of s' \<noteq> (fl_proto f, ses_server_ip s, fl_dport f, e2, fl_sport f)"
  shows "register f i2 e2 t1 = (Some s, t1)
    \<and> lookup_return (fl_proto f) (ses_server_ip s) (fl_dport f) e2 (fl_sport f) t1 = None"
proof -
  have ok: "nat_ok t" by (rule nat_sys.reachable_inv [OF refl assms(1)])
  note reg = register_session [OF ok assms(2)]
  have ok1: "nat_ok t1" by (rule register_ok [OF ok assms(2)])
  have "hm_get (nt_by_outbound t1) (fl_proto f, ses_client_ip s, fl_sport f, ses_server_ip s, fl_dport f) = Some s"
    using reg by (simp add: live_def out_key_of_def)
  then have "register f i2 e2 t1 = (Some s, t1)"
    using reg by (simp add: register_def parse_ip_def)
  moreover have "live t1 \<subseteq> insert s (live t)"
  proof (cases rule: register_cases [of f i1 e1 t])
    case (new c sv)
    then have "t1 = add_session s t" "hm_get (nt_by_outbound t) (out_key_of s) = None"
      using assms(2) by auto
    then show ?thesis using live_add [OF ok] by blast
  qed (use assms(2) in auto)
  then have "\<forall>s' \<in> live t1. ret_key_of s' \<noteq> (fl_proto f, ses_server_ip s, fl_dport f, e2, fl_sport f)"
    using assms(3,4) by (auto simp: ret_key_of_def)
  then have "lookup_return (fl_proto f) (ses_server_ip s) (fl_dport f) e2 (fl_sport f) t1 = None"
    using lookup_return_None [OF ok1] by blast
  ultimately show ?thesis by blast
qed

lemma moved_flow_loses_replies_witness:
  "register sample_flow ''eth0'' (Ipv4 10 0 0 5) (add_session sample_session nat_new)
     = (Some sample_session, add_session sample_session nat_new)
   \<and> lookup_return 6 (Ipv4 8 8 8 8) 443 (Ipv4 10 0 0 5) 12345 (add_session sample_session nat_new) = None"
proof -
  have v: "ses_egress_ip sample_session = Ipv4 192 168 31 49" "ses_server_ip sample_session = Ipv4 8 8 8 8"
    "fl_proto sample_flow = 6" "fl_sport sample_flow = 12345" "fl_dport sample_flow = 443"
    by (simp_all add: sample_session_def new_session_def sample_flow_def)
  have "live nat_new = {}" by (simp add: live_def nat_new_def)
  then show ?thesis
    using moved_flow_loses_replies [OF rtranclp.rtrancl_refl sample_register, of "Ipv4 10 0 0 5" "''eth0''"]
    by (simp only: v) simp
qed

text \<open>Two clients collide.  If two clients behind the tunnel use the same source port to the same
  server through the same egress address, both are registered, but a reply is delivered to whichever
  session the map happens to iterate first: there is an iteration order for either of them.\<close>

theorem shared_port_ambiguous:
  assumes "s1 = new_session f c1 sv i e" and "s2 = new_session f c2 sv i e" and "c1 \<noteq> c2"
    and "s \<in> {s1, s2}"
  shows "\<exists>t. nat_step\<^sup>*\<^sup>* (add_session s2 (add_session s1 nat_new)) t
    \<and> lookup_return (fl_proto f) sv (fl_dport f) e (fl_sport f) t = Some s"
proof -
  let ?t = "add_session s2 (add_session s1 nat_new)" and ?k = "(fl_proto f, sv, fl_dport f, e, fl_sport f)"
  have k: "out_key_of s1 \<noteq> out_key_of s2" "ret_key_of s1 = ?k" "ret_key_of s2 = ?k"
    using assms(1-3) by (simp_all add: new_session_def out_key_of_def ret_key_of_def)
  have out: "nt_by_outbound ?t = [(out_key_of s1, s1), (out_key_of s2, s2)]"
    using k(1) by (simp add: add_session_def nat_new_def)
  have ret: "hm_get (nt_by_return ?t) ?k \<noteq> None"
    by (simp add: add_session_def nat_new_def k hm.get_insert)
  let ?t' = "?t\<lparr>nt_by_outbound := rev (nt_by_outbound ?t)\<rparr>"
  have "nat_step ?t ?t'" by (rule nat_rehash) (simp add: rehashed_def)
  moreover have "lookup_return (fl_proto f) sv (fl_dport f) e (fl_sport f) ?t = Some s1"
    using ret by (simp add: lookup_return_find out k)
  moreover have "lookup_return (fl_proto f) sv (fl_dport f) e (fl_sport f) ?t' = Some s2"
    using ret by (simp add: lookup_return_find out k)
  ultimately show ?thesis using assms(4) by (auto intro: r_into_rtranclp)
qed

lemma shared_port_ambiguous_witness:
  "\<exists>t. nat_step\<^sup>*\<^sup>* (add_session (new_session sample_flow (Ipv4 10 99 0 2) (Ipv4 8 8 8 8) ''wlan0'' (Ipv4 192 168 31 49))
       (add_session sample_session nat_new)) t
     \<and> lookup_return (fl_proto sample_flow) (Ipv4 8 8 8 8) (fl_dport sample_flow) (Ipv4 192 168 31 49) (fl_sport sample_flow) t
        = Some (new_session sample_flow (Ipv4 10 99 0 2) (Ipv4 8 8 8 8) ''wlan0'' (Ipv4 192 168 31 49))"
  by (rule shared_port_ambiguous [OF sample_session_def refl]) simp_all

text \<open>Sessions are never forgotten.  Along every history each registered session stays in the table
  as it was first created, the number of sessions only grows, and the index counts them modulo
  \<open>2 ^ 64\<close>: there is no expiry.\<close>

theorem sessions_never_expire:
  assumes "nat_step\<^sup>*\<^sup>* nat_new t" and "nat_step\<^sup>*\<^sup>* t t'"
  shows "live t \<subseteq> live t' \<and> sessions t \<le> sessions t' \<and> nt_index t' = of_nat (sessions t')
    \<and> sessions t' = card (live t')"
proof -
  have ok: "nat_ok t" by (rule nat_sys.reachable_inv [OF refl assms(1)])
  have ok': "nat_ok t'" by (rule nat_sys.steps_inv [OF assms(2) ok])
  have card: "sessions u = card (live u)" if "nat_ok u" for u
  proof -
    have inj: "inj_on out_key_of (live u)" by (rule inj_onI) (rule live_inj)
    have "out_key_of ` live u = dom (hm_get (nt_by_outbound u))"
      using nat_okD(3) [OF that] by (force simp: live_def dom_def image_iff)
    then show ?thesis
      using hm.count_entries [OF nat_okD(1) [OF that]] card_image [OF inj] by (simp add: sessions_def)
  qed
  have fin: "finite (live t')" unfolding live_values [OF ok', symmetric] by (rule List.finite_set)
  have sub: "live t \<subseteq> live t'" by (rule nat_steps_live [OF assms(2) ok])
  with fin have "sessions t \<le> sessions t'" unfolding card [OF ok] card [OF ok'] by (intro card_mono)
  with sub show ?thesis using nat_okD(5) [OF ok'] card [OF ok'] by blast
qed

lemma sessions_never_expire_witness:
  "live nat_new \<subseteq> live (add_session sample_session nat_new)
   \<and> sessions nat_new \<le> sessions (add_session sample_session nat_new)"
  using sessions_never_expire [OF rtranclp.rtrancl_refl sample_reachable] by blast

text \<open>C12: The table implements the contract.  Seen as one map from flows to sessions, every reachable
  table got there by contract registrations, \<open>register\<close> returns what the contract returns and leaves
  the map the contract leaves, and \<open>lookup_return\<close> gives an answer the contract allows; the return
  map and the index only speed the answer "none" up.\<close>

theorem nat_refines_session_map:
  assumes "nat_step\<^sup>*\<^sup>* nat_new t"
  shows "spec_step\<^sup>*\<^sup>* Map.empty (session_map t)
    \<and> spec_register f i e (session_map t) = map_prod (\<lambda>r. r) session_map (register f i e t)
    \<and> spec_lookup (p, a, sp, b, dp) (session_map t) (lookup_return p a sp b dp t)"
proof -
  have ok: "nat_ok t" by (rule nat_sys.reachable_inv [OF refl assms])
  have "session_map nat_new = Map.empty" by (simp add: session_map_def nat_new_def)
  then have "spec_step\<^sup>*\<^sup>* Map.empty (session_map t)" using nat_ref.reachable_refines [OF refl assms] by simp
  moreover have "spec_register f i e (session_map t) = map_prod (\<lambda>r. r) session_map (register f i e t)"
    by (cases "register f i e t") (simp add: register_refines)
  moreover have "spec_lookup (p, a, sp, b, dp) (session_map t) (lookup_return p a sp b dp t)"
    unfolding spec_lookup_def ran_session_map [OF ok]
    using lookup_return_None [OF ok, of p a sp b dp] lookup_return_Some [OF ok, of p a sp b dp] by (simp split: option.split)
  ultimately show ?thesis by blast
qed

lemma nat_refines_session_map_witness:
  "spec_lookup (6, Ipv4 8 8 8 8, 443, Ipv4 192 168 31 49, 12345) (session_map (add_session sample_session nat_new))
     (lookup_return 6 (Ipv4 8 8 8 8) 443 (Ipv4 192 168 31 49) 12345 (add_session sample_session nat_new))"
  using nat_refines_session_map [OF sample_reachable] by blast

end
