(* ===== verification/Os.thy ===== *)
theory Os
  imports Errors Prelude
begin

text \<open>
  The operating system as \<open>egress.rs\<close> and \<open>tun.rs\<close> see it through \<open>libc\<close>: system calls with
  the arguments the code passes, the open file descriptors and \<open>errno\<close>.  The kernel itself is a
  parameter, a function from the state and the call to its outcome; \<open>fresh_fds\<close> is the one thing
  assumed of it, that a new descriptor is not one already open.  The byte order of the host is the
  parameter \<open>le\<close>.
\<close>

datatype syscall =
    Sys_socket int int u16
  | Sys_open string
  | Sys_close nat
  | Sys_setsockopt nat int int bytes
  | Sys_bind_ll nat int u16 nat
  | Sys_if_nametoindex string
  | Sys_sendto nat bytes bytes
  | Sys_recv nat nat
  | Sys_read nat nat
  | Sys_write nat bytes
  | Sys_ioctl nat nat bytes
  | Sys_fcntl_getfl nat
  | Sys_fcntl_setfl nat u32

text \<open>A call returns a number and writes bytes to the caller's buffer, or fails with an \<open>errno\<close>.\<close>

datatype sys_result = Ret nat bytes | Fail nat

record os =
  os_fds :: "nat set"
  os_errno :: nat
  os_trace :: "syscall list"

type_synonym kernel = "os \<Rightarrow> syscall \<Rightarrow> sys_result"

fun opens :: "syscall \<Rightarrow> bool" where
  "opens (Sys_socket d t p) \<longleftrightarrow> True"
| "opens (Sys_open p) \<longleftrightarrow> True"
| "opens c \<longleftrightarrow> False"

fun fds_after :: "syscall \<Rightarrow> sys_result \<Rightarrow> nat set \<Rightarrow> nat set" where
  "fds_after (Sys_close fd) r fds = fds - {fd}"
| "fds_after c (Ret n d) fds = (if opens c then insert n fds else fds)"
| "fds_after c (Fail e) fds = fds"

definition sys :: "kernel \<Rightarrow> syscall \<Rightarrow> os \<Rightarrow> sys_result \<times> os" where
  "sys k c os =
     (let r = k os c
      in (r, \<lparr>os_fds = fds_after c r (os_fds os),
              os_errno = (case r of Fail e \<Rightarrow> e | Ret n d \<Rightarrow> os_errno os),
              os_trace = os_trace os @ [c]\<rparr>))"

definition last_os_error :: "os \<Rightarrow> io_error" where
  "last_os_error os = Os_Error (os_errno os)"

definition fresh_fds :: "kernel \<Rightarrow> bool" where
  "fresh_fds k \<longleftrightarrow> (\<forall>os c n d. opens c \<longrightarrow> k os c = Ret n d \<longrightarrow> n \<notin> os_fds os)"

text \<open>A Rust string without an interior NUL becomes a C string.\<close>

definition cstring :: "string \<Rightarrow> bytes option" where
  "cstring s = (if CHR 0x00 \<in> set s then None else Some (map of_char s))"

section \<open>Byte order\<close>

definition ne :: "bool \<Rightarrow> bytes \<Rightarrow> bytes" where
  "ne le bs = (if le then rev bs else bs)"

fun from_ne16 :: "bool \<Rightarrow> bytes \<Rightarrow> u16" where
  "from_ne16 le [a, b] = (if le then be16 b a else be16 a b)"
| "from_ne16 le bs = 0"

definition to_be_u16 :: "bool \<Rightarrow> u16 \<Rightarrow> u16" where
  "to_be_u16 le w = from_ne16 le (to_be16 w)"

fun be32 :: "bytes \<Rightarrow> u32" where
  "be32 [a, b, c, d] = of_nat (((unat a * 256 + unat b) * 256 + unat c) * 256 + unat d)"
| "be32 bs = 0"

declare be32.simps [simp del]

definition to_be32 :: "u32 \<Rightarrow> bytes" where
  "to_be32 w = [of_nat (unat w div 256 div 256 div 256), of_nat (unat w div 256 div 256 mod 256),
     of_nat (unat w div 256 mod 256), of_nat (unat w mod 256)]"

definition swap_bytes :: "u32 \<Rightarrow> u32" where
  "swap_bytes w = be32 (rev (to_be32 w))"

definition to_be_u32 :: "bool \<Rightarrow> u32 \<Rightarrow> u32" where
  "to_be_u32 le w = (if le then swap_bytes w else w)"

lemma digit_step: "d < 256 \<Longrightarrow> (x * 256 + d) div 256 = (x :: nat)" "d < 256 \<Longrightarrow> (x * 256 + d) mod 256 = d"
  by simp_all

lemma be32_bound:
  "a < 256 \<Longrightarrow> b < 256 \<Longrightarrow> c < 256 \<Longrightarrow> d < 256 \<Longrightarrow> ((a * 256 + b) * 256 + c) * 256 + d < (4294967296 :: nat)"
  by (simp add: algebra_simps)

lemma to_be32_be32 [simp]: "to_be32 (be32 [a, b, c, d]) = [a, b, c, d]"
proof -
  let ?n = "((unat a * 256 + unat b) * 256 + unat c) * 256 + unat d"
  have lt: "unat a < 256" "unat b < 256" "unat c < 256" "unat d < 256" by simp_all
  then have "?n < 4294967296" by (rule be32_bound)
  then have "unat (be32 [a, b, c, d]) = ?n" by (simp only: be32.simps unat_of_nat_u32)
  then show ?thesis using lt by (simp only: to_be32_def digit_step) simp
qed

section \<open>What a call does\<close>

lemma fst_sys [simp]: "fst (sys k c os) = k os c"
  by (simp add: sys_def Let_def)

lemma fds_snd_sys [simp]: "os_fds (snd (sys k c os)) = fds_after c (k os c) (os_fds os)"
  by (simp add: sys_def Let_def)

lemma trace_snd_sys [simp]: "os_trace (snd (sys k c os)) = os_trace os @ [c]"
  by (simp add: sys_def Let_def)

lemma sys_outcome:
  assumes "sys k c os = (r, os')"
  shows "k os c = r" "os_fds os' = fds_after c r (os_fds os)" "os_trace os' = os_trace os @ [c]"
proof -
  show "k os c = r" using fst_sys [of k c os] assms by simp
  then show "os_fds os' = fds_after c r (os_fds os)" using fds_snd_sys [of k c os] assms by simp
  show "os_trace os' = os_trace os @ [c]" using trace_snd_sys [of k c os] assms by simp
qed

lemma fds_after_other [simp]: "\<not> opens c \<Longrightarrow> (\<nexists>fd. c = Sys_close fd) \<Longrightarrow> fds_after c r fds = fds"
  by (cases r; cases c) simp_all

lemma fds_after_Fail [simp]: "(\<nexists>fd. c = Sys_close fd) \<Longrightarrow> fds_after c (Fail e) fds = fds"
  by (cases c) simp_all

lemma fresh_fdsD: "fresh_fds k \<Longrightarrow> sys k c os = (Ret n d, os') \<Longrightarrow> opens c \<Longrightarrow> n \<notin> os_fds os"
  using sys_outcome(1) by (fastforce simp: fresh_fds_def)

section \<open>A kernel for the examples\<close>

text \<open>Descriptors are handed out in increasing order, everything succeeds,
  a read delivers a fixed frame.\<close>

definition easy_kernel :: "bytes \<Rightarrow> kernel" where
  "easy_kernel frame os c =
     (if opens c then if finite (os_fds os) then Ret (Max (insert 2 (os_fds os)) + 1) [] else Fail 24
      else case c of Sys_recv fd n \<Rightarrow> Ret (length frame) frame
        | Sys_read fd n \<Rightarrow> Ret (length frame) frame | _ \<Rightarrow> Ret 1 [])"

definition os0 :: os where
  "os0 = \<lparr>os_fds = {}, os_errno = 0, os_trace = []\<rparr>"

lemma easy_kernel_fresh: "fresh_fds (easy_kernel frame)"
proof -
  have "Max (insert 2 F) + 1 \<notin> F" if "finite F" for F :: "nat set"
    using that Max_ge [of "insert 2 F" "Max (insert 2 F) + 1"] by (metis Suc_eq_plus1 finite_insert insertI2 not_less_eq_eq order_refl)
  then show ?thesis by (auto simp: fresh_fds_def easy_kernel_def split: if_splits)
qed

lemma easy_sys_socket: "sys (easy_kernel frame) (Sys_socket d t p) os0 = (Ret 3 [], \<lparr>os_fds = {3}, os_errno = 0, os_trace = [Sys_socket d t p]\<rparr>)"
  by (simp add: sys_def os0_def easy_kernel_def)

end
