(* ===== verification/Egress.thy ===== *)
theory Egress
  imports Os
begin

text \<open>
  \<open>egress.rs\<close>: the raw egress socket and the \<open>AF_PACKET\<close> capture socket of one interface.  Every
  system call is made through the kernel parameter, in the order of the code, so the lemmas can say
  which descriptors are open after each way out, what the destination address looks like in memory
  and what a received frame becomes.
\<close>

record raw_egress =
  re_fd :: nat
  re_ifname :: string

record raw_capture =
  rc_fd :: nat
  rc_ifname :: string

definition egress_open :: "kernel \<Rightarrow> bool \<Rightarrow> string \<Rightarrow> os \<Rightarrow> (netmux_error + raw_egress) \<times> os" where
  "egress_open k le ifname os =
     (case sys k (Sys_socket 2 3 255) os of
        (Fail e, os) \<Rightarrow> (Inl (io ''socket(AF_INET, SOCK_RAW)'' (last_os_error os)), os)
      | (Ret fd d, os) \<Rightarrow>
     (case sys k (Sys_setsockopt fd 0 3 (ne le [0, 0, 0, 1])) os of
        (Fail e, os) \<Rightarrow>
          (let os = snd (sys k (Sys_close fd) os)
           in (Inl (io ''setsockopt(IP_HDRINCL)'' (last_os_error os)), os))
      | (Ret n d, os) \<Rightarrow>
     (case cstring ifname of
        None \<Rightarrow> (Inl (Config ''ifname contains NUL''), os)
      | Some cname \<Rightarrow>
     (case sys k (Sys_setsockopt fd 1 25 (cname @ [0])) os of
        (Fail e, os) \<Rightarrow>
          (let os = snd (sys k (Sys_close fd) os)
           in (Inl (io ''setsockopt(SO_BINDTODEVICE)'' (last_os_error os)), os))
      | (Ret n d, os) \<Rightarrow> (Inr \<lparr>re_fd = fd, re_ifname = ifname\<rparr>, os)))))"

text \<open>The four bytes of \<open>sin_addr\<close> as they lie in memory.\<close>

definition sin_addr_bytes :: "bool \<Rightarrow> ipv4 \<Rightarrow> bytes" where
  "sin_addr_bytes le dst =
     (let s_addr = to_be_u32 le (be32 (ne le (octets dst))) in ne le (to_be32 s_addr))"

definition egress_send :: "kernel \<Rightarrow> bool \<Rightarrow> raw_egress \<Rightarrow> bytes \<Rightarrow> ipv4 \<Rightarrow> os \<Rightarrow> (io_error + nat) \<times> os" where
  "egress_send k le self pkt dst os =
     (case sys k (Sys_sendto (re_fd self) pkt (sin_addr_bytes le dst)) os of
        (Fail e, os) \<Rightarrow> (Inl (last_os_error os), os)
      | (Ret n d, os) \<Rightarrow> (Inr n, os))"

definition capture_as_raw_fd :: "raw_capture \<Rightarrow> nat" where
  "capture_as_raw_fd self = rc_fd self"

definition egress_drop :: "kernel \<Rightarrow> raw_egress \<Rightarrow> os \<Rightarrow> os" where
  "egress_drop k self os = snd (sys k (Sys_close (re_fd self)) os)"

definition capture_open :: "kernel \<Rightarrow> bool \<Rightarrow> string \<Rightarrow> os \<Rightarrow> (netmux_error + raw_capture) \<times> os" where
  "capture_open k le ifname os =
     (case sys k (Sys_socket 17 3 (to_be_u16 le 0x0800)) os of
        (Fail e, os) \<Rightarrow> (Inl (io ''socket(AF_PACKET)'' (last_os_error os)), os)
      | (Ret fd d, os) \<Rightarrow>
     (case cstring ifname of
        None \<Rightarrow> (Inl (Config ''ifname contains NUL''), os)
      | Some cname \<Rightarrow>
     (case sys k (Sys_if_nametoindex ifname) os of
        (r, os) \<Rightarrow>
          (let ifindex = (case r of Fail e \<Rightarrow> 0 | Ret n d \<Rightarrow> n)
           in if ifindex = 0
              then (let os = snd (sys k (Sys_close fd) os)
                    in (Inl (io ''if_nametoindex'' (last_os_error os)), os))
              else
     (case sys k (Sys_bind_ll fd 17 (to_be_u16 le 0x0800) ifindex) os of
        (Fail e, os) \<Rightarrow>
          (let os = snd (sys k (Sys_close fd) os)
           in (Inl (io ''bind(AF_PACKET)'' (last_os_error os)), os))
      | (Ret n d, os) \<Rightarrow> (Inr \<lparr>rc_fd = fd, rc_ifname = ifname\<rparr>, os))))))"

text \<open>\<open>buf.copy_within(a..b, 0)\<close>\<close>

definition copy_within_front :: "bytes \<Rightarrow> nat \<Rightarrow> nat \<Rightarrow> bytes rust" where
  "copy_within_front buf a b = do { s \<leftarrow> subslice buf a b; Some (blit 0 s buf) }"

definition capture_recv ::
    "kernel \<Rightarrow> raw_capture \<Rightarrow> bytes \<Rightarrow> os \<Rightarrow> (((io_error + nat) \<times> bytes) rust) \<times> os" where
  "capture_recv k self buf os =
     (case sys k (Sys_recv (rc_fd self) (length buf)) os of
        (Fail e, os) \<Rightarrow> (Some (Inl (last_os_error os), buf), os)
      | (Ret n d, os) \<Rightarrow>
          (let buf = blit 0 d buf
           in if 14 < n then (map_option (\<lambda>b. (Inr (n - 14), b)) (copy_within_front buf 14 n), os)
              else (Some (Inr 0, buf), os)))"

definition capture_drop :: "kernel \<Rightarrow> raw_capture \<Rightarrow> os \<Rightarrow> os" where
  "capture_drop k self os = snd (sys k (Sys_close (rc_fd self)) os)"

section \<open>Descriptors\<close>

lemma egress_open_cases:
  assumes "egress_open k le ifname os = (r, os')"
  obtains (no_socket) e where "r = Inl e" "os_fds os' = os_fds os"
  | (closed) fd os1 d e where "sys k (Sys_socket 2 3 255) os = (Ret fd d, os1)" "r = Inl e"
      "os_fds os' = insert fd (os_fds os) - {fd}"
  | (leaked) fd os1 d where "sys k (Sys_socket 2 3 255) os = (Ret fd d, os1)" "cstring ifname = None"
      "r = Inl (Config ''ifname contains NUL'')" "os_fds os' = insert fd (os_fds os)"
  | (opened) fd os1 d where "sys k (Sys_socket 2 3 255) os = (Ret fd d, os1)" "cstring ifname \<noteq> None"
      "r = Inr \<lparr>re_fd = fd, re_ifname = ifname\<rparr>" "os_fds os' = insert fd (os_fds os)"
proof -
  obtain r1 os1 where s1: "sys k (Sys_socket 2 3 255) os = (r1, os1)" by fastforce
  show thesis
  proof (cases r1)
    case (Fail e)
    with assms s1 sys_outcome(2) [OF s1] show thesis by (intro no_socket) (auto simp: egress_open_def)
  next
    case (Ret fd d)
    then have f1: "os_fds os1 = insert fd (os_fds os)" using sys_outcome(2) [OF s1] by simp
    obtain r2 os2 where s2: "sys k (Sys_setsockopt fd 0 3 (ne le [0, 0, 0, 1])) os1 = (r2, os2)" by fastforce
    then have f2: "os_fds os2 = insert fd (os_fds os)" using sys_outcome(2) [OF s2] f1 by simp
    show thesis
    proof (cases r2)
      case (Fail e)
      then show thesis using assms s1 Ret s2 f2
        by (intro closed [of fd d os1]) (auto simp: egress_open_def Let_def)
    next
      case r2: (Ret n d2)
      show thesis
      proof (cases "cstring ifname")
        case None
        then show thesis using assms s1 Ret s2 f2 r2
          by (intro leaked [of fd d os1]) (auto simp: egress_open_def Let_def)
      next
        case (Some cname)
        obtain r3 os3 where s3: "sys k (Sys_setsockopt fd 1 25 (cname @ [0])) os2 = (r3, os3)" by fastforce
        then have f3: "os_fds os3 = insert fd (os_fds os)" using sys_outcome(2) [OF s3] f2 by simp
        show thesis
        proof (cases r3)
          case (Fail e)
          then show thesis using assms s1 Ret s2 f3 r2 Some s3
            by (intro closed [of fd d os1]) (auto simp: egress_open_def Let_def)
        next
          case (Ret n3 d3)
          then show thesis using assms s1 \<open>r1 = Ret fd d\<close> s2 f3 r2 Some s3
            by (intro opened [of fd d os1]) (auto simp: egress_open_def Let_def)
        qed
      qed
    qed
  qed
qed

lemma capture_open_cases:
  assumes "capture_open k le ifname os = (r, os')"
  obtains (no_socket) e where "r = Inl e" "os_fds os' = os_fds os"
  | (closed) fd os1 d e where "sys k (Sys_socket 17 3 (to_be_u16 le 0x0800)) os = (Ret fd d, os1)" "r = Inl e"
      "os_fds os' = insert fd (os_fds os) - {fd}"
  | (leaked) fd os1 d where "sys k (Sys_socket 17 3 (to_be_u16 le 0x0800)) os = (Ret fd d, os1)"
      "cstring ifname = None" "r = Inl (Config ''ifname contains NUL'')" "os_fds os' = insert fd (os_fds os)"
  | (opened) fd os1 d where "sys k (Sys_socket 17 3 (to_be_u16 le 0x0800)) os = (Ret fd d, os1)"
      "cstring ifname \<noteq> None" "r = Inr \<lparr>rc_fd = fd, rc_ifname = ifname\<rparr>" "os_fds os' = insert fd (os_fds os)"
proof -
  obtain r1 os1 where s1: "sys k (Sys_socket 17 3 (to_be_u16 le 0x0800)) os = (r1, os1)" by fastforce
  show thesis
  proof (cases r1)
    case (Fail e)
    with assms s1 sys_outcome(2) [OF s1] show thesis by (intro no_socket) (auto simp: capture_open_def)
  next
    case (Ret fd d)
    then have f1: "os_fds os1 = insert fd (os_fds os)" using sys_outcome(2) [OF s1] by simp
    show thesis
    proof (cases "cstring ifname")
      case None
      then show thesis using assms s1 Ret f1
        by (intro leaked [of fd d os1]) (auto simp: capture_open_def Let_def)
    next
      case (Some cname)
      obtain r2 os2 where s2: "sys k (Sys_if_nametoindex ifname) os1 = (r2, os2)" by fastforce
      then have f2: "os_fds os2 = insert fd (os_fds os)" using sys_outcome(2) [OF s2] f1 by simp
      define ix where "ix = (case r2 of Fail e \<Rightarrow> 0 | Ret n d \<Rightarrow> n)"
      obtain r3 os3 where s3: "sys k (Sys_bind_ll fd 17 (to_be_u16 le 0x0800) ix) os2 = (r3, os3)" by fastforce
      then have f3: "os_fds os3 = insert fd (os_fds os)" using sys_outcome(2) [OF s3] f2 by simp
      show thesis
      proof (cases "ix = 0")
        case True
        then show thesis using assms s1 Ret s2 f2 Some
          by (intro closed [of fd d os1]) (auto simp: capture_open_def Let_def ix_def)
      next
        case ix: False
        show thesis
        proof (cases r3)
          case (Fail e)
          then show thesis using assms s1 Ret s2 f3 Some s3 ix
            by (intro closed [of fd d os1]) (auto simp: capture_open_def Let_def simp flip: ix_def)
        next
          case (Ret n3 d3)
          then show thesis using assms s1 \<open>r1 = Ret fd d\<close> s2 f3 Some s3 ix
            by (intro opened [of fd d os1]) (auto simp: capture_open_def Let_def simp flip: ix_def)
        qed
      qed
    qed
  qed
qed

section \<open>Ownership of the descriptor\<close>

text \<open>What the data plane needs of a socket type: a successful open owns one new descriptor, a failed
  one leaves none behind, and dropping closes the owned one.\<close>

locale raw_socket =
  fixes usable_name :: bool
    and opn :: "os \<Rightarrow> (netmux_error + 's) \<times> os"
    and fd_of :: "'s \<Rightarrow> nat"
    and drp :: "'s \<Rightarrow> os \<Rightarrow> os"
  assumes opened: "usable_name \<Longrightarrow> opn os = (Inr s, os') \<Longrightarrow>
      fd_of s \<notin> os_fds os \<and> os_fds os' = insert (fd_of s) (os_fds os)"
    and refused: "usable_name \<Longrightarrow> opn os = (Inl e, os') \<Longrightarrow> os_fds os' = os_fds os"
    and dropped: "os_fds (drp s os) = os_fds os - {fd_of s}"
begin

lemma open_drop: "usable_name \<Longrightarrow> opn os = (Inr s, os') \<Longrightarrow> os_fds (drp s os') = os_fds os"
  using opened dropped by fastforce

lemma open_effect:
  "usable_name \<Longrightarrow> opn os = (r, os') \<Longrightarrow>
   (case r of Inl e \<Rightarrow> os_fds os' = os_fds os
    | Inr s \<Rightarrow> fd_of s \<notin> os_fds os \<and> os_fds os' = insert (fd_of s) (os_fds os) \<and> os_fds (drp s os') = os_fds os)"
  using opened refused open_drop by (cases r) auto

end

interpretation egress: raw_socket "fresh_fds k \<and> cstring ifname \<noteq> None" "egress_open k le ifname" re_fd "egress_drop k"
  for k le ifname
proof
  fix os os' and s :: raw_egress and e
  assume fresh: "fresh_fds k \<and> cstring ifname \<noteq> None"
  show "re_fd s \<notin> os_fds os \<and> os_fds os' = insert (re_fd s) (os_fds os)" if "egress_open k le ifname os = (Inr s, os')"
    using that fresh fresh_fdsD by (cases rule: egress_open_cases [OF that]) auto
  show "os_fds os' = os_fds os" if "egress_open k le ifname os = (Inl e, os')"
    using that fresh fresh_fdsD by (cases rule: egress_open_cases [OF that]) fastforce+
qed (simp add: egress_drop_def)

interpretation capture: raw_socket "fresh_fds k \<and> cstring ifname \<noteq> None" "capture_open k le ifname" rc_fd "capture_drop k"
  for k le ifname
proof
  fix os os' and s :: raw_capture and e
  assume fresh: "fresh_fds k \<and> cstring ifname \<noteq> None"
  show "rc_fd s \<notin> os_fds os \<and> os_fds os' = insert (rc_fd s) (os_fds os)" if "capture_open k le ifname os = (Inr s, os')"
    using that fresh fresh_fdsD by (cases rule: capture_open_cases [OF that]) auto
  show "os_fds os' = os_fds os" if "capture_open k le ifname os = (Inl e, os')"
    using that fresh fresh_fdsD by (cases rule: capture_open_cases [OF that]) fastforce+
qed (simp add: capture_drop_def)

section \<open>Properties\<close>

text \<open>Opening a raw socket of either kind on a name without a NUL leaks nothing: success adds exactly
  one new descriptor, which dropping the socket gives back, and every failure (of the socket, of an
  option, of the index lookup, of the bind) leaves the descriptors as they were.\<close>

theorem raw_sockets_do_not_leak:
  assumes "fresh_fds k" and "cstring ifname \<noteq> None"
  shows "(case egress_open k le ifname os of
        (Inl e, os') \<Rightarrow> os_fds os' = os_fds os
      | (Inr s, os') \<Rightarrow> re_fd s \<notin> os_fds os \<and> os_fds os' = insert (re_fd s) (os_fds os)
          \<and> os_fds (egress_drop k s os') = os_fds os)
    \<and> (case capture_open k le ifname os of
        (Inl e, os') \<Rightarrow> os_fds os' = os_fds os
      | (Inr s, os') \<Rightarrow> rc_fd s \<notin> os_fds os \<and> os_fds os' = insert (rc_fd s) (os_fds os)
          \<and> os_fds (capture_drop k s os') = os_fds os)"
proof -
  have ok: "fresh_fds k \<and> cstring ifname \<noteq> None" using assms ..
  obtain r1 o1 where 1: "egress_open k le ifname os = (r1, o1)" by fastforce
  obtain r2 o2 where 2: "capture_open k le ifname os = (r2, o2)" by fastforce
  show ?thesis
    using egress.open_effect [OF ok 1] capture.open_effect [OF ok 2] unfolding 1 2 by (simp split: sum.splits)
qed

lemma raw_sockets_do_not_leak_witness:
  "case capture_open (easy_kernel []) True ''eth0'' os0 of
      (Inl e, os') \<Rightarrow> os_fds os' = {}
    | (Inr s, os') \<Rightarrow> os_fds os' = {rc_fd s} \<and> os_fds (capture_drop (easy_kernel []) s os') = {}"
proof -
  have "cstring ''eth0'' \<noteq> None" by (simp add: cstring_def)
  from raw_sockets_do_not_leak [OF easy_kernel_fresh [of "[]"] this, where os = os0 and le = True] show ?thesis
    by (simp add: os0_def split: prod.splits sum.splits)
qed

text \<open>A name with a NUL leaks a descriptor: both functions create the socket first and leave through
  the \<open>?\<close> of the string conversion without closing it.\<close>

theorem nul_name_leaks_fd:
  assumes "fresh_fds k" and "cstring ifname = None"
    and "sys k (Sys_socket 2 3 255) os = (Ret fd d, os1)"
    and "sys k (Sys_setsockopt fd 0 3 (ne le [0, 0, 0, 1])) os1 = (Ret n d', os2)"
    and "sys k (Sys_socket 17 3 (to_be_u16 le 0x0800)) os = (Ret fd' d'', os3)"
  shows "egress_open k le ifname os = (Inl (Config ''ifname contains NUL''), os2)
    \<and> fd \<notin> os_fds os \<and> os_fds os2 = insert fd (os_fds os)
    \<and> capture_open k le ifname os = (Inl (Config ''ifname contains NUL''), os3)
    \<and> fd' \<notin> os_fds os \<and> os_fds os3 = insert fd' (os_fds os)"
proof -
  have "fd \<notin> os_fds os" "fd' \<notin> os_fds os"
    using fresh_fdsD [OF assms(1,3)] fresh_fdsD [OF assms(1,5)] by simp_all
  then show ?thesis
    using assms sys_outcome(2) [OF assms(3)] sys_outcome(2) [OF assms(4)] sys_outcome(2) [OF assms(5)]
    by (simp add: egress_open_def capture_open_def)
qed

lemma nul_name_leaks_fd_witness:
  "\<exists>os'. egress_open (easy_kernel []) True [CHR 0x00] os0 = (Inl (Config ''ifname contains NUL''), os') \<and> os_fds os' = {3}"
proof -
  let ?k = "easy_kernel []"
  obtain os2 where s2: "sys ?k (Sys_setsockopt 3 0 3 (ne True [0, 0, 0, 1]))
      \<lparr>os_fds = {3}, os_errno = 0, os_trace = [Sys_socket 2 3 255]\<rparr> = (Ret 1 [], os2)"
    by (simp add: sys_def easy_kernel_def)
  have "cstring [CHR 0x00] = None" by (simp add: cstring_def)
  from nul_name_leaks_fd [OF easy_kernel_fresh this easy_sys_socket s2 easy_sys_socket] show ?thesis
    by (auto simp: os0_def)
qed

text \<open>The destination handed to \<open>sendto\<close>.  The address bytes in memory are the packet's destination in
  network order only on a big-endian host; on a little-endian one, because \<open>from_ne_bytes\<close> already
  keeps the memory order and \<open>to_be\<close> then swaps it, they are reversed.\<close>

theorem send_address_reversed:
  "sin_addr_bytes le dst = (if le then rev (octets dst) else octets dst)"
proof -
  have "to_be32 (be32 (octets a)) = octets a" "to_be32 (be32 (rev (octets a))) = rev (octets a)" for a
    by (cases a; simp)+
  moreover have "be32 (rev (to_be32 (be32 (rev (octets dst))))) = be32 (octets dst)"
    using calculation(2) [of dst] by simp
  ultimately show ?thesis
    by (simp add: sin_addr_bytes_def ne_def to_be_u32_def swap_bytes_def)
qed

text \<open>Receiving a frame.  When the kernel delivers a frame that fits the buffer, the packet behind its
  14-byte Ethernet header is moved to the front of the buffer and its length returned; a frame of at
  most 14 bytes counts as empty; the function never panics.\<close>

theorem recv_strips_header:
  assumes "k os (Sys_recv (rc_fd cap) (length buf)) = Ret (length frame) frame" and "length frame \<le> length buf"
  shows "\<exists>buf' os'. capture_recv k cap buf os = (Some (Inr (length frame - 14), buf'), os')
    \<and> length buf' = length buf \<and> (14 < length frame \<longrightarrow> take (length frame - 14) buf' = drop 14 frame)"
proof -
  obtain os' where s: "sys k (Sys_recv (rc_fd cap) (length buf)) os = (Ret (length frame) frame, os')"
    using assms(1) fst_sys [of k "Sys_recv (rc_fd cap) (length buf)" os] by (metis prod.collapse)
  have "take (length frame - 14) (drop 14 (blit 0 frame buf)) = drop 14 frame" if "14 < length frame"
    using that assms(2) by (simp add: blit_def drop_take)
  then show ?thesis
    using assms(2) by (cases "14 < length frame")
      (auto simp: capture_recv_def s Let_def copy_within_front_def rust_ok, simp add: blit_def)
qed

lemma recv_strips_header_witness:
  "\<exists>buf' os'. capture_recv (easy_kernel (replicate 14 0 @ [0x45, 1])) \<lparr>rc_fd = 3, rc_ifname = ''eth0''\<rparr> (replicate 64 7) os0
      = (Some (Inr 2, buf'), os') \<and> take 2 buf' = [0x45, 1]"
  using recv_strips_header [of "easy_kernel (replicate 14 0 @ [0x45, 1])" os0 "\<lparr>rc_fd = 3, rc_ifname = ''eth0''\<rparr>" "replicate 64 7"
    "replicate 14 0 @ [0x45, 1]"]
  by (auto simp: easy_kernel_def)

end
