(* ===== verification/Tun.thy ===== *)
theory Tun
  imports Os
begin

text \<open>
  \<open>tun.rs\<close>: creating the TUN device, reading and writing it, and bringing it up.  The 40-byte
  \<open>ifreq\<close> is built and read back byte by byte, with the panics of the slice operations on the
  interface name as \<open>None\<close>; a dropped \<open>File\<close> is a close.
\<close>

record tun =
  tun_fd :: nat
  tun_name :: string

definition MAX_PACKET :: nat where
  "MAX_PACKET = 65536"

definition TUNSETIFF :: nat where "TUNSETIFF = 0x400454ca"
definition SIOCGIFFLAGS :: nat where "SIOCGIFFLAGS = 0x8913"
definition SIOCSIFFLAGS :: nat where "SIOCSIFFLAGS = 0x8914"
definition IFF_TUN :: u16 where "IFF_TUN = 0x0001"
definition IFF_NO_PI :: u16 where "IFF_NO_PI = 0x1000"
definition IFF_UP :: u16 where "IFF_UP = 0x0001"

definition em_dash :: string where
  "em_dash = [CHR 0xE2, CHR 0x80, CHR 0x94]"

text \<open>The request built for \<open>TUNSETIFF\<close>.\<close>

definition tun_request :: "bool \<Rightarrow> bytes \<Rightarrow> bytes rust" where
  "tun_request le ifname = do {
     ifr \<leftarrow> Some (replicate 40 0);
     ifr \<leftarrow> copy_from_slice ifr 0 (length ifname) (take (min 16 (length ifname)) ifname);
     copy_from_slice ifr 16 18 (ne le (to_be16 (IFF_TUN OR IFF_NO_PI))) }"

text \<open>\<open>String::from_utf8_lossy\<close>: each maximal prefix of an ill-formed sequence becomes one \<open>U+FFFD\<close>.
  \<open>utf8_char\<close> gives the output for a first byte and how many of the following bytes it takes.\<close>

definition utf8_cont :: "u8 \<Rightarrow> bool" where
  "utf8_cont b \<longleftrightarrow> 0x80 \<le> b \<and> b \<le> 0xBF"

definition utf8_second :: "u8 \<Rightarrow> u8 \<Rightarrow> bool" where
  "utf8_second b c \<longleftrightarrow> utf8_cont c \<and> (b = 0xE0 \<longrightarrow> 0xA0 \<le> c) \<and> (b = 0xED \<longrightarrow> c \<le> 0x9F)
     \<and> (b = 0xF0 \<longrightarrow> 0x90 \<le> c) \<and> (b = 0xF4 \<longrightarrow> c \<le> 0x8F)"

definition utf8_width :: "u8 \<Rightarrow> nat" where
  "utf8_width b = (if b < 0x80 then 1 else if 0xC2 \<le> b \<and> b \<le> 0xDF then 2
     else if 0xE0 \<le> b \<and> b \<le> 0xEF then 3 else if 0xF0 \<le> b \<and> b \<le> 0xF4 then 4 else 0)"

definition utf8_char :: "u8 \<Rightarrow> bytes \<Rightarrow> bytes \<times> nat" where
  "utf8_char b r =
     (let w = utf8_width b;
          k = (if w < 2 then 0
               else case r of [] \<Rightarrow> 0
                 | c # r' \<Rightarrow> if utf8_second b c then Suc (length (takeWhile utf8_cont (take (w - 2) r'))) else 0)
      in if w \<noteq> 0 \<and> Suc k = w then (b # take k r, k) else ([0xEF, 0xBF, 0xBD], k))"

function utf8_lossy :: "bytes \<Rightarrow> bytes" where
  "utf8_lossy [] = []"
| "utf8_lossy (b # r) = (case utf8_char b r of (out, k) \<Rightarrow> out @ utf8_lossy (drop k r))"
  by pat_completeness auto
termination
  by (relation "measure length") auto

definition assigned_name :: "bytes \<Rightarrow> string" where
  "assigned_name ifr = map (\<lambda>b. char_of (unat b)) (utf8_lossy (takeWhile (\<lambda>b. b \<noteq> 0) (take 16 ifr)))"

definition tun_create :: "kernel \<Rightarrow> bool \<Rightarrow> string \<Rightarrow> os \<Rightarrow> (netmux_error + tun) rust \<times> os" where
  "tun_create k le name os =
     (case cstring name of
        None \<Rightarrow> (Some (Inl (Config ''interface name contains NUL byte'')), os)
      | Some cname \<Rightarrow>
     (case sys k (Sys_open ''/dev/net/tun'') os of
        (Fail e, os) \<Rightarrow>
          (Some (Inl (if permission_denied (Os_Error e)
             then permission (''cannot open /dev/net/tun '' @ em_dash @ '' run as root or grant CAP_NET_ADMIN'')
             else Io ''opening /dev/net/tun'' (Os_Error e))), os)
      | (Ret fd d, os) \<Rightarrow>
     (case tun_request le cname of
        None \<Rightarrow> (None, snd (sys k (Sys_close fd) os))
      | Some ifr \<Rightarrow>
     (case sys k (Sys_ioctl fd TUNSETIFF ifr) os of
        (Fail e, os) \<Rightarrow>
          (let err = last_os_error os; os = snd (sys k (Sys_close fd) os)
           in (Some (Inl (if permission_denied err
                then permission (''ioctl(TUNSETIFF) needs CAP_NET_ADMIN '' @ em_dash
                  @ '' run as root, or grant: sudo setcap cap_net_admin+ep <netmux-app>'')
                else Io (''ioctl(TUNSETIFF) for '' @ name) err)), os))
      | (Ret n d, os) \<Rightarrow> (Some (Inr \<lparr>tun_fd = fd, tun_name = assigned_name (blit 0 d ifr)\<rparr>), os)))))"

definition tun_read :: "kernel \<Rightarrow> tun \<Rightarrow> bytes \<Rightarrow> os \<Rightarrow> ((io_error + nat) \<times> bytes) \<times> os" where
  "tun_read k self buf os =
     (case sys k (Sys_read (tun_fd self) (length buf)) os of
        (Fail e, os) \<Rightarrow> ((Inl (last_os_error os), buf), os)
      | (Ret n d, os) \<Rightarrow> ((Inr n, blit 0 d buf), os))"

definition tun_write :: "kernel \<Rightarrow> tun \<Rightarrow> bytes \<Rightarrow> os \<Rightarrow> (io_error + nat) \<times> os" where
  "tun_write k self buf os =
     (case sys k (Sys_write (tun_fd self) buf) os of
        (Fail e, os) \<Rightarrow> (Inl (last_os_error os), os)
      | (Ret n d, os) \<Rightarrow> (Inr n, os))"

text \<open>The accessors of the descriptor; \<open>into_raw_fd\<close> consumes the device without closing it.\<close>

definition tun_as_raw_fd :: "tun \<Rightarrow> nat" where
  "tun_as_raw_fd self = tun_fd self"

definition tun_into_raw_fd :: "tun \<Rightarrow> nat" where
  "tun_into_raw_fd self = tun_fd self"

definition set_nonblocking :: "kernel \<Rightarrow> tun \<Rightarrow> os \<Rightarrow> (io_error + unit) \<times> os" where
  "set_nonblocking k self os =
     (case sys k (Sys_fcntl_getfl (tun_fd self)) os of
        (Fail e, os) \<Rightarrow> (Inl (last_os_error os), os)
      | (Ret flags d, os) \<Rightarrow>
     (case sys k (Sys_fcntl_setfl (tun_fd self) (of_nat flags OR 0x800)) os of
        (Fail e, os) \<Rightarrow> (Inl (last_os_error os), os)
      | (Ret n d, os) \<Rightarrow> (Inr (), os)))"

text \<open>The closure of \<open>set_up\<close>, run between opening and closing the socket.\<close>

definition set_up_flags :: "kernel \<Rightarrow> bool \<Rightarrow> string \<Rightarrow> bytes \<Rightarrow> nat \<Rightarrow> os \<Rightarrow> (netmux_error + unit) rust \<times> os" where
  "set_up_flags k le name cname fd os =
     (case copy_from_slice (replicate 40 0) 0 (length cname) cname of
        None \<Rightarrow> (None, os)
      | Some ifr \<Rightarrow>
     (case sys k (Sys_ioctl fd SIOCGIFFLAGS ifr) os of
        (Fail e, os) \<Rightarrow> (Some (Inl (Io (''ioctl(SIOCGIFFLAGS) for '' @ name) (last_os_error os))), os)
      | (Ret n d, os) \<Rightarrow>
          (let ifr = blit 0 d ifr;
               flags = from_ne16 le [ifr ! 16, ifr ! 17] OR IFF_UP;
               ifr = blit 16 (ne le (to_be16 flags)) ifr
           in case sys k (Sys_ioctl fd SIOCSIFFLAGS ifr) os of
                (Fail e, os) \<Rightarrow> (Some (Inl (Io (''ioctl(SIOCSIFFLAGS) for '' @ name) (last_os_error os))), os)
              | (Ret n d, os) \<Rightarrow> (Some (Inr ()), os))))"

definition set_up :: "kernel \<Rightarrow> bool \<Rightarrow> string \<Rightarrow> os \<Rightarrow> (netmux_error + unit) rust \<times> os" where
  "set_up k le name os =
     (case cstring name of
        None \<Rightarrow> (Some (Inl (Config ''interface name contains NUL byte'')), os)
      | Some cname \<Rightarrow>
     (case sys k (Sys_socket 2 2 0) os of
        (Fail e, os) \<Rightarrow> (Some (Inl (Io ''socket(AF_INET, SOCK_DGRAM)'' (last_os_error os))), os)
      | (Ret fd d, os) \<Rightarrow>
     (case set_up_flags k le name cname fd os of
        (None, os) \<Rightarrow> (None, os)
      | (Some result, os) \<Rightarrow> (Some result, snd (sys k (Sys_close fd) os)))))"

section \<open>Laws\<close>

lemma length_ne [simp]: "length (ne le bs) = length bs"
  by (simp add: ne_def)

lemma tun_request_some:
  assumes "length name \<le> 16"
  shows "tun_request le name = Some (name @ replicate (16 - length name) 0 @ ne le (to_be16 0x1001) @ replicate 22 0)"
proof -
  have "copy_from_slice (replicate 40 (0 :: u8)) 0 (length name) name = Some (name @ replicate (40 - length name) 0)"
    using assms by (simp add: rust_ok blit_def)
  moreover have "name @ replicate (40 - length name) (0 :: u8) = (name @ replicate (16 - length name) 0) @ replicate 24 0"
    using assms by (simp flip: replicate_add)
  ultimately show ?thesis
    using assms by (simp add: tun_request_def rust_ok min_absorb2 IFF_TUN_def IFF_NO_PI_def)
      (simp add: blit_def)
qed

lemma tun_request_none: "16 < length name \<Longrightarrow> tun_request le name = None"
  by (auto simp: tun_request_def copy_from_slice_def)

lemma length_cstring: "cstring s = Some c \<Longrightarrow> length c = length s"
  by (auto simp: cstring_def split: if_splits)

lemma tun_create_returns:
  assumes "length name \<le> 16"
  shows "\<exists>r os'. tun_create k le name os = (Some r, os')"
proof (cases "cstring name")
  case (Some c)
  obtain r os1 where s: "sys k (Sys_open ''/dev/net/tun'') os = (r, os1)" by fastforce
  have "tun_request le c \<noteq> None" using assms length_cstring [OF Some] by (simp add: tun_request_some)
  then show ?thesis using Some s
    by (auto simp: tun_create_def Let_def split: sys_result.splits prod.splits)
qed (simp add: tun_create_def)

lemma set_up_returns:
  assumes "length name \<le> 40"
  shows "\<exists>r os'. set_up k le name os = (Some r, os')"
proof (cases "cstring name")
  case (Some c)
  have "copy_from_slice (replicate 40 0) 0 (length c) c \<noteq> None"
    using assms length_cstring [OF Some] by (simp add: copy_from_slice_def)
  then have "\<exists>r os'. set_up_flags k le name c fd os1 = (Some r, os')" for fd os1
    by (auto simp: set_up_flags_def Let_def split: sys_result.splits prod.splits)
  then have "fst (set_up_flags k le name c fd os1) \<noteq> None" for fd os1 by (metis fst_conv option.distinct(1))
  with Some show ?thesis
    by (auto simp: set_up_def split: sys_result.splits prod.splits option.splits) (metis fst_conv option.distinct(1))+
qed (simp add: set_up_def)

lemma set_nonblocking_fds:
  assumes "set_nonblocking k t os = (r, os')"
  shows "os_fds os' = os_fds os"
proof -
  obtain r1 os1 where s1: "sys k (Sys_fcntl_getfl (tun_fd t)) os = (r1, os1)" by fastforce
  show ?thesis
  proof (cases r1)
    case (Ret n d)
    obtain r2 os2 where s2: "sys k (Sys_fcntl_setfl (tun_fd t) (of_nat n OR 0x800)) os1 = (r2, os2)" by fastforce
    then show ?thesis using assms s1 Ret sys_outcome(2) [OF s1] sys_outcome(2) [OF s2]
      by (cases r2) (simp_all add: set_nonblocking_def)
  qed (use assms s1 sys_outcome(2) [OF s1] in \<open>simp add: set_nonblocking_def\<close>)
qed

lemma set_up_flags_fds:
  assumes "set_up_flags k le name c fd os = (r, os')"
  shows "os_fds os' = os_fds os"
proof (cases "copy_from_slice (replicate 40 0) 0 (length c) c")
  case (Some ifr)
  obtain r1 os1 where s1: "sys k (Sys_ioctl fd SIOCGIFFLAGS ifr) os = (r1, os1)" by fastforce
  show ?thesis
  proof (cases r1)
    case (Ret n d)
    let ?b = "blit 0 d ifr"
    let ?req = "blit 16 (ne le (to_be16 (from_ne16 le [?b ! 16, ?b ! 17] OR IFF_UP))) ?b"
    obtain r2 os2 where s2: "sys k (Sys_ioctl fd SIOCSIFFLAGS ?req) os1 = (r2, os2)" by fastforce
    have "os_fds os2 = os_fds os" using sys_outcome(2) [OF s1] sys_outcome(2) [OF s2] by simp
    moreover have "os' = os2" using assms Some s1 Ret s2
      by (cases r2) (simp_all add: set_up_flags_def Let_def del: from_ne16.simps)
    ultimately show ?thesis by simp
  qed (use assms Some s1 sys_outcome(2) [OF s1] in \<open>simp add: set_up_flags_def\<close>)
qed (use assms in \<open>simp add: set_up_flags_def\<close>)

lemma set_up_fds:
  assumes "fresh_fds k" "set_up k le name os = (Some r, os')"
  shows "os_fds os' = os_fds os"
proof (cases "cstring name")
  case (Some c)
  obtain r1 os1 where s: "sys k (Sys_socket 2 2 0) os = (r1, os1)" by fastforce
  note f1 = sys_outcome(2) [OF s]
  show ?thesis
  proof (cases r1)
    case (Fail e)
    then show ?thesis using assms(2) Some s f1 by (auto simp: set_up_def)
  next
    case (Ret fd d)
    obtain r2 os2 where f: "set_up_flags k le name c fd os1 = (r2, os2)" by fastforce
    have "fd \<notin> os_fds os" using fresh_fdsD [OF assms(1), of "Sys_socket 2 2 0"] s Ret by simp
    then show ?thesis using assms(2) Some s f1 Ret f set_up_flags_fds [OF f]
      by (cases r2) (auto simp: set_up_def)
  qed
qed (use assms(2) in \<open>simp add: set_up_def\<close>)

text \<open>What \<open>TUNSETIFF\<close> is documented to do with a plain name: leave it in the request.\<close>

definition keeps_names :: "kernel \<Rightarrow> bool" where
  "keeps_names k \<longleftrightarrow> (\<forall>os fd b n d. k os (Sys_ioctl fd TUNSETIFF b) = Ret n d \<longrightarrow> take 16 (blit 0 d b) = take 16 b)"

section \<open>Properties\<close>

lemma char_of_u8 [simp]: "char_of (unat (of_char c :: u8)) = c"
proof -
  have "(of_char c :: nat) < 256" by (rule nat_of_char_less_256)
  then have "unat (of_nat (of_char c) :: u8) = of_char c" by (rule unat_of_nat_u8)
  then show ?thesis by (simp add: of_nat_of_char)
qed

lemma of_char_u8_zero: "of_char c = (0 :: u8) \<longleftrightarrow> c = CHR 0x00"
proof
  assume "of_char c = (0 :: u8)"
  then have "c = char_of (0 :: nat)" using char_of_u8 [of c] by simp
  then show "c = CHR 0x00" by (simp add: char_of_def)
qed simp

lemma utf8_lossy_ascii: "\<forall>b \<in> set bs. b < 0x80 \<Longrightarrow> utf8_lossy bs = bs"
  by (induction bs) (simp_all add: utf8_char_def utf8_width_def)

lemma assigned_name_of:
  assumes "cstring name = Some c" "length name \<le> 16" "utf8_lossy c = c"
  shows "assigned_name (c @ replicate (16 - length c) 0 @ rest) = name"
proof -
  have c: "c = map of_char name" "CHR 0x00 \<notin> set name" using assms(1) by (auto simp: cstring_def split: if_splits)
  then have "takeWhile (\<lambda>b. b \<noteq> (0 :: u8)) (c @ replicate (16 - length c) 0) = c"
    by (subst takeWhile_append2) (auto simp: of_char_u8_zero)
  moreover have "take 16 (c @ replicate (16 - length c) 0 @ rest) = c @ replicate (16 - length c) 0"
    using assms(2) c(1) by simp
  ultimately show ?thesis using assms(3) by (simp add: assigned_name_def c(1) comp_def)
qed

lemma tun_create_keeps_name:
  assumes "keeps_names k" "cstring name = Some c" "length name \<le> 16" "utf8_lossy c = c"
    and "tun_create k le name os = (Some (Inr t), os')"
  shows "tun_name t = name"
proof -
  obtain req where req: "tun_request le c = Some req"
    "req = c @ replicate (16 - length c) 0 @ ne le (to_be16 0x1001) @ replicate 22 0"
    using tun_request_some assms(3) length_cstring [OF assms(2)] by auto
  obtain fd n d os1 where "k os1 (Sys_ioctl fd TUNSETIFF req) = Ret n d" "tun_name t = assigned_name (blit 0 d req)"
    using assms(2,5) req(1)
    by (fastforce simp: tun_create_def Let_def split: sys_result.splits prod.splits if_splits dest: sys_outcome(1))
  then have "tun_name t = assigned_name req"
    using assms(1) by (simp add: keeps_names_def assigned_name_def)
  then show ?thesis using assigned_name_of [OF assms(2-4)] by (simp add: req(2))
qed

text \<open>C36: Creating the device panics on exactly the names that are too long: with no NUL in the name and
  \<open>/dev/net/tun\<close> opened, a name of more than 16 bytes makes \<open>copy_from_slice\<close> panic; every other
  call returns.\<close>

theorem tun_create_panics_iff:
  "fst (tun_create k le name os) = None \<longleftrightarrow>
     cstring name \<noteq> None \<and> (\<exists>fd d. k os (Sys_open ''/dev/net/tun'') = Ret fd d) \<and> 16 < length name"
proof (cases "cstring name")
  case (Some c)
  note l = length_cstring [OF Some]
  obtain r os1 where s: "sys k (Sys_open ''/dev/net/tun'') os = (r, os1)" by fastforce
  have r: "k os (Sys_open ''/dev/net/tun'') = r" by (rule sys_outcome(1) [OF s])
  show ?thesis
  proof (cases "16 < length name")
    case True
    then show ?thesis using Some l
      by (simp add: tun_create_def s r tun_request_none split: sys_result.splits)
  next
    case False
    then show ?thesis using Some l
      by (simp add: tun_create_def s r tun_request_some Let_def split: sys_result.splits prod.splits)
  qed
qed (simp add: tun_create_def)

text \<open>The descriptor of the device.  Creation returns a device that owns one new descriptor, or it
  leaves the descriptors as they were, whichever way it fails, a panic included.\<close>

theorem tun_create_owns_fd:
  assumes "fresh_fds k"
  shows "case tun_create k le name os of
      (Some (Inr t), os') \<Rightarrow> tun_fd t \<notin> os_fds os \<and> os_fds os' = insert (tun_fd t) (os_fds os)
    | (_, os') \<Rightarrow> os_fds os' = os_fds os"
proof (cases "cstring name")
  case (Some c)
  obtain r os1 where s: "sys k (Sys_open ''/dev/net/tun'') os = (r, os1)" by fastforce
  show ?thesis
  proof (cases r)
    case (Fail e)
    then show ?thesis using Some s sys_outcome(2) [OF s] by (simp add: tun_create_def)
  next
    case (Ret fd d)
    then have fd: "fd \<notin> os_fds os" "os_fds os1 = insert fd (os_fds os)"
      using fresh_fdsD [OF assms, of "Sys_open ''/dev/net/tun''" os fd d os1] s sys_outcome(2) [OF s] by simp_all
    show ?thesis
    proof (cases "tun_request le c")
      case None
      then show ?thesis using Some s Ret fd by (simp add: tun_create_def)
    next
      case ifr: (Some ifr)
      obtain r2 os2 where s2: "sys k (Sys_ioctl fd TUNSETIFF ifr) os1 = (r2, os2)" by fastforce
      then have "os_fds os2 = insert fd (os_fds os)" using sys_outcome(2) [OF s2] fd by simp
      then show ?thesis using Some s Ret fd s2 ifr
        by (cases r2) (simp_all add: tun_create_def Let_def)
    qed
  qed
qed (simp add: tun_create_def)

lemma tun_create_owns_fd_witness:
  "case tun_create (easy_kernel []) True ''netmux0'' os0 of
      (Some (Inr t), os') \<Rightarrow> os_fds os' = {tun_fd t} | (_, os') \<Rightarrow> os_fds os' = {}"
  using tun_create_owns_fd [OF easy_kernel_fresh [of "[]"], where os = os0 and le = True and name = "''netmux0''"]
  by (simp add: os0_def split: prod.splits option.splits sum.splits)

text \<open>The request.  For a name of at most 16 bytes the \<open>ifreq\<close> given to \<open>TUNSETIFF\<close> is the name padded
  with zeros to 16 bytes, the flags \<open>IFF_TUN | IFF_NO_PI\<close> in host order and zeros; when the kernel
  accepts it and keeps the name, the device carries the name that was asked for (which is UTF-8, as
  every \<open>str\<close> is).\<close>

theorem tun_create_request:
  assumes "cstring name = Some c" and "length name \<le> 16" and "utf8_lossy c = c"
    and "sys k (Sys_open ''/dev/net/tun'') os = (Ret fd d, os1)"
    and "sys k (Sys_ioctl fd TUNSETIFF (c @ replicate (16 - length name) 0 @ (if le then [0x01, 0x10] else [0x10, 0x01])
           @ replicate 22 0)) os1 = (Ret n [], os2)"
  shows "tun_create k le name os = (Some (Inr \<lparr>tun_fd = fd, tun_name = name\<rparr>), os2)"
proof -
  let ?rest = "(if le then [0x01, 0x10] else [0x10, 0x01]) @ replicate 22 (0 :: u8)"
  have l: "length c = length name" by (rule length_cstring [OF assms(1)])
  have "ne le (to_be16 0x1001) = (if le then [0x01, 0x10] else [0x10, 0x01])"
    by (simp add: ne_def to_be16_def)
  then have "tun_request le c = Some (c @ replicate (16 - length c) 0 @ ?rest)"
    using assms(2) by (simp add: tun_request_some l)
  then show ?thesis
    using assms assigned_name_of [OF assms(1-3), of ?rest]
    by (simp add: tun_create_def l blit_def)
qed

lemma netmux0_cstring: "cstring ''netmux0'' = Some [0x6e, 0x65, 0x74, 0x6d, 0x75, 0x78, 0x30]"
  by (simp add: cstring_def)

lemma netmux0_utf8: "utf8_lossy [0x6e, 0x65, 0x74, 0x6d, 0x75, 0x78, 0x30] = [0x6e, 0x65, 0x74, 0x6d, 0x75, 0x78, 0x30]"
  by (rule utf8_lossy_ascii) simp

lemma tun_create_request_witness:
  "\<exists>os'. tun_create (easy_kernel []) True ''netmux0'' os0 = (Some (Inr \<lparr>tun_fd = 3, tun_name = ''netmux0''\<rparr>), os')"
proof -
  let ?k = "easy_kernel []" and ?os1 = "\<lparr>os_fds = {3}, os_errno = 0, os_trace = [Sys_open ''/dev/net/tun'']\<rparr>"
  have s1: "sys ?k (Sys_open ''/dev/net/tun'') os0 = (Ret 3 [], ?os1)"
    by (simp add: sys_def os0_def easy_kernel_def)
  obtain os2 where "sys ?k (Sys_ioctl 3 TUNSETIFF ([0x6e, 0x65, 0x74, 0x6d, 0x75, 0x78, 0x30] @
      replicate (16 - length ''netmux0'') 0 @ (if True then [0x01, 0x10] else [0x10, 0x01]) @ replicate 22 0)) ?os1
      = (Ret 1 [], os2)"
    by (simp add: sys_def easy_kernel_def)
  from tun_create_request [OF netmux0_cstring _ netmux0_utf8 s1 this] show ?thesis by auto
qed

text \<open>Bringing the device up.  For a name of at most 40 bytes the flags the kernel reports are written
  back with \<open>IFF_UP\<close> added and every other byte of the request as the kernel returned it, the call
  succeeds exactly when the kernel accepts that, and the control socket is closed again.\<close>

theorem set_up_sets_up_flag:
  assumes "cstring name = Some c" and "length name \<le> 40" and "fresh_fds k"
    and "sys k (Sys_socket 2 2 0) os = (Ret fd d, os1)"
    and "sys k (Sys_ioctl fd SIOCGIFFLAGS (c @ replicate (40 - length name) 0)) os1 = (Ret n ifr, os2)"
    and "length ifr = 40"
  shows "\<exists>req. take 16 req = take 16 ifr \<and> drop 18 req = drop 18 ifr
    \<and> from_ne16 le [req ! 16, req ! 17] = (from_ne16 le [ifr ! 16, ifr ! 17] OR 1)
    \<and> fst (set_up k le name os) =
        Some (case k os2 (Sys_ioctl fd SIOCSIFFLAGS req) of
            Ret m e \<Rightarrow> Inr () | Fail e \<Rightarrow> Inl (Io (''ioctl(SIOCSIFFLAGS) for '' @ name) (Os_Error e)))
    \<and> os_fds (snd (set_up k le name os)) = os_fds os"
proof -
  let ?flags = "from_ne16 le [ifr ! 16, ifr ! 17] OR 1"
  let ?req = "blit 16 (ne le (to_be16 ?flags)) ifr"
  have l: "length c = length name" by (rule length_cstring [OF assms(1)])
  have cp: "copy_from_slice (replicate 40 (0 :: u8)) 0 (length c) c = Some (c @ replicate (40 - length name) 0)"
    using assms(2) by (simp add: l rust_ok blit_def)
  have b: "blit 0 ifr (c @ replicate (40 - length name) 0) = ifr"
    using assms(2,6) by (simp add: blit_def l)
  obtain r os3 where s3: "sys k (Sys_ioctl fd SIOCSIFFLAGS ?req) os2 = (r, os3)" by fastforce
  have fds: "os_fds os3 = insert fd (os_fds os)" "fd \<notin> os_fds os"
    using sys_outcome(2) [OF s3] sys_outcome(2) [OF assms(5)] sys_outcome(2) [OF assms(4)]
      fresh_fdsD [OF assms(3,4)] by simp_all
  have flags: "set_up_flags k le name c fd os1 =
      (Some (case r of Ret m e \<Rightarrow> Inr () | Fail e \<Rightarrow> Inl (Io (''ioctl(SIOCSIFFLAGS) for '' @ name) (Os_Error e))), os3)"
  proof (cases r)
    case (Fail e)
    have "last_os_error os3 = Os_Error e"
      using s3 Fail by (auto simp: sys_def Let_def last_os_error_def)
    with Fail show ?thesis using s3 by (simp add: set_up_flags_def cp assms(5) b Let_def IFF_UP_def del: from_ne16.simps)
  next
    case (Ret m e)
    then show ?thesis using s3 by (simp add: set_up_flags_def cp assms(5) b Let_def IFF_UP_def del: from_ne16.simps)
  qed
  obtain x y where xy: "to_be16 ?flags = [x, y]" "be16 x y = ?flags" using to_be16_cases by blast
  have "from_ne16 le [?req ! 16, ?req ! 17] = ?flags"
    using xy assms(6) by (simp add: ne_def nth_blit)
  moreover have "take 16 ?req = take 16 ifr" "drop 18 ?req = drop 18 ifr"
    using assms(6) by (simp_all add: take_blit_before drop_blit_after)
  ultimately show ?thesis
    using assms(1,4) flags sys_outcome(1) [OF s3] fds
    by (intro exI [of _ ?req]) (simp add: set_up_def del: from_ne16.simps)
qed

definition echo_kernel :: kernel where
  "echo_kernel os c = (case c of Sys_ioctl fd r b \<Rightarrow> Ret 0 b | _ \<Rightarrow> easy_kernel [] os c)"

lemma echo_kernel_fresh: "fresh_fds echo_kernel"
proof -
  have "echo_kernel os c = easy_kernel [] os c" if "opens c" for os c
    using that by (cases c) (simp_all add: echo_kernel_def)
  then show ?thesis using easy_kernel_fresh [of "[]"] by (simp add: fresh_fds_def)
qed

lemma set_up_sets_up_flag_witness:
  "fst (set_up echo_kernel True ''netmux0'' os0) = Some (Inr ())
   \<and> os_fds (snd (set_up echo_kernel True ''netmux0'' os0)) = {}"
proof -
  let ?ifr = "[0x6e, 0x65, 0x74, 0x6d, 0x75, 0x78, 0x30] @ replicate (40 - length ''netmux0'') (0 :: u8)"
  let ?os1 = "\<lparr>os_fds = {3}, os_errno = 0, os_trace = [Sys_socket 2 2 0]\<rparr>"
  have s1: "sys echo_kernel (Sys_socket 2 2 0) os0 = (Ret 3 [], ?os1)"
    by (simp add: sys_def os0_def easy_kernel_def echo_kernel_def)
  obtain os2 where s2: "sys echo_kernel (Sys_ioctl 3 SIOCGIFFLAGS ?ifr) ?os1 = (Ret 0 ?ifr, os2)"
    by (simp add: sys_def echo_kernel_def)
  have "echo_kernel os2 (Sys_ioctl 3 SIOCSIFFLAGS req) = Ret 0 req" for req by (simp add: echo_kernel_def)
  with set_up_sets_up_flag [OF netmux0_cstring _ echo_kernel_fresh s1 s2, of True] show ?thesis
    by (auto simp: os0_def)
qed

end
