(* ===== verification/Data_Plane.thy ===== *)
theory Data_Plane
  imports Aggregator Nat_Table Egress Tun
begin

text \<open>
  The data plane of \<open>main.rs\<close>: the bodies of \<open>egress_loop\<close> and \<open>capture_loop\<close>, cut at the points
  where a lock is taken or released, and the threads running them.  \<open>dp_step\<close> interleaves the egress
  thread, one capture thread per interface and the UI thread at that granularity: a block between two
  cuts holds at most one mutex and is atomic for the others.  \<open>ips\<close> and \<open>socks\<close> are the two maps
  that \<open>start_data_plane\<close> hands to the egress thread.  \<open>dp_inv\<close> is the invariant of the interleaving,
  \<open>counters_ok\<close> that of the counters, and the ranks at the end bound an iteration.
\<close>

section \<open>The egress loop\<close>

text \<open>From a packet read off the TUN to the egress interface: parse, route under the aggregator's lock,
  look the interface up.\<close>

definition egress_pick ::
    "(string, ipv4) hmap \<Rightarrow> (string, raw_egress) hmap \<Rightarrow> bytes \<Rightarrow> aggregator \<Rightarrow>
     ((flow \<times> string \<times> ipv4 \<times> raw_egress \<times> ipv4) option \<times> aggregator) rust" where
  "egress_pick ips socks pkt ag = do {
     parsed \<leftarrow> parse pkt;
     (case parsed of
        None \<Rightarrow> Some (None, ag)
      | Some f \<Rightarrow> do {
          (d, ag') \<leftarrow> route pkt ag;
          Some (do {
            dec \<leftarrow> d;
            iface \<leftarrow> fd_interface dec;
            egress_ip \<leftarrow> hm_get ips iface;
            sock \<leftarrow> hm_get socks iface;
            dst \<leftarrow> ipv4_from_str (fl_dst f);
            Some (f, iface, egress_ip, sock, dst) }, ag') }) }"

text \<open>The session is registered under the NAT lock; then a copy of the packet is rewritten.\<close>

definition egress_rewrite :: "bytes \<Rightarrow> ipv4 \<Rightarrow> bytes option rust" where
  "egress_rewrite pkt egress_ip = do {
     (out, ok) \<leftarrow> rewrite_ipv4_source pkt egress_ip;
     Some (if ok then Some out else None) }"

section \<open>The capture loop\<close>

definition capture_parse :: "bytes \<Rightarrow> (flow \<times> ipv4 \<times> ipv4) option rust" where
  "capture_parse pkt =
     (if length pkt < 20 then Some None
      else do {
        b0 \<leftarrow> idx pkt 0;
        if drop_bit 4 b0 \<noteq> 4 then Some None
        else do {
          parsed \<leftarrow> parse pkt;
          Some (do {
            f \<leftarrow> parsed;
            src_ip \<leftarrow> ipv4_from_str (fl_src f);
            dst_ip \<leftarrow> ipv4_from_str (fl_dst f);
            Some (f, src_ip, dst_ip) }) } })"

definition capture_lookup :: "flow \<Rightarrow> ipv4 \<Rightarrow> ipv4 \<Rightarrow> nat_table \<Rightarrow> session option" where
  "capture_lookup f src_ip dst_ip t =
     lookup_return (fl_proto f) src_ip (fl_sport f) dst_ip (fl_dport f) t"

definition capture_rewrite :: "bytes \<Rightarrow> session \<Rightarrow> bytes option rust" where
  "capture_rewrite pkt s = do {
     (out, ok) \<leftarrow> rewrite_ipv4_dest pkt (ses_client_ip s);
     Some (if ok then Some out else None) }"

section \<open>The threads\<close>

record world =
  w_agg :: aggregator
  w_nat :: nat_table
  w_tx_packets :: u64
  w_tx_bytes :: u64
  w_rx_packets :: u64
  w_sent :: "(string \<times> ipv4 \<times> bytes) list"
  w_injected :: "bytes list"

datatype egress_pc =
    E_Read
  | E_Got bytes
  | E_Picked bytes flow string ipv4 ipv4
  | E_Registered bytes string ipv4 ipv4
  | E_Out bytes string ipv4
  | E_Sent nat
  | E_Counted nat
  | E_Panicked

datatype capture_pc =
    C_Recv
  | C_Got bytes
  | C_Parsed bytes flow ipv4 ipv4
  | C_Session bytes session
  | C_Out bytes
  | C_Written
  | C_Panicked

type_synonym dp_state = "world \<times> egress_pc \<times> (string \<Rightarrow> capture_pc)"

inductive egress_step ::
    "(string, ipv4) hmap \<Rightarrow> (string, raw_egress) hmap \<Rightarrow> world \<times> egress_pc \<Rightarrow> world \<times> egress_pc \<Rightarrow> bool"
  for ips socks where
  e_read: "pkt \<noteq> [] \<Longrightarrow> length pkt \<le> MAX_PACKET \<Longrightarrow> egress_step ips socks (w, E_Read) (w, E_Got pkt)"
| e_pick_panic: "egress_pick ips socks pkt (w_agg w) = None \<Longrightarrow>
    egress_step ips socks (w, E_Got pkt) (w, E_Panicked)"
| e_skip: "egress_pick ips socks pkt (w_agg w) = Some (None, ag') \<Longrightarrow>
    egress_step ips socks (w, E_Got pkt) (w\<lparr>w_agg := ag'\<rparr>, E_Read)"
| e_pick: "egress_pick ips socks pkt (w_agg w) = Some (Some (f, iface, ip, sock, dst), ag') \<Longrightarrow>
    egress_step ips socks (w, E_Got pkt) (w\<lparr>w_agg := ag'\<rparr>, E_Picked pkt f iface ip dst)"
| e_unregistered: "register f iface ip (w_nat w) = (None, t') \<Longrightarrow>
    egress_step ips socks (w, E_Picked pkt f iface ip dst) (w\<lparr>w_nat := t'\<rparr>, E_Read)"
| e_register: "register f iface ip (w_nat w) = (Some s, t') \<Longrightarrow>
    egress_step ips socks (w, E_Picked pkt f iface ip dst) (w\<lparr>w_nat := t'\<rparr>, E_Registered pkt iface ip dst)"
| e_rewrite_panic: "egress_rewrite pkt ip = None \<Longrightarrow>
    egress_step ips socks (w, E_Registered pkt iface ip dst) (w, E_Panicked)"
| e_rewrite_no: "egress_rewrite pkt ip = Some None \<Longrightarrow>
    egress_step ips socks (w, E_Registered pkt iface ip dst) (w, E_Read)"
| e_rewrite: "egress_rewrite pkt ip = Some (Some out) \<Longrightarrow>
    egress_step ips socks (w, E_Registered pkt iface ip dst) (w, E_Out out iface dst)"
| e_send_failed: "egress_step ips socks (w, E_Out out iface dst) (w, E_Read)"
| e_send: "egress_step ips socks (w, E_Out out iface dst)
    (w\<lparr>w_sent := w_sent w @ [(iface, dst, out)]\<rparr>, E_Sent (length out))"
| e_count_packet: "egress_step ips socks (w, E_Sent n) (w\<lparr>w_tx_packets := w_tx_packets w + 1\<rparr>, E_Counted n)"
| e_count_bytes: "egress_step ips socks (w, E_Counted n) (w\<lparr>w_tx_bytes := w_tx_bytes w + of_nat n\<rparr>, E_Read)"

inductive capture_step :: "world \<times> capture_pc \<Rightarrow> world \<times> capture_pc \<Rightarrow> bool" where
  c_recv: "length pkt + 14 \<le> 65536 \<Longrightarrow> capture_step (w, C_Recv) (w, C_Got pkt)"
| c_parse_panic: "capture_parse pkt = None \<Longrightarrow> capture_step (w, C_Got pkt) (w, C_Panicked)"
| c_skip: "capture_parse pkt = Some None \<Longrightarrow> capture_step (w, C_Got pkt) (w, C_Recv)"
| c_parse: "capture_parse pkt = Some (Some (f, src, dst)) \<Longrightarrow> capture_step (w, C_Got pkt) (w, C_Parsed pkt f src dst)"
| c_unknown: "capture_lookup f src dst (w_nat w) = None \<Longrightarrow> capture_step (w, C_Parsed pkt f src dst) (w, C_Recv)"
| c_lookup: "capture_lookup f src dst (w_nat w) = Some s \<Longrightarrow> capture_step (w, C_Parsed pkt f src dst) (w, C_Session pkt s)"
| c_rewrite_panic: "capture_rewrite pkt s = None \<Longrightarrow> capture_step (w, C_Session pkt s) (w, C_Panicked)"
| c_rewrite_no: "capture_rewrite pkt s = Some None \<Longrightarrow> capture_step (w, C_Session pkt s) (w, C_Recv)"
| c_rewrite: "capture_rewrite pkt s = Some (Some out) \<Longrightarrow> capture_step (w, C_Session pkt s) (w, C_Out out)"
| c_write_failed: "capture_step (w, C_Out out) (w, C_Recv)"
| c_write: "capture_step (w, C_Out out) (w\<lparr>w_injected := w_injected w @ [out]\<rparr>, C_Written)"
| c_count: "capture_step (w, C_Written) (w\<lparr>w_rx_packets := w_rx_packets w + 1\<rparr>, C_Recv)"

inductive dp_step :: "(string, ipv4) hmap \<Rightarrow> (string, raw_egress) hmap \<Rightarrow> dp_state \<Rightarrow> dp_state \<Rightarrow> bool"
  for ips socks where
  dp_egress: "egress_step ips socks (w, e) (w', e') \<Longrightarrow> dp_step ips socks (w, e, c) (w', e', c)"
| dp_capture: "capture_step (w, c i) (w', p) \<Longrightarrow> dp_step ips socks (w, e, c) (w', e, c(i := p))"
| dp_ui: "agg_step (w_agg w) ag' \<Longrightarrow> dp_step ips socks (w, e, c) (w\<lparr>w_agg := ag'\<rparr>, e, c)"
| dp_rehash: "rehashed (w_nat w) t' \<Longrightarrow> dp_step ips socks (w, e, c) (w\<lparr>w_nat := t'\<rparr>, e, c)"

inductive_cases egress_stepE: "egress_step ips socks (w, e) (w', e')"
inductive_cases capture_stepE: "capture_step (w, p) (w', p')"
inductive_cases dp_stepE: "dp_step ips socks (w, e, c) s'"

definition dp_init :: "dp_state \<Rightarrow> bool" where
  "dp_init s \<longleftrightarrow> (\<exists>ag. agg_init ag \<and> s = (\<lparr>w_agg = ag, w_nat = nat_new, w_tx_packets = 0, w_tx_bytes = 0,
     w_rx_packets = 0, w_sent = [], w_injected = []\<rparr>, E_Read, \<lambda>i. C_Recv))"

section \<open>What the blocks produce\<close>

lemma rewrite_source_returns: "\<exists>r. egress_rewrite pkt ip = Some r"
  by (simp add: egress_rewrite_def rewrite_ipv4_source_eq Let_def)

lemma rewrite_dest_returns: "\<exists>r. capture_rewrite pkt s = Some r"
  by (simp add: capture_rewrite_def rewrite_ipv4_dest_eq Let_def)

lemma egress_rewrite_iff: "egress_rewrite pkt ip = Some (Some out) \<longleftrightarrow> rewrite_ipv4_source pkt ip = Some (out, True)"
  by (auto simp: egress_rewrite_def split: bind_splits if_splits)

lemma capture_rewrite_iff:
  "capture_rewrite pkt s = Some (Some out) \<longleftrightarrow> rewrite_ipv4_dest pkt (ses_client_ip s) = Some (out, True)"
  by (auto simp: capture_rewrite_def split: bind_splits if_splits)

lemma route_returns: "\<exists>r. route pkt ag = Some r"
  by (cases rule: route_cases [of ag pkt]) auto

lemma egress_pick_returns: "\<exists>r. egress_pick ips socks pkt ag = Some r"
proof -
  obtain r where "parse pkt = Some r" using parse_returns by blast
  moreover obtain d ag' where "route pkt ag = Some (d, ag')" using route_returns by fast
  ultimately show ?thesis by (cases r) (simp_all add: egress_pick_def)
qed

lemma egress_pick_agg:
  assumes "egress_pick ips socks pkt ag = Some (r, ag')"
  shows "ag' = ag \<or> (\<exists>d. route pkt ag = Some (d, ag'))"
proof -
  obtain p where p: "parse pkt = Some p" using parse_returns by blast
  show ?thesis using assms p by (cases p) (auto simp: egress_pick_def split: bind_splits)
qed

lemma egress_pick_Some:
  assumes "egress_pick ips socks pkt ag = Some (Some (f, iface, ip, sock, dst), ag')"
  shows "parse pkt = Some (Some f)" "hm_get ips iface = Some ip" "hm_get socks iface = Some sock"
    "ipv4_from_str (fl_dst f) = Some dst" "\<exists>d. route pkt ag = Some (Some d, ag') \<and> fd_interface d = Some iface"
proof -
  obtain p where p: "parse pkt = Some p" using parse_returns by blast
  obtain g where g: "p = Some g" using assms p by (cases p) (auto simp: egress_pick_def)
  obtain d ag'' where r: "route pkt ag = Some (d, ag'')" using route_returns by fast
  show "parse pkt = Some (Some f)" "hm_get ips iface = Some ip" "hm_get socks iface = Some sock"
    "ipv4_from_str (fl_dst f) = Some dst" "\<exists>d. route pkt ag = Some (Some d, ag') \<and> fd_interface d = Some iface"
    using assms p g r by (auto simp: egress_pick_def split: bind_splits option.splits)
qed

lemma capture_parse_returns: "\<exists>r. capture_parse pkt = Some r"
proof -
  obtain p where "parse pkt = Some p" using parse_returns by blast
  then show ?thesis by (cases "length pkt < 20") (auto simp: capture_parse_def idx_def)
qed

lemma capture_parse_Some:
  assumes "capture_parse pkt = Some (Some (f, src, dst))"
  shows "v4_ok pkt" "20 \<le> ihl_of pkt" "f = v4_flow pkt" "octets src = quad 12 pkt" "octets dst = quad 16 pkt"
proof -
  have l: "pkt \<noteq> []" "drop_bit 4 (pkt ! 0) = 4" and p: "parse pkt = Some (Some f)"
    and ips: "ipv4_from_str (fl_src f) = Some src" "ipv4_from_str (fl_dst f) = Some dst"
    using assms by (auto simp: capture_parse_def idx_def split: if_splits bind_splits option.splits)
  from p have f: "v4_ok pkt" "20 \<le> ihl_of pkt" "f = v4_flow pkt" by (simp_all add: parse_v4_iff [OF l])
  then show "v4_ok pkt" "20 \<le> ihl_of pkt" "f = v4_flow pkt" by simp_all
  show "octets src = quad 12 pkt" "octets dst = quad 16 pkt"
    using ips by (auto simp: f(3) quad_def)
qed

section \<open>The invariant of the data plane\<close>

definition flow_known :: "nat_table \<Rightarrow> flow \<Rightarrow> bool" where
  "flow_known t f \<longleftrightarrow> (\<exists>s \<in> live t. ipv4_from_str (fl_src f) = Some (ses_client_ip s)
     \<and> ipv4_from_str (fl_dst f) = Some (ses_server_ip s) \<and> ses_proto s = fl_proto f
     \<and> ses_client_port s = fl_sport f \<and> ses_server_port s = fl_dport f)"

definition header_ok :: "bytes \<Rightarrow> bool" where
  "header_ok out \<longleftrightarrow> v4_ok out \<and> 20 \<le> ihl_of out \<and> checksum (take (ihl_of out) out) = 0"

definition sent_ok :: "(string, ipv4) hmap \<Rightarrow> nat_table \<Rightarrow> string \<times> ipv4 \<times> bytes \<Rightarrow> bool" where
  "sent_ok ips t = (\<lambda>(iface, dst, out). header_ok out \<and> quad 16 out = octets dst
     \<and> (\<exists>ip. hm_get ips iface = Some ip \<and> quad 12 out = octets ip)
     \<and> (\<exists>s \<in> live t. ses_server_ip s = dst \<and> ses_proto s = out ! 9
          \<and> v4_ports out = (ses_client_port s, ses_server_port s)))"

definition injected_ok :: "nat_table \<Rightarrow> bytes \<Rightarrow> bool" where
  "injected_ok t out \<longleftrightarrow> header_ok out
     \<and> (\<exists>s \<in> live t. quad 16 out = octets (ses_client_ip s) \<and> quad 12 out = octets (ses_server_ip s)
          \<and> ses_proto s = out ! 9 \<and> v4_ports out = (ses_server_port s, ses_client_port s))"

fun egress_pc_ok :: "(string, ipv4) hmap \<Rightarrow> nat_table \<Rightarrow> egress_pc \<Rightarrow> bool" where
  "egress_pc_ok ips t (E_Picked pkt f iface ip dst) \<longleftrightarrow>
     parse pkt = Some (Some f) \<and> hm_get ips iface = Some ip \<and> ipv4_from_str (fl_dst f) = Some dst"
| "egress_pc_ok ips t (E_Registered pkt iface ip dst) \<longleftrightarrow>
     (\<exists>f. parse pkt = Some (Some f) \<and> hm_get ips iface = Some ip \<and> ipv4_from_str (fl_dst f) = Some dst \<and> flow_known t f)"
| "egress_pc_ok ips t (E_Out out iface dst) \<longleftrightarrow> sent_ok ips t (iface, dst, out)"
| "egress_pc_ok ips t E_Panicked \<longleftrightarrow> False"
| "egress_pc_ok ips t _ \<longleftrightarrow> True"

fun capture_pc_ok :: "nat_table \<Rightarrow> capture_pc \<Rightarrow> bool" where
  "capture_pc_ok t (C_Parsed pkt f src dst) \<longleftrightarrow> capture_parse pkt = Some (Some (f, src, dst))"
| "capture_pc_ok t (C_Session pkt s) \<longleftrightarrow> s \<in> live t \<and>
     (\<exists>f src dst. capture_parse pkt = Some (Some (f, src, dst)) \<and>
        ret_key_of s = (fl_proto f, src, fl_sport f, dst, fl_dport f))"
| "capture_pc_ok t (C_Out out) \<longleftrightarrow> injected_ok t out"
| "capture_pc_ok t C_Panicked \<longleftrightarrow> False"
| "capture_pc_ok t _ \<longleftrightarrow> True"

definition world_ok :: "(string, ipv4) hmap \<Rightarrow> world \<Rightarrow> bool" where
  "world_ok ips w \<longleftrightarrow> agg_ok (w_agg w) \<and> nat_ok (w_nat w)
     \<and> (\<forall>x \<in> set (w_sent w). sent_ok ips (w_nat w) x) \<and> (\<forall>x \<in> set (w_injected w). injected_ok (w_nat w) x)"

definition dp_inv :: "(string, ipv4) hmap \<Rightarrow> dp_state \<Rightarrow> bool" where
  "dp_inv ips = (\<lambda>(w, e, c). world_ok ips w \<and> egress_pc_ok ips (w_nat w) e \<and> (\<forall>i. capture_pc_ok (w_nat w) (c i)))"

text \<open>Sessions only accumulate, so what refers to them stays true.\<close>

named_theorems live_mono "facts that survive new sessions"

lemma sent_ok_mono [live_mono]: "live t \<subseteq> live t' \<Longrightarrow> sent_ok ips t x \<Longrightarrow> sent_ok ips t' x"
  unfolding sent_ok_def by (cases x) blast

lemma injected_ok_mono [live_mono]: "live t \<subseteq> live t' \<Longrightarrow> injected_ok t x \<Longrightarrow> injected_ok t' x"
  unfolding injected_ok_def by blast

lemma flow_known_mono [live_mono]: "live t \<subseteq> live t' \<Longrightarrow> flow_known t f \<Longrightarrow> flow_known t' f"
  unfolding flow_known_def by blast

lemma egress_pc_ok_mono [live_mono]: "live t \<subseteq> live t' \<Longrightarrow> egress_pc_ok ips t e \<Longrightarrow> egress_pc_ok ips t' e"
  using sent_ok_mono flow_known_mono by (cases e) (simp_all, blast+)

lemma capture_pc_ok_mono [live_mono]: "live t \<subseteq> live t' \<Longrightarrow> capture_pc_ok t p \<Longrightarrow> capture_pc_ok t' p"
  using injected_ok_mono by (cases p) (simp_all, blast+)

lemma world_ok_nat:
  assumes "world_ok ips w" "nat_step (w_nat w) t'"
  shows "world_ok ips (w\<lparr>w_nat := t'\<rparr>)" "live (w_nat w) \<subseteq> live t'"
proof -
  have n: "nat_ok (w_nat w)" using assms(1) by (simp add: world_ok_def)
  show l: "live (w_nat w) \<subseteq> live t'" by (rule nat_step_live [OF n assms(2)])
  show "world_ok ips (w\<lparr>w_nat := t'\<rparr>)"
    using assms(1) nat_step_ok [OF n assms(2)] sent_ok_mono [OF l] injected_ok_mono [OF l] by (simp add: world_ok_def)
qed

lemma world_ok_agg: "world_ok ips w \<Longrightarrow> agg_ok ag \<Longrightarrow> world_ok ips (w\<lparr>w_agg := ag\<rparr>)"
  by (simp add: world_ok_def)

lemma rewritten_packet_ok:
  assumes "parse pkt = Some (Some f)" "ipv4_from_str (fl_dst f) = Some dst" "flow_known t f"
    and "hm_get ips iface = Some ip" "rewrite_ipv4_source pkt ip = Some (out, True)"
  shows "sent_ok ips t (iface, dst, out)"
proof -
  have ok: "v4_ok pkt" using assms(5) by (simp add: rewrite_ipv4_source_eq Let_def split: if_splits)
  then have ne: "pkt \<noteq> []" "drop_bit 4 (pkt ! 0) = 4" by (auto simp: v4_ok_def)
  with assms(1) have f: "20 \<le> ihl_of pkt" "f = v4_flow pkt" by (simp_all add: parse_v4_iff)
  note rw = v4_flow_rewrite_source [OF assms(5) ok f(1)]
  have h: "header_ok out"
    using rw(1,2) f(1) rewrite_header_valid(1) [OF assms(5) f(1)] by (simp add: header_ok_def)
  have src: "quad 12 out = octets ip" by (rule rewrite_source_bytes(3) [OF assms(5) f(1)])
  have flow: "fl_dst (v4_flow out) = fl_dst f" "fl_proto (v4_flow out) = fl_proto f"
    "fl_sport (v4_flow out) = fl_sport f" "fl_dport (v4_flow out) = fl_dport f"
    by (simp_all add: rw(3) f(2))
  have "ipv4_from_str (fl_dst (v4_flow out)) = Some dst" using assms(2) by (simp only: flow)
  then have "quad 16 out = octets dst" by (auto simp: quad_def)
  moreover have "\<exists>s \<in> live t. ses_server_ip s = dst \<and> ses_proto s = out ! 9
      \<and> v4_ports out = (ses_client_port s, ses_server_port s)"
    using assms(2,3) flow by (auto simp: flow_known_def v4_flow_def prod_eq_iff)
  ultimately show ?thesis using h src assms(4) by (simp add: sent_ok_def)
qed

lemma reply_packet_ok:
  assumes "capture_parse pkt = Some (Some (f, src, dst))" "s \<in> live t"
    and "ret_key_of s = (fl_proto f, src, fl_sport f, dst, fl_dport f)"
    and "rewrite_ipv4_dest pkt (ses_client_ip s) = Some (out, True)"
  shows "injected_ok t out"
proof -
  note cp = capture_parse_Some [OF assms(1)]
  note rw = v4_flow_rewrite_dest [OF assms(4) cp(1,2)]
  have "header_ok out"
    using rw(1,2) cp(2) rewrite_header_valid(2) [OF assms(4) cp(2)] by (simp add: header_ok_def)
  moreover have "quad 16 out = octets (ses_client_ip s)" by (rule rewrite_dest_bytes(3) [OF assms(4) cp(2)])
  moreover have "quad 12 out = octets (ses_server_ip s)"
    using assms(3) rw(4) cp(4) by (simp add: ret_key_of_def)
  moreover have "ses_proto s = out ! 9" "v4_ports out = (ses_server_port s, ses_client_port s)"
    using assms(3) rw(5,6) cp(3) by (simp_all add: ret_key_of_def v4_flow_def prod_eq_iff)
  ultimately show ?thesis using assms(2) unfolding injected_ok_def by blast
qed

lemma egress_step_inv:
  assumes "egress_step ips socks (w, e) (w', e')" "world_ok ips w" "egress_pc_ok ips (w_nat w) e"
  shows "world_ok ips w' \<and> egress_pc_ok ips (w_nat w') e' \<and> live (w_nat w) \<subseteq> live (w_nat w')"
  using assms(1)
proof (cases rule: egress_step.cases)
  case (e_pick_panic pkt)
  then show ?thesis using egress_pick_returns [of ips socks pkt "w_agg w"] by simp
next
  case (e_skip pkt ag')
  then have "agg_ok ag'"
    using egress_pick_agg [OF e_skip(4)] assms(2) route_ok by (auto simp: world_ok_def)
  then show ?thesis using e_skip assms(2) world_ok_agg by simp
next
  case (e_pick pkt f iface ip sock dst ag')
  then have "agg_ok ag'"
    using egress_pick_agg [OF e_pick(4)] assms(2) route_ok by (auto simp: world_ok_def)
  then show ?thesis using e_pick assms(2) world_ok_agg egress_pick_Some [OF e_pick(4)] by simp
next
  case (e_unregistered f iface ip t' pkt dst)
  then show ?thesis using world_ok_nat [OF assms(2) nat_register] by simp
next
  case (e_register f iface ip s t' pkt dst)
  have w: "w' = w\<lparr>w_nat := t'\<rparr>" "e' = E_Registered pkt iface ip dst" "e = E_Picked pkt f iface ip dst"
    using e_register by simp_all
  have n: "nat_ok (w_nat w)" using assms(2) by (simp add: world_ok_def)
  have r: "register f iface ip (w_nat w) = (Some s, t')" using e_register by simp
  have "flow_known t' f"
    using register_session [OF n r] unfolding flow_known_def by blast
  then show ?thesis using assms(3) world_ok_nat [OF assms(2) nat_register [OF r]] unfolding w by auto
next
  case (e_rewrite_panic pkt ip iface dst)
  then show ?thesis using rewrite_source_returns [of pkt ip] by simp
next
  case (e_rewrite pkt ip out iface dst)
  then show ?thesis using assms(2,3) rewritten_packet_ok by (auto simp: egress_rewrite_iff)
next
  case (e_send out iface dst)
  then show ?thesis using assms(2,3) by (auto simp: world_ok_def)
qed (use assms in \<open>auto simp: world_ok_def\<close>)

lemma capture_step_inv:
  assumes "capture_step (w, p) (w', p')" "world_ok ips w" "capture_pc_ok (w_nat w) p"
  shows "world_ok ips w' \<and> capture_pc_ok (w_nat w') p' \<and> w_nat w' = w_nat w"
  using assms(1)
proof (cases rule: capture_step.cases)
  case (c_parse_panic pkt)
  then show ?thesis using capture_parse_returns [of pkt] by simp
next
  case (c_lookup f src dst s pkt)
  have n: "nat_ok (w_nat w)" using assms(2) by (simp add: world_ok_def)
  have "s \<in> live (w_nat w) \<and> ret_key_of s = (fl_proto f, src, fl_sport f, dst, fl_dport f)"
    using c_lookup(4) by (intro lookup_return_Some [OF n]) (simp add: capture_lookup_def)
  then show ?thesis using c_lookup assms(2,3) by auto
next
  case (c_rewrite_panic pkt s)
  then show ?thesis using rewrite_dest_returns [of pkt s] by simp
next
  case (c_rewrite pkt s out)
  then show ?thesis using assms(2,3) reply_packet_ok by (auto simp: capture_rewrite_iff)
next
  case (c_write out)
  then show ?thesis using assms(2,3) by (auto simp: world_ok_def)
qed (use assms in \<open>auto simp: world_ok_def\<close>)

lemma dp_init_inv: "dp_init s \<Longrightarrow> dp_inv ips s"
  by (auto simp: dp_init_def dp_inv_def world_ok_def agg_new_ok)

lemma dp_step_inv: "dp_inv ips s \<Longrightarrow> dp_step ips socks s s' \<Longrightarrow> dp_inv ips s'"
proof -
  assume inv: "dp_inv ips s" and st: "dp_step ips socks s s'"
  from st show ?thesis
  proof (cases rule: dp_step.cases)
    case (dp_egress w e w' e' c)
    then show ?thesis
      using inv egress_step_inv [OF dp_egress(3)] capture_pc_ok_mono by (fastforce simp: dp_inv_def)
  next
    case (dp_capture w c i w' p e)
    then show ?thesis
      using inv capture_step_inv [OF dp_capture(3), of ips] by (auto simp: dp_inv_def)
  next
    case (dp_ui w ag' e c)
    then show ?thesis using inv agg_step_ok world_ok_agg by (auto simp: dp_inv_def world_ok_def)
  next
    case (dp_rehash w t' e c)
    have w: "world_ok ips w" and pcs: "egress_pc_ok ips (w_nat w) e" "capture_pc_ok (w_nat w) (c i)" for i
      using inv dp_rehash(1) by (simp_all add: dp_inv_def)
    note n = world_ok_nat [OF w nat_rehash [OF dp_rehash(3)]]
    have "egress_pc_ok ips t' e" "capture_pc_ok t' (c i)" for i
      using egress_pc_ok_mono [OF n(2) pcs(1)] capture_pc_ok_mono [OF n(2) pcs(2)] .
    then show ?thesis using n(1) by (simp add: dp_inv_def dp_rehash(2))
  qed
qed

interpretation dp_sys: invariant_system dp_init "dp_step ips socks" "dp_inv ips" for ips socks
  by unfold_locales (fact dp_init_inv, fact dp_step_inv)

section \<open>Counters\<close>

fun e_owes_packet :: "egress_pc \<Rightarrow> u64" where
  "e_owes_packet (E_Sent n) = 1"
| "e_owes_packet _ = 0"

fun e_owes_bytes :: "egress_pc \<Rightarrow> u64" where
  "e_owes_bytes (E_Sent n) = of_nat n"
| "e_owes_bytes (E_Counted n) = of_nat n"
| "e_owes_bytes _ = 0"

definition sent_bytes :: "world \<Rightarrow> nat" where
  "sent_bytes w = sum_list (map (\<lambda>(iface, dst, out). length out) (w_sent w))"

definition counters_ok :: "dp_state \<Rightarrow> bool" where
  "counters_ok = (\<lambda>(w, e, c).
     w_tx_packets w + e_owes_packet e = of_nat (length (w_sent w))
     \<and> w_tx_bytes w + e_owes_bytes e = of_nat (sent_bytes w)
     \<and> finite {i. c i = C_Written}
     \<and> w_rx_packets w + of_nat (card {i. c i = C_Written}) = of_nat (length (w_injected w)))"

lemma egress_step_counters:
  assumes "egress_step ips socks (w, e) (w', e')" "counters_ok (w, e, c)"
  shows "counters_ok (w', e', c)"
  using assms by (cases rule: egress_step.cases) (auto simp: counters_ok_def sent_bytes_def algebra_simps)

lemma capture_step_counters:
  assumes "capture_step (w, c i) (w', p)" "counters_ok (w, e, c)"
  shows "counters_ok (w', e, c(i := p))"
proof -
  have fin: "finite {j. c j = C_Written}" using assms(2) by (simp add: counters_ok_def)
  have other: "{j. (c(i := q)) j = C_Written} = {j. c j = C_Written}" if "c i \<noteq> C_Written" "q \<noteq> C_Written" for q
    using that by auto
  have start: "{j. (c(i := C_Written)) j = C_Written} = insert i {j. c j = C_Written}" by auto
  have stop: "{j. (c(i := C_Recv)) j = C_Written} = {j. c j = C_Written} - {i}" by auto
  from assms(1) show ?thesis
  proof (cases rule: capture_step.cases)
    case (c_write out)
    then have "{j. (c(i := p)) j = C_Written} = insert i {j. c j = C_Written}" "i \<notin> {j. c j = C_Written}"
      using start by auto
    with c_write show ?thesis using assms(2) fin
      by (simp only: counters_ok_def prod.case) (auto simp: sent_bytes_def algebra_simps)
  next
    case c_count
    then have "card {j. c j = C_Written} = Suc (card ({j. c j = C_Written} - {i}))"
      using fin by (intro card.remove) auto
    moreover have "{j. (c(i := p)) j = C_Written} = {j. c j = C_Written} - {i}"
      using c_count stop by auto
    ultimately show ?thesis using c_count assms(2) fin
      by (simp only: counters_ok_def prod.case) (auto simp: sent_bytes_def algebra_simps)
  qed (use assms(2) other in \<open>auto simp: counters_ok_def sent_bytes_def\<close>)
qed

lemma counters_init: "dp_init s \<Longrightarrow> counters_ok s"
  by (auto simp: dp_init_def counters_ok_def sent_bytes_def)

lemma dp_step_counters: "counters_ok s \<Longrightarrow> dp_step ips socks s s' \<Longrightarrow> counters_ok s'"
  by (erule dp_step.cases)
    (auto intro: egress_step_counters capture_step_counters, auto simp: counters_ok_def sent_bytes_def)

interpretation dp_counters: invariant_system dp_init "dp_step ips socks" counters_ok for ips socks
  by unfold_locales (fact counters_init, fact dp_step_counters)

section \<open>Properties\<close>

lemma capture_parse_v4:
  assumes "v4_ok pkt" "20 \<le> ihl_of pkt"
  shows "capture_parse pkt = Some (Some (v4_flow pkt, Ipv4 (pkt ! 12) (pkt ! 13) (pkt ! 14) (pkt ! 15),
    Ipv4 (pkt ! 16) (pkt ! 17) (pkt ! 18) (pkt ! 19)))"
proof -
  have "20 \<le> length pkt" "drop_bit 4 (pkt ! 0) = 4" "pkt \<noteq> []" using assms(1) by (auto simp: v4_ok_def)
  then show ?thesis
    by (simp add: capture_parse_def idx_0 parse_v4_packet [OF assms])
qed

lemma octets_quad: "octets a = quad i pkt \<longleftrightarrow> a = Ipv4 (pkt ! i) (pkt ! (i + 1)) (pkt ! (i + 2)) (pkt ! (i + 3))"
  by (cases a) (auto simp: quad_def)

text \<open>C3: End to end.  A client packet is sent out through an interface; a reply with the endpoints
  swapped comes back to that interface's address.  Whatever happened to the NAT table in between,
  as long as one client address is behind the tunnel and the session lives on this interface, the
  capture loop recognises the reply and hands the client a packet from the server's address and port
  to the client's own address and port, with a valid header checksum.\<close>

theorem nat_end_to_end:
  assumes "nat_step\<^sup>*\<^sup>* nat_new t" and "v4_ok pkt" and "20 \<le> ihl_of pkt"
    and "register (v4_flow pkt) iface ip t = (Some s, t1)" and "ses_egress_ip s = ip"
    and "egress_rewrite pkt ip = Some (Some out)"
    and "nat_step\<^sup>*\<^sup>* t1 t2" and "\<forall>s' \<in> live t2. ses_client_ip s' = ses_client_ip s"
    and "v4_ok q" and "20 \<le> ihl_of q" and "q ! 9 = out ! 9"
    and "quad 12 q = quad 16 out" and "quad 16 q = quad 12 out" and "v4_ports q = prod.swap (v4_ports out)"
  shows "\<exists>f src dst r. capture_parse q = Some (Some (f, src, dst)) \<and> capture_lookup f src dst t2 = Some s
    \<and> capture_rewrite q s = Some (Some r) \<and> header_ok r \<and> r ! 9 = pkt ! 9
    \<and> quad 16 r = quad 12 pkt \<and> quad 12 r = quad 16 pkt \<and> v4_ports r = prod.swap (v4_ports pkt)"
proof -
  let ?src = "Ipv4 (q ! 12) (q ! 13) (q ! 14) (q ! 15)" and ?dst = "Ipv4 (q ! 16) (q ! 17) (q ! 18) (q ! 19)"
  have ok: "nat_ok t" by (rule nat_sys.reachable_inv [OF refl assms(1)])
  note reg = register_session [OF ok assms(4)]
  have ok1: "nat_ok t1" by (rule register_ok [OF ok assms(4)])
  have ok2: "nat_ok t2" by (rule nat_sys.steps_inv [OF assms(7) ok1])
  have rs: "rewrite_ipv4_source pkt ip = Some (out, True)" using assms(6) by (simp only: egress_rewrite_iff)
  note rw = v4_flow_rewrite_source [OF rs assms(2,3)]
  have same: "out ! 9 = pkt ! 9" "v4_ports out = v4_ports pkt" "quad 16 out = quad 16 pkt"
  proof -
    have "fl_proto (v4_flow out) = fl_proto (v4_flow pkt)" "fl_sport (v4_flow out) = fl_sport (v4_flow pkt)"
      "fl_dport (v4_flow out) = fl_dport (v4_flow pkt)" "fl_dst (v4_flow out) = fl_dst (v4_flow pkt)"
      by (simp_all add: rw(3))
    then show "out ! 9 = pkt ! 9" "v4_ports out = v4_ports pkt" "quad 16 out = quad 16 pkt"
      by (simp_all add: v4_flow_def prod_eq_iff show_quad_inject quad_def)
  qed
  have client: "octets (ses_client_ip s) = quad 12 pkt" and server: "octets (ses_server_ip s) = quad 16 pkt"
    using reg(2,3) octets_quad [of "ses_client_ip s" 12 pkt] octets_quad [of "ses_server_ip s" 16 pkt] by simp_all
  have "ip = ?dst" using assms(13) rewrite_source_bytes(3) [OF rs assms(3)] octets_quad [of ip 16 q] by simp
  moreover have "ses_server_ip s = ?src"
    using assms(12) server same(3) octets_quad [of "ses_server_ip s" 12 q] by simp
  ultimately have key: "ret_key_of s = (fl_proto (v4_flow q), ?src, fl_sport (v4_flow q), ?dst, fl_dport (v4_flow q))"
    using reg(4-6) assms(5,11,14) same by (simp add: ret_key_of_def v4_flow_def)
  have s2: "s \<in> live t2" using reg(1) nat_steps_live [OF assms(7) ok1] by blast
  then obtain s' where l: "capture_lookup (v4_flow q) ?src ?dst t2 = Some s'"
    using lookup_return_None [OF ok2] key unfolding capture_lookup_def by (metis not_Some_eq)
  have "s' \<in> live t2 \<and> ret_key_of s' = ret_key_of s"
    unfolding key by (rule lookup_return_Some [OF ok2]) (use l in \<open>simp only: capture_lookup_def\<close>)
  then have "s' = s" using live_inj [OF _ s2] same_session assms(8) by blast
  have parse_q: "capture_parse q = Some (Some (v4_flow q, ?src, ?dst))" by (rule capture_parse_v4 [OF assms(9,10)])
  obtain r where r: "rewrite_ipv4_dest q (ses_client_ip s) = Some (r, True)"
    using assms(9) by (simp add: rewrite_ipv4_dest_eq Let_def)
  note rd = v4_flow_rewrite_dest [OF r assms(9,10)]
  have "header_ok r"
    using rd(1,2) assms(10) rewrite_header_valid(2) [OF r assms(10)] by (simp add: header_ok_def)
  moreover have "quad 16 r = quad 12 pkt" using rewrite_dest_bytes(3) [OF r assms(10)] client by simp
  moreover have "capture_rewrite q s = Some (Some r)" using r by (simp only: capture_rewrite_iff)
  ultimately show ?thesis
    using parse_q l \<open>s' = s\<close> rd(4-6) same assms(11,12,14) by (intro exI conjI) auto
qed

definition reply_sample :: bytes where
  "reply_sample = [0x45, 0, 0, 40, 0, 0, 0, 0, 64, 6, 0, 0, 8, 8, 8, 8, 192, 168, 31, 49,
     1, 0xbb, 0x12, 0x34, 0, 0, 0, 0, 0, 0, 0, 0, 0x50, 2, 0xff, 0xff, 0, 0, 0, 0]"

abbreviation sample_ip :: ipv4 where
  "sample_ip \<equiv> Ipv4 192 168 31 49"

definition tcp_session :: session where
  "tcp_session = new_session (v4_flow tcp_sample) (Ipv4 10 99 0 1) (Ipv4 8 8 8 8) ''eth0'' sample_ip"

lemma tcp_sample_ips:
  "ipv4_from_str (fl_src (v4_flow tcp_sample)) = Some (Ipv4 10 99 0 1)"
  "ipv4_from_str (fl_dst (v4_flow tcp_sample)) = Some (Ipv4 8 8 8 8)"
  by simp_all (simp_all add: tcp_sample_def)

lemma tcp_register:
  "register (v4_flow tcp_sample) ''eth0'' sample_ip nat_new = (Some tcp_session, add_session tcp_session nat_new)"
  by (simp add: register_def parse_ip_def tcp_sample_ips tcp_session_def new_session_def add_session_def Let_def
      nat_new_def out_key_of_def ret_key_of_def del: ipv4_from_str_v4_flow)

lemma reply_sample_fields: "v4_ok reply_sample" "20 \<le> ihl_of reply_sample" "reply_sample ! 9 = 6"
  "quad 12 reply_sample = [8, 8, 8, 8]" "quad 16 reply_sample = [192, 168, 31, 49]" "v4_ports reply_sample = (443, 0x1234)"
  by (simp_all add: reply_sample_def v4_ok_def ihl_of_def quad_def v4_ports_def be16_def)

lemma tcp_sample_fields: "tcp_sample ! 9 = 6" "quad 12 tcp_sample = [10, 99, 0, 1]"
  "quad 16 tcp_sample = [8, 8, 8, 8]" "v4_ports tcp_sample = (0x1234, 443)"
  by (simp_all add: tcp_sample_def ihl_of_def quad_def v4_ports_def be16_def)

lemma tcp_session_key: "ret_key_of tcp_session = (6, Ipv4 8 8 8 8, 443, sample_ip, 0x1234)" "ses_client_ip tcp_session = Ipv4 10 99 0 1"
  by (simp_all add: tcp_session_def new_session_def ret_key_of_def v4_flow_def tcp_sample_fields)

lemma tcp_rewritten: "\<exists>out. rewrite_ipv4_source tcp_sample sample_ip = Some (out, True) \<and> length out = 40"
proof -
  obtain out where rs: "rewrite_ipv4_source tcp_sample sample_ip = Some (out, True)"
    using tcp_sample_ok(1) by (auto simp: rewrite_ipv4_source_eq Let_def)
  with rewrite_source_bytes(2) [OF rs tcp_sample_ok(2)] show ?thesis by (simp add: tcp_sample_def)
qed

lemma nat_end_to_end_witness:
  "\<exists>r. capture_rewrite reply_sample tcp_session = Some (Some r) \<and> quad 16 r = [10, 99, 0, 1] \<and> quad 12 r = [8, 8, 8, 8]"
proof -
  obtain out where rs: "rewrite_ipv4_source tcp_sample sample_ip = Some (out, True)" using tcp_rewritten by blast
  then have eg: "egress_rewrite tcp_sample sample_ip = Some (Some out)" by (simp only: egress_rewrite_iff)
  note rw = v4_flow_rewrite_source [OF rs tcp_sample_ok(1,2)]
  have "live nat_new = {}" by (simp add: live_def nat_new_def)
  then have one: "\<forall>s' \<in> live (add_session tcp_session nat_new). ses_client_ip s' = ses_client_ip tcp_session"
    using live_add [OF nat_new_ok, of tcp_session] by (simp add: nat_new_def)
  have "fl_proto (v4_flow out) = fl_proto (v4_flow tcp_sample)" "fl_sport (v4_flow out) = fl_sport (v4_flow tcp_sample)"
    "fl_dport (v4_flow out) = fl_dport (v4_flow tcp_sample)" "fl_dst (v4_flow out) = fl_dst (v4_flow tcp_sample)"
    by (simp_all add: rw(3))
  then have o: "out ! 9 = 6" "v4_ports out = (0x1234, 443)" "quad 16 out = [8, 8, 8, 8]"
    using tcp_sample_fields by (simp_all add: v4_flow_def prod_eq_iff show_quad_inject quad_def)
  have o12: "quad 12 out = [192, 168, 31, 49]" using rewrite_source_bytes(3) [OF rs tcp_sample_ok(2)] by simp
  have e: "ses_egress_ip tcp_session = sample_ip" by (simp add: tcp_session_def new_session_def)
  from nat_end_to_end [OF rtranclp.rtrancl_refl tcp_sample_ok(1,2) tcp_register e eg rtranclp.rtrancl_refl one
      reply_sample_fields(1,2)]
  show ?thesis by (auto simp: reply_sample_fields o o12 tcp_sample_fields)
qed

section \<open>A complete run\<close>

definition dp_start :: dp_state where
  "dp_start = (\<lparr>w_agg = fresh_agg, w_nat = nat_new, w_tx_packets = 0, w_tx_bytes = 0, w_rx_packets = 0,
     w_sent = [], w_injected = []\<rparr>, E_Read, \<lambda>i. C_Recv)"

lemma dp_start_init: "dp_init dp_start"
  using fresh_agg_init by (auto simp: dp_init_def dp_start_def)

abbreviation sample_ips :: "(string, ipv4) hmap" where
  "sample_ips \<equiv> [(''eth0'', sample_ip)]"

abbreviation sample_socks :: "(string, raw_egress) hmap" where
  "sample_socks \<equiv> [(''eth0'', \<lparr>re_fd = 3, re_ifname = ''eth0''\<rparr>)]"

definition one_link :: aggregator where
  "one_link = inject_sim_candidates [(''eth0'', Ethernet, 30, 3)] fresh_agg"

lemma one_link_pick:
  assumes "agg_ok ag" "cfg_enabled (ag_config ag)" "\<forall>c \<in> set (ag_candidates ag). ci_name c = ''eth0''"
    and "usable (ag_candidates ag) \<noteq> []" "hm_get ips ''eth0'' = Some sample_ip" "hm_get socks ''eth0'' = Some sock"
  shows "\<exists>ag'. egress_pick ips socks tcp_sample ag = Some (Some (v4_flow tcp_sample, ''eth0'', sample_ip, sock, Ipv4 8 8 8 8), ag')"
proof -
  have p: "parse tcp_sample = Some (Some (v4_flow tcp_sample))" by (rule parse_v4_packet [OF tcp_sample_ok(1,2)])
  have dec: "fst (select_interface cfg (ag_candidates ag) k rr) \<noteq> None" for cfg k rr
    using assms(1,4) by (intro select_decides) (auto simp: agg_ok_def)
  show ?thesis
  proof (cases rule: route_cases [of ag tcp_sample])
    case (decided f n ag')
    then have "f = v4_flow tcp_sample" using p by simp
    moreover have "n = ''eth0''" using agg_select_some(1) [OF decided(3)] assms(3) by blast
    ultimately show ?thesis using decided(4) p assms(5,6)
      by (simp add: egress_pick_def tcp_sample_ips del: ipv4_from_str_v4_flow)
  next
    case (undecided f ag')
    then show ?thesis using agg_select_none(2) [OF undecided(3)] dec by blast
  qed (use assms(2) p in simp_all)
qed

lemma injected_link_ok:
  assumes "agg_ok ag" "cfg_enabled (ag_config ag)" "ag' = inject_sim_candidates [(''eth0'', Ethernet, 30, 3)] ag"
  shows "agg_ok ag'" "cfg_enabled (ag_config ag')" "\<forall>c \<in> set (ag_candidates ag'). ci_name c = ''eth0''"
    "usable (ag_candidates ag') \<noteq> []"
  using assms(2) inject_ok [OF assms(1)] unfolding assms(3)
  by (blast, simp_all add: inject_sim_candidates_def usable_def Let_def)

lemma fresh_agg_ok: "agg_ok fresh_agg" "cfg_enabled (ag_config fresh_agg)"
  using agg_new_ok [OF fresh_agg_init] by (blast, simp add: fresh_agg_def default_config_def)

lemmas one_link_ok = injected_link_ok [OF fresh_agg_ok one_link_def]

lemma sample_run:
  "\<exists>ag out r. (dp_step sample_ips sample_socks)\<^sup>*\<^sup>* dp_start
     (\<lparr>w_agg = ag, w_nat = add_session tcp_session nat_new, w_tx_packets = 1, w_tx_bytes = 40, w_rx_packets = 1,
       w_sent = [(''eth0'', Ipv4 8 8 8 8, out)], w_injected = [r]\<rparr>, E_Read, \<lambda>i. C_Recv)"
proof -
  let ?D = "dp_step sample_ips sample_socks" and ?c = "\<lambda>i :: string. C_Recv"
  let ?n = "add_session tcp_session nat_new"
  obtain ag where pick: "egress_pick sample_ips sample_socks tcp_sample one_link
     = Some (Some (v4_flow tcp_sample, ''eth0'', sample_ip, \<lparr>re_fd = 3, re_ifname = ''eth0''\<rparr>, Ipv4 8 8 8 8), ag)"
    using one_link_pick [OF one_link_ok, of sample_ips sample_socks] by auto
  obtain out where out: "egress_rewrite tcp_sample sample_ip = Some (Some out)" "length out = 40"
    using tcp_rewritten unfolding egress_rewrite_iff by blast
  obtain r where r: "capture_rewrite reply_sample tcp_session = Some (Some r)"
    using reply_sample_fields(1) unfolding capture_rewrite_iff by (auto simp: rewrite_ipv4_dest_eq Let_def)
  have parsed: "capture_parse reply_sample = Some (Some (v4_flow reply_sample, Ipv4 8 8 8 8, sample_ip))"
    using capture_parse_v4 [OF reply_sample_fields(1,2)] by (simp add: reply_sample_def)
  have found: "capture_lookup (v4_flow reply_sample) (Ipv4 8 8 8 8) sample_ip ?n = Some tcp_session"
    using reply_sample_fields(3,6)
    by (simp add: capture_lookup_def lookup_return_find tcp_session_key v4_flow_def)
      (simp add: add_session_def nat_new_def tcp_session_key)
  define W where "W ag n tp tb rp snt inj = \<lparr>w_agg = ag, w_nat = n, w_tx_packets = tp, w_tx_bytes = tb, w_rx_packets = rp,
    w_sent = snt, w_injected = inj\<rparr>" for ag n tp tb rp snt inj
  let ?snt = "[(''eth0'', Ipv4 8 8 8 8, out)]"
  define R where "R = ?D\<^sup>*\<^sup>*"
  have then_run [trans]: "R a d" if "R a b" "R b d" for a b d using that unfolding R_def by (rule rtranclp_trans)
  have e: "R (w, p, ?c) (w', p', ?c)" if "egress_step sample_ips sample_socks (w, p) (w', p')" for w p w' p'
    unfolding R_def using dp_egress [OF that] by blast
  have c: "R (w, E_Read, ?c(''eth0'' := p)) (w', E_Read, ?c(''eth0'' := p'))" if "capture_step (w, p) (w', p')" for w p w' p'
    using dp_capture [of w "?c(''eth0'' := p)" "''eth0''" w' p' sample_ips sample_socks E_Read] that by (auto simp: R_def)
  have "R dp_start (W one_link nat_new 0 0 0 [] [], E_Read, ?c)"
  proof -
    have "agg_step (w_agg (fst dp_start)) one_link" by (simp add: dp_start_def one_link_def step_inject)
    from dp_ui [OF this, of sample_ips sample_socks E_Read ?c] show ?thesis by (auto simp: dp_start_def W_def R_def)
  qed
  also have "R \<dots> (W one_link nat_new 0 0 0 [] [], E_Got tcp_sample, ?c)" by (rule e [OF e_read]) (simp_all add: tcp_sample_def MAX_PACKET_def)
  also have "R \<dots> (W ag nat_new 0 0 0 [] [], E_Picked tcp_sample (v4_flow tcp_sample) ''eth0'' sample_ip (Ipv4 8 8 8 8), ?c)"
    using e [OF e_pick, of tcp_sample "W one_link nat_new 0 0 0 [] []"] pick by (simp add: W_def)
  also have "R \<dots> (W ag ?n 0 0 0 [] [], E_Registered tcp_sample ''eth0'' sample_ip (Ipv4 8 8 8 8), ?c)"
    using e [OF e_register, of "v4_flow tcp_sample" "''eth0''" sample_ip "W ag nat_new 0 0 0 [] []"] tcp_register by (simp add: W_def)
  also have "R \<dots> (W ag ?n 0 0 0 [] [], E_Out out ''eth0'' (Ipv4 8 8 8 8), ?c)"
    by (rule e [OF e_rewrite [OF out(1)]])
  also have "R \<dots> (W ag ?n 0 0 0 ?snt [], E_Sent 40, ?c)"
    using e [OF e_send, of "W ag ?n 0 0 0 [] []" out] by (simp add: W_def out(2))
  also have "R \<dots> (W ag ?n 1 0 0 ?snt [], E_Counted 40, ?c)"
    using e [OF e_count_packet, of "W ag ?n 0 0 0 ?snt []"] by (simp add: W_def)
  also have "R \<dots> (W ag ?n 1 40 0 ?snt [], E_Read, ?c(''eth0'' := C_Recv))"
    using e [OF e_count_bytes, of "W ag ?n 1 0 0 ?snt []" 40] by (simp add: W_def fun_upd_idem)
  also have "R \<dots> (W ag ?n 1 40 0 ?snt [], E_Read, ?c(''eth0'' := C_Got reply_sample))" by (rule c [OF c_recv]) (simp add: reply_sample_def)
  also have "R \<dots> (W ag ?n 1 40 0 ?snt [], E_Read,
      ?c(''eth0'' := C_Parsed reply_sample (v4_flow reply_sample) (Ipv4 8 8 8 8) sample_ip))"
    by (rule c [OF c_parse [OF parsed]])
  also have "R \<dots> (W ag ?n 1 40 0 ?snt [], E_Read, ?c(''eth0'' := C_Session reply_sample tcp_session))"
    by (rule c, rule c_lookup) (simp add: W_def found)
  also have "R \<dots> (W ag ?n 1 40 0 ?snt [], E_Read, ?c(''eth0'' := C_Out r))" by (rule c [OF c_rewrite [OF r]])
  also have "R \<dots> (W ag ?n 1 40 0 ?snt [r], E_Read, ?c(''eth0'' := C_Written))"
    using c [OF c_write, of "W ag ?n 1 40 0 ?snt []" r] by (simp add: W_def)
  also have "R \<dots> (W ag ?n 1 40 1 ?snt [r], E_Read, ?c(''eth0'' := C_Recv))"
    using c [OF c_count, of "W ag ?n 1 40 0 ?snt [r]"] by (simp add: W_def)
  finally show ?thesis unfolding R_def W_def fun_upd_idem [of ?c "''eth0''" C_Recv, OF refl] by blast
qed

text \<open>No data-plane thread ever panics: in every state reachable under any interleaving of the egress
  thread, the capture threads, the UI thread and any packets and kernel answers, no thread has taken
  an index out of range, so none of the shared locks is ever poisoned.\<close>

theorem data_plane_never_panics:
  assumes "dp_init s" and "(dp_step ips socks)\<^sup>*\<^sup>* s (w, e, c)"
  shows "e \<noteq> E_Panicked \<and> c i \<noteq> C_Panicked"
proof -
  have "dp_inv ips (w, e, c)" by (rule dp_sys.reachable_inv [OF assms])
  then have "egress_pc_ok ips (w_nat w) e" "capture_pc_ok (w_nat w) (c i)" by (simp_all add: dp_inv_def)
  then show ?thesis by auto
qed

lemma data_plane_never_panics_witness:
  "\<exists>w e c. (dp_step sample_ips sample_socks)\<^sup>*\<^sup>* dp_start (w, e, c) \<and> w_sent w \<noteq> []
     \<and> e \<noteq> E_Panicked \<and> c ''eth0'' \<noteq> C_Panicked"
proof -
  obtain ag out r where run: "(dp_step sample_ips sample_socks)\<^sup>*\<^sup>* dp_start
     (\<lparr>w_agg = ag, w_nat = add_session tcp_session nat_new, w_tx_packets = 1, w_tx_bytes = 40, w_rx_packets = 1,
       w_sent = [(''eth0'', Ipv4 8 8 8 8, out)], w_injected = [r]\<rparr>, E_Read, \<lambda>i. C_Recv)"
    using sample_run by blast
  from data_plane_never_panics [OF dp_start_init run] run show ?thesis by fastforce
qed

text \<open>Everything sent is properly translated.  Under every interleaving, each packet handed to a raw
  socket is a well-formed IPv4 packet whose source is the address of the interface it leaves through,
  whose header checksum verifies, and whose destination, protocol and ports are those of a registered
  NAT session.\<close>

theorem sent_packets_sound:
  assumes "dp_init s" and "(dp_step ips socks)\<^sup>*\<^sup>* s (w, e, c)" and "(iface, dst, out) \<in> set (w_sent w)"
  shows "header_ok out \<and> quad 16 out = octets dst \<and> (\<exists>ip. hm_get ips iface = Some ip \<and> quad 12 out = octets ip)
    \<and> (\<exists>ses \<in> live (w_nat w). ses_server_ip ses = dst \<and> ses_proto ses = out ! 9
         \<and> v4_ports out = (ses_client_port ses, ses_server_port ses))"
proof -
  have "dp_inv ips (w, e, c)" by (rule dp_sys.reachable_inv [OF assms(1,2)])
  then have "sent_ok ips (w_nat w) (iface, dst, out)" using assms(3) by (auto simp: dp_inv_def world_ok_def)
  then show ?thesis by (simp only: sent_ok_def prod.case)
qed

lemma sent_packets_sound_witness:
  "\<exists>out. header_ok out \<and> quad 16 out = [8, 8, 8, 8] \<and> quad 12 out = [192, 168, 31, 49]"
proof -
  obtain ag out r where run: "(dp_step sample_ips sample_socks)\<^sup>*\<^sup>* dp_start
     (\<lparr>w_agg = ag, w_nat = add_session tcp_session nat_new, w_tx_packets = 1, w_tx_bytes = 40, w_rx_packets = 1,
       w_sent = [(''eth0'', Ipv4 8 8 8 8, out)], w_injected = [r]\<rparr>, E_Read, \<lambda>i. C_Recv)"
    using sample_run by blast
  from sent_packets_sound [OF dp_start_init run, of "''eth0''" "Ipv4 8 8 8 8" out] show ?thesis by auto
qed

text \<open>C10: Nothing unsolicited reaches the clients.  Under every interleaving, each packet written to the
  TUN is addressed to the client of a registered session, comes from that session's server with its
  protocol and ports, and has a valid header checksum.\<close>

theorem injected_packets_sound:
  assumes "dp_init s" and "(dp_step ips socks)\<^sup>*\<^sup>* s (w, e, c)" and "out \<in> set (w_injected w)"
  shows "header_ok out \<and> (\<exists>ses \<in> live (w_nat w). quad 16 out = octets (ses_client_ip ses)
    \<and> quad 12 out = octets (ses_server_ip ses) \<and> ses_proto ses = out ! 9
    \<and> v4_ports out = (ses_server_port ses, ses_client_port ses))"
proof -
  have "dp_inv ips (w, e, c)" by (rule dp_sys.reachable_inv [OF assms(1,2)])
  then have "injected_ok (w_nat w) out" using assms(3) by (auto simp: dp_inv_def world_ok_def)
  then show ?thesis by (simp only: injected_ok_def)
qed

lemma injected_packets_sound_witness:
  "\<exists>r. header_ok r \<and> (\<exists>ses \<in> live (add_session tcp_session nat_new). quad 16 r = octets (ses_client_ip ses))"
proof -
  obtain ag out r where run: "(dp_step sample_ips sample_socks)\<^sup>*\<^sup>* dp_start
     (\<lparr>w_agg = ag, w_nat = add_session tcp_session nat_new, w_tx_packets = 1, w_tx_bytes = 40, w_rx_packets = 1,
       w_sent = [(''eth0'', Ipv4 8 8 8 8, out)], w_injected = [r]\<rparr>, E_Read, \<lambda>i. C_Recv)"
    using sample_run by blast
  from injected_packets_sound [OF dp_start_init run, of r] show ?thesis by auto
qed



section \<open>Progress\<close>

text \<open>How many blocks of the loop body are left.\<close>

fun egress_rank :: "egress_pc \<Rightarrow> nat" where
  "egress_rank (E_Got pkt) = 6"
| "egress_rank (E_Picked pkt f iface ip dst) = 5"
| "egress_rank (E_Registered pkt iface ip dst) = 4"
| "egress_rank (E_Out out iface dst) = 3"
| "egress_rank (E_Sent n) = 2"
| "egress_rank (E_Counted n) = 1"
| "egress_rank _ = 0"

fun capture_rank :: "capture_pc \<Rightarrow> nat" where
  "capture_rank (C_Got pkt) = 5"
| "capture_rank (C_Parsed pkt f src dst) = 4"
| "capture_rank (C_Session pkt s) = 3"
| "capture_rank (C_Out out) = 2"
| "capture_rank C_Written = 1"
| "capture_rank _ = 0"

lemma egress_rank_decreases: "egress_step ips socks (w, e) (w', e') \<Longrightarrow> e \<noteq> E_Read \<Longrightarrow> egress_rank e' < egress_rank e"
  by (erule egress_stepE) simp_all

lemma capture_rank_decreases: "capture_step (w, p) (w', p') \<Longrightarrow> p \<noteq> C_Recv \<Longrightarrow> capture_rank p' < capture_rank p"
  by (erule capture_stepE) simp_all

lemma egress_enabled: "e \<noteq> E_Panicked \<Longrightarrow> \<exists>x. egress_step ips socks (w, e) x"
proof (cases e)
  case (E_Got pkt)
  obtain r ag' where "egress_pick ips socks pkt (w_agg w) = Some (r, ag')"
    using egress_pick_returns [of ips socks pkt "w_agg w"] by auto
  then show ?thesis unfolding E_Got by (cases r) (auto intro: egress_step.intros)
next
  case (E_Picked pkt f iface ip dst)
  obtain r t' where "register f iface ip (w_nat w) = (r, t')" by fastforce
  then show ?thesis unfolding E_Picked by (cases r) (auto intro: egress_step.intros)
next
  case (E_Registered pkt iface ip dst)
  obtain r where "egress_rewrite pkt ip = Some r" using rewrite_source_returns by blast
  then show ?thesis unfolding E_Registered by (cases r) (auto intro: egress_step.intros)
next
  case E_Read
  moreover have "egress_step ips socks (w, E_Read) (w, E_Got [0])" by (rule e_read) (simp_all add: MAX_PACKET_def)
  ultimately show ?thesis by blast
qed (auto intro: egress_step.intros)

lemma capture_enabled: "p \<noteq> C_Panicked \<Longrightarrow> \<exists>x. capture_step (w, p) x"
proof (cases p)
  case (C_Got pkt)
  obtain r where "capture_parse pkt = Some r" using capture_parse_returns by blast
  then show ?thesis unfolding C_Got by (cases r) (auto intro: capture_step.intros)
next
  case (C_Parsed pkt f src dst)
  show ?thesis unfolding C_Parsed
    by (cases "capture_lookup f src dst (w_nat w)") (auto intro: capture_step.intros)
next
  case (C_Session pkt s)
  obtain r where "capture_rewrite pkt s = Some r" using rewrite_dest_returns by blast
  then show ?thesis unfolding C_Session by (cases r) (auto intro: capture_step.intros)
next
  case C_Recv
  moreover have "capture_step (w, C_Recv) (w, C_Got [])" by (rule c_recv) simp
  ultimately show ?thesis by blast
qed (auto intro: capture_step.intros)



end
