(* ===== verification/App.thy ===== *)
theory App
  imports Data_Plane
begin

text \<open>
  The application object of \<open>main.rs\<close>: its state, construction (with the TUN device and the sockets
  of the data plane), the periodic tick in both modes, the handlers of the user interface and the
  numbers the dashboard shows.  The shared state behind the \<open>Arc\<close>s is the \<open>world\<close> of
  \<open>Data_Plane\<close>.  \<open>ui_step\<close> are the steps of the UI thread, \<open>app_step\<close> adds those of the data-plane
  threads on the shared state, and \<open>app_ok\<close> its invariant: a valid configuration and finite rates.
\<close>

section \<open>Theme\<close>

text \<open>A colour is the 24-bit number given to \<open>rgb\<close>.\<close>

record theme =
  th_bg :: u32
  th_sidebar :: u32
  th_panel :: u32
  th_panel_hover :: u32
  th_panel_active :: u32
  th_border :: u32
  th_text :: u32
  th_text_muted :: u32
  th_text_on_accent :: u32
  th_accent :: u32
  th_accent_bright :: u32
  th_success :: u32
  th_success_bright :: u32
  th_danger :: u32
  th_idle :: u32
  th_track :: u32
  th_bar_tx :: u32
  th_bar_rx :: u32
  th_bar_neutral :: u32

definition theme_dark :: theme where
  "theme_dark = \<lparr>th_bg = 0x0d1117, th_sidebar = 0x010409, th_panel = 0x161b22, th_panel_hover = 0x1c2128,
     th_panel_active = 0x111d2e, th_border = 0x2d333b, th_text = 0xe6edf3, th_text_muted = 0x8b949e,
     th_text_on_accent = 0xffffff, th_accent = 0x1f6feb, th_accent_bright = 0x2f81f7,
     th_success = 0x238636, th_success_bright = 0x3fb950, th_danger = 0xf85149, th_idle = 0x6e7681,
     th_track = 0x21262d, th_bar_tx = 0x58a6ff, th_bar_rx = 0x3fb950, th_bar_neutral = 0x8b949e\<rparr>"

definition theme_light :: theme where
  "theme_light = \<lparr>th_bg = 0xffffff, th_sidebar = 0xf6f8fa, th_panel = 0xffffff, th_panel_hover = 0xf3f4f6,
     th_panel_active = 0xeff3fb, th_border = 0xd0d7de, th_text = 0x1f2328, th_text_muted = 0x656d76,
     th_text_on_accent = 0xffffff, th_accent = 0x1f6feb, th_accent_bright = 0x0969da,
     th_success = 0x1a7f37, th_success_bright = 0x1f8834, th_danger = 0xcf222e, th_idle = 0x6e7781,
     th_track = 0xeaeef2, th_bar_tx = 0x0969da, th_bar_rx = 0x1a7f37, th_bar_neutral = 0x6e7781\<rparr>"

datatype theme_mode = Theme_Dark | Theme_Light | Theme_System

fun theme_label :: "theme_mode \<Rightarrow> string" where
  "theme_label Theme_Dark = [CHR 0xE6, CHR 0x9A, CHR 0x97, CHR 0xE8, CHR 0x89, CHR 0xB2]"
| "theme_label Theme_Light = [CHR 0xE4, CHR 0xBA, CHR 0xAE, CHR 0xE8, CHR 0x89, CHR 0xB2]"
| "theme_label Theme_System = [CHR 0xE8, CHR 0xB7, CHR 0x9F, CHR 0xE9, CHR 0x9A, CHR 0x8F, CHR 0xE7, CHR 0xB3, CHR 0xBB, CHR 0xE7, CHR 0xBB, CHR 0x9F]"

fun cycle :: "theme_mode \<Rightarrow> theme_mode" where
  "cycle Theme_Dark = Theme_Light"
| "cycle Theme_Light = Theme_System"
| "cycle Theme_System = Theme_Dark"

text \<open>The palette of a render pass; \<open>dark_window\<close> is what the window reports.\<close>

definition resolve_theme :: "theme_mode \<Rightarrow> bool \<Rightarrow> theme" where
  "resolve_theme m dark_window =
     (case m of Theme_Dark \<Rightarrow> theme_dark | Theme_Light \<Rightarrow> theme_light
      | Theme_System \<Rightarrow> if dark_window then theme_dark else theme_light)"

datatype tab = Tab_Dashboard | Tab_Interfaces | Tab_Policy | Tab_Statistics

fun tab_title :: "tab \<Rightarrow> string" where
  "tab_title Tab_Dashboard = [CHR 0xE4, CHR 0xBB, CHR 0xAA, CHR 0xE8, CHR 0xA1, CHR 0xA8, CHR 0xE7, CHR 0x9B, CHR 0x98]"
| "tab_title Tab_Interfaces = [CHR 0xE6, CHR 0x8E, CHR 0xA5, CHR 0xE5, CHR 0x8F, CHR 0xA3, CHR 0xE7, CHR 0x9B, CHR 0x91, CHR 0xE6, CHR 0x8E, CHR 0xA7]"
| "tab_title Tab_Policy = [CHR 0xE7, CHR 0xAD, CHR 0x96, CHR 0xE7, CHR 0x95, CHR 0xA5, CHR 0xE9, CHR 0x85, CHR 0x8D, CHR 0xE7, CHR 0xBD, CHR 0xAE]"
| "tab_title Tab_Statistics = [CHR 0xE6, CHR 0x80, CHR 0xA7, CHR 0xE8, CHR 0x83, CHR 0xBD, CHR 0xE7, CHR 0xBB, CHR 0x9F, CHR 0xE8, CHR 0xAE, CHR 0xA1]"

fun kind_label :: "interface_kind \<Rightarrow> string" where
  "kind_label Ethernet = [CHR 0xE4, CHR 0xBB, CHR 0xA5, CHR 0xE5, CHR 0xA4, CHR 0xAA, CHR 0xE7, CHR 0xBD, CHR 0x91]"
| "kind_label Wifi = ''Wi-Fi''"
| "kind_label Cellular = [CHR 0xE7, CHR 0xA7, CHR 0xBB, CHR 0xE5, CHR 0x8A, CHR 0xA8, CHR 0xE6, CHR 0x95, CHR 0xB0, CHR 0xE6, CHR 0x8D, CHR 0xAE]"
| "kind_label Loopback = [CHR 0xE5, CHR 0x9B, CHR 0x9E, CHR 0xE7, CHR 0x8E, CHR 0xAF]"
| "kind_label Virtual = [CHR 0xE8, CHR 0x99, CHR 0x9A, CHR 0xE6, CHR 0x8B, CHR 0x9F]"
| "kind_label Other = [CHR 0xE5, CHR 0x85, CHR 0xB6, CHR 0xE4, CHR 0xBB, CHR 0x96]"

fun mode_label :: "mode \<Rightarrow> string" where
  "mode_label Tunnelling = [CHR 0xE9, CHR 0x9A, CHR 0xA7, CHR 0xE9, CHR 0x81, CHR 0x93, CHR 0xE8, CHR 0x81, CHR 0x9A, CHR 0xE5, CHR 0x90, CHR 0x88] @ '' (TUN)''"
| "mode_label Simulation = [CHR 0xE6, CHR 0xA8, CHR 0xA1, CHR 0xE6, CHR 0x8B, CHR 0x9F, CHR 0xE6, CHR 0xBC, CHR 0x94, CHR 0xE7, CHR 0xA4, CHR 0xBA] @ '' (Simulation)''"

section \<open>State\<close>

datatype iface_act = Enable string bool | Priority string "32 word" | Weight string "32 word"

record netmux_app =
  app_world :: world
  app_generator :: pcap_generator
  app_tab :: tab
  app_banner :: "string option"
  app_last_summary :: nat
  app_theme_mode :: theme_mode
  app_active_theme :: theme

definition simulation_banner :: string where
  "simulation_banner =
     [CHR 0xE6, CHR 0x9C, CHR 0xAA, CHR 0xE4, CHR 0xBB, CHR 0xA5] @ '' --tun''
     @ [CHR 0xEF, CHR 0xBC, CHR 0x88, CHR 0xE9, CHR 0x9C, CHR 0x80] @ '' CAP_NET_ADMIN''
     @ [CHR 0xEF, CHR 0xBC, CHR 0x89, CHR 0xE8, CHR 0xBF, CHR 0x90, CHR 0xE8, CHR 0xA1, CHR 0x8C,
        CHR 0xEF, CHR 0xBC, CHR 0x8C, CHR 0xE5, CHR 0xBD, CHR 0x93, CHR 0xE5, CHR 0x89, CHR 0x8D,
        CHR 0xE5, CHR 0xA4, CHR 0x84, CHR 0xE4, CHR 0xBA, CHR 0x8E, CHR 0xE6, CHR 0xA8, CHR 0xA1,
        CHR 0xE6, CHR 0x8B, CHR 0x9F, CHR 0xE6, CHR 0xBC, CHR 0x94, CHR 0xE7, CHR 0xA4, CHR 0xBA,
        CHR 0xE6, CHR 0xA8, CHR 0xA1, CHR 0xE5, CHR 0xBC, CHR 0x8F]"

section \<open>Starting the data plane\<close>

datatype ip_addr = V4 ipv4 | V6 bytes

definition ipv4_addrs :: "(string \<times> ip_addr) list \<Rightarrow> (string, ipv4) hmap" where
  "ipv4_addrs ifas = fold (\<lambda>(name, ip) m. case ip of V4 a \<Rightarrow> hm_insert name a m | V6 b \<Rightarrow> m) ifas []"

record links =
  ln_egress :: "(string, raw_egress) hmap"
  ln_ips :: "(string, ipv4) hmap"
  ln_captures :: "raw_capture list"

text \<open>One candidate.  Inserting into the socket map drops, hence closes, a socket it replaces.\<close>

definition open_link :: "kernel \<Rightarrow> bool \<Rightarrow> (string, ipv4) hmap \<Rightarrow> candidate \<Rightarrow> links \<times> os \<Rightarrow> links \<times> os" where
  "open_link k le ipv4 c = (\<lambda>(lk, os).
     if \<not> pol_enabled (ci_policy c) \<or> \<not> ci_healthy c then (lk, os)
     else case hm_get ipv4 (ci_name c) of
       None \<Rightarrow> (lk, os)
     | Some ip \<Rightarrow>
         (case egress_open k le (ci_name c) os of
            (Inl e, os) \<Rightarrow> (lk, os)
          | (Inr sock, os) \<Rightarrow>
              (let os = (case hm_get (ln_egress lk) (ci_name c) of None \<Rightarrow> os | Some old \<Rightarrow> egress_drop k old os);
                   lk = lk\<lparr>ln_ips := hm_insert (ci_name c) ip (ln_ips lk),
                           ln_egress := hm_insert (ci_name c) sock (ln_egress lk)\<rparr>
               in case capture_open k le (ci_name c) os of
                    (Inr cap, os) \<Rightarrow> (lk\<lparr>ln_captures := ln_captures lk @ [cap]\<rparr>, os)
                  | (Inl e, os) \<Rightarrow> (lk, os))))"

definition start_data_plane ::
    "kernel \<Rightarrow> bool \<Rightarrow> (string \<times> ip_addr) list \<Rightarrow> candidate list \<Rightarrow> os \<Rightarrow> links \<times> os" where
  "start_data_plane k le ifas candidates os =
     fold (open_link k le (ipv4_addrs ifas)) candidates (\<lparr>ln_egress = [], ln_ips = [], ln_captures = []\<rparr>, os)"

text \<open>The line logged when the threads run; both numbers are that of the egress sockets.\<close>

definition ready_line :: "links \<Rightarrow> string" where
  "ready_line lk =
     (let egress_count = length (ln_egress lk)
      in ''data plane ready: '' @ show_dec egress_count @ '' egress interfaces, '' @ show_dec egress_count
         @ '' capture threads'')"

section \<open>Construction\<close>

text \<open>The mode, the banner and the device: the TUN is tried when asked for, and every failure falls back
  to the simulation.\<close>

definition choose_mode ::
    "(nat \<Rightarrow> string) \<Rightarrow> kernel \<Rightarrow> bool \<Rightarrow> string list \<Rightarrow> os \<Rightarrow> (mode \<times> string option \<times> tun option) rust \<times> os" where
  "choose_mode strerror k le args os =
     (if ''--tun'' \<in> set args
      then case tun_create k le ''netmux0'' os of
          (None, os) \<Rightarrow> (None, os)
        | (Some (Inr t), os) \<Rightarrow>
            (let (r1, os) = set_nonblocking k t os
             in case set_up k le (tun_name t) os of
                  (None, os) \<Rightarrow> (None, os)
                | (Some r2, os) \<Rightarrow> (Some (Tunnelling, None, Some t), os))
        | (Some (Inl (Permission msg)), os) \<Rightarrow> (Some (Simulation, Some msg, None), os)
        | (Some (Inl e), os) \<Rightarrow> (Some (Simulation, Some (error_text strerror e), None), os)
      else (Some (Simulation, Some simulation_banner, None), os))"

definition app_new ::
    "(nat \<Rightarrow> string) \<Rightarrow> kernel \<Rightarrow> bool \<Rightarrow> string list \<Rightarrow> sysfs \<Rightarrow> nat \<Rightarrow> (string \<times> ip_addr) list \<Rightarrow> os \<Rightarrow>
     (netmux_app \<times> links option) rust \<times> os" where
  "app_new strerror k le args fs now ifas os =
     (case choose_mode strerror k le args os of
        (None, os) \<Rightarrow> (None, os)
      | (Some (mode, banner, tun), os) \<Rightarrow>
          (case aggregator_new default_config mode now of
             Inl e \<Rightarrow> (None, os)
           | Inr ag \<Rightarrow>
               (let ag = refresh_candidates fs ag;
                    app = \<lparr>app_world = \<lparr>w_agg = ag, w_nat = nat_new, w_tx_packets = 0, w_tx_bytes = 0,
                               w_rx_packets = 0, w_sent = [], w_injected = []\<rparr>,
                           app_generator = default_generator, app_tab = Tab_Dashboard, app_banner = banner,
                           app_last_summary = now, app_theme_mode = Theme_System, app_active_theme = theme_dark\<rparr>
                in if mode = Tunnelling
                   then case tun of
                       None \<Rightarrow> (None, os)
                     | Some t \<Rightarrow> (case start_data_plane k le ifas (ag_candidates ag) os of
                         (lk, os) \<Rightarrow> (Some (app, Some lk), os))
                   else (Some (app, None), os))))"

section \<open>The tick\<close>

definition sim_links :: "(string \<times> interface_kind \<times> u32 \<times> u32) list" where
  "sim_links =
     (let suffix = '' ('' @ [CHR 0xE6, CHR 0xA8, CHR 0xA1, CHR 0xE6, CHR 0x8B, CHR 0x9F] @ '')''
      in [(''eth0'' @ suffix, Ethernet, 30, 3), (''wlan0'' @ suffix, Wifi, 20, 2), (''wwan0'' @ suffix, Cellular, 25, 1)])"

text \<open>The simulation loop; it stops at the first packet that is not routed.\<close>

fun sim_loop :: "nat \<Rightarrow> pcap_generator \<times> world \<Rightarrow> (pcap_generator \<times> world) rust" where
  "sim_loop 0 st = Some st"
| "sim_loop (Suc n) (g, w) = do {
     (pkt, g) \<leftarrow> next_packet (96 + unat (w_tx_packets w mod 5) * 64) g;
     (d, ag) \<leftarrow> route pkt (w_agg w);
     let w = w\<lparr>w_agg := ag\<rparr>
     in case d of
          None \<Rightarrow> Some (g, w)
        | Some dec \<Rightarrow>
            sim_loop n (g, if fd_interface dec \<noteq> None
              then w\<lparr>w_tx_packets := w_tx_packets w + 1, w_tx_bytes := w_tx_bytes w + 150\<rparr> else w) }"

definition sim_tick :: "netmux_app \<Rightarrow> netmux_app rust" where
  "sim_tick self =
     (let w = app_world self;
          w = (if ag_candidates (w_agg w) = [] then w\<lparr>w_agg := inject_sim_candidates sim_links (w_agg w)\<rparr> else w);
          dt = u64_as_f64 (max (cfg_health_check_interval_secs (ag_config (w_agg w))) 1) * round64 (16 / 1000)
      in do {
        duration \<leftarrow> from_secs_f64 dt;
        (g, w) \<leftarrow> sim_loop (min (per_tick (app_generator self) duration) 2000) (app_generator self, w);
        Some (self\<lparr>app_world := w, app_generator := g\<rparr>) })"

text \<open>The distribution line of the periodic summary: flows per interface, by name.\<close>

definition distribution :: "(string, string) hmap \<Rightarrow> (string \<times> nat) list" where
  "distribution table =
     (let ifaces = map snd table in map (\<lambda>n. (n, count_list ifaces n)) (sort (remdups ifaces)))"

fun join_with :: "string \<Rightarrow> string list \<Rightarrow> string" where
  "join_with sep [] = []"
| "join_with sep [s] = s"
| "join_with sep (s # t # r) = s @ sep @ join_with sep (t # r)"

definition summary_line :: "world \<Rightarrow> string" where
  "summary_line w =
     ''tun summary: tx='' @ show_dec (unat (w_tx_packets w)) @ '' packets (''
     @ fmt1 (divide (u64_as_f64 (w_tx_bytes w)) (Fin 1024)) @ '' KiB), rx='' @ show_dec (unat (w_rx_packets w))
     @ '' packets, sessions='' @ show_dec (sessions (w_nat w)) @ '', distribution: ''
     @ join_with '', '' (map (\<lambda>(k, v). k @ ''='' @ show_dec v) (distribution (ag_flow_table (w_agg w))))"

text \<open>The line goes to the log only.  \<open>now\<close> is the clock of the statistics, \<open>later\<close> that of the summary check.\<close>

definition tun_tick :: "sysfs \<Rightarrow> nat \<Rightarrow> sysfs \<Rightarrow> nat \<Rightarrow> netmux_app \<Rightarrow> netmux_app" where
  "tun_tick fs now fs' later self =
     (let w = app_world self;
          self = self\<lparr>app_world := w\<lparr>w_agg := agg_tick fs now fs' (w_agg w)\<rparr>\<rparr>
      in if 10 * 10 ^ 9 \<le> later - app_last_summary self then self\<lparr>app_last_summary := later\<rparr> else self)"

definition app_tick :: "sysfs \<Rightarrow> nat \<Rightarrow> sysfs \<Rightarrow> nat \<Rightarrow> netmux_app \<Rightarrow> netmux_app rust" where
  "app_tick fs now fs' later self =
     (if ag_mode (w_agg (app_world self)) = Simulation then sim_tick self
      else Some (tun_tick fs now fs' later self))"

section \<open>Handlers\<close>

definition upd_config :: "(aggregator_config \<Rightarrow> aggregator_config) \<Rightarrow> netmux_app \<Rightarrow> netmux_app" where
  "upd_config f self =
     self\<lparr>app_world := (app_world self)\<lparr>w_agg := (w_agg (app_world self))\<lparr>ag_config :=
        f (ag_config (w_agg (app_world self)))\<rparr>\<rparr>\<rparr>"

definition toggle_enabled :: "netmux_app \<Rightarrow> netmux_app" where
  "toggle_enabled = upd_config (\<lambda>cfg. cfg\<lparr>cfg_enabled := \<not> cfg_enabled cfg\<rparr>)"

definition cycle_theme :: "netmux_app \<Rightarrow> netmux_app" where
  "cycle_theme self = self\<lparr>app_theme_mode := cycle (app_theme_mode self)\<rparr>"

text \<open>A click on a navigation item, and the palette of a render pass.\<close>

definition set_tab :: "tab \<Rightarrow> netmux_app \<Rightarrow> netmux_app" where
  "set_tab t self = self\<lparr>app_tab := t\<rparr>"

definition render_palette :: "bool \<Rightarrow> netmux_app \<Rightarrow> netmux_app" where
  "render_palette dark_window self = self\<lparr>app_active_theme := resolve_theme (app_theme_mode self) dark_window\<rparr>"

definition set_strategy :: "strategy \<Rightarrow> netmux_app \<Rightarrow> netmux_app" where
  "set_strategy s = upd_config (\<lambda>cfg. cfg\<lparr>cfg_strategy := s\<rparr>)"

definition set_algorithm :: "balance_algorithm \<Rightarrow> netmux_app \<Rightarrow> netmux_app" where
  "set_algorithm a = upd_config (\<lambda>cfg. cfg\<lparr>cfg_algorithm := a\<rparr>)"

text \<open>\<open>(x as i32 + delta).clamp(lo, hi) as u32\<close>; an \<open>i32\<close> overflow panics (checked arithmetic).\<close>

definition clamp_add :: "u32 \<Rightarrow> 32 word \<Rightarrow> int \<Rightarrow> int \<Rightarrow> u32 rust" where
  "clamp_add x delta lo hi =
     (let s = sint x + sint delta
      in if s < - (2 ^ 31) \<or> 2 ^ 31 \<le> s then None else Some (of_int (min hi (max lo s))))"

definition entry_or_default :: "string \<Rightarrow> (string, interface_policy) hmap \<Rightarrow> interface_policy" where
  "entry_or_default name m = (case hm_get m name of Some p \<Rightarrow> p | None \<Rightarrow> default_policy)"

fun config_action :: "iface_act \<Rightarrow> aggregator_config \<Rightarrow> aggregator_config rust" where
  "config_action (Enable name enable) cfg =
     (let p = entry_or_default name (cfg_interfaces cfg)
      in Some (cfg\<lparr>cfg_interfaces := hm_insert name (p\<lparr>pol_enabled := enable\<rparr>) (cfg_interfaces cfg)\<rparr>))"
| "config_action (Priority name delta) cfg =
     (let p = entry_or_default name (cfg_interfaces cfg)
      in do { v \<leftarrow> clamp_add (pol_priority p) delta 1 99;
        Some (cfg\<lparr>cfg_interfaces := hm_insert name (p\<lparr>pol_priority := v\<rparr>) (cfg_interfaces cfg)\<rparr>) })"
| "config_action (Weight name delta) cfg =
     (let p = entry_or_default name (cfg_interfaces cfg)
      in do { v \<leftarrow> clamp_add (pol_weight p) delta 1 100;
        Some (cfg\<lparr>cfg_interfaces := hm_insert name (p\<lparr>pol_weight := v\<rparr>) (cfg_interfaces cfg)\<rparr>) })"

definition iface_action :: "iface_act \<Rightarrow> netmux_app \<Rightarrow> netmux_app rust" where
  "iface_action act self =
     map_option (\<lambda>cfg. upd_config (\<lambda>_. cfg) self) (config_action act (ag_config (w_agg (app_world self))))"

section \<open>What the views show\<close>

definition max_speed :: "candidate list \<Rightarrow> f64" where
  "max_speed cs = f64_max (foldl f64_max (Fin 0) (map (\<lambda>c. ci_tx_bps c + ci_rx_bps c) cs)) (Fin 1)"

text \<open>The fill of a bar, \<open>ratio.clamp(0.0, 1.0)\<close>.\<close>

definition clamp01 :: "f64 \<Rightarrow> f64" where
  "clamp01 r = (if r < Fin 0 then Fin 0 else if Fin 1 < r then Fin 1 else r)"

definition load_ratio :: "candidate list \<Rightarrow> candidate \<Rightarrow> f64" where
  "load_ratio cs c = clamp01 (divide (ci_tx_bps c + ci_rx_bps c) (f64_max (max_speed cs) (Fin 1)))"

fun dashboard_loop :: "candidate list \<Rightarrow> u64 \<times> nat \<times> f64 \<Rightarrow> u64 \<times> nat \<times> f64" where
  "dashboard_loop [] st = st"
| "dashboard_loop (c # cs) (used, healthy, cap) =
     dashboard_loop cs
       (if pol_enabled (ci_policy c) then used + 1 else used,
        if ci_healthy c then healthy + 1 else healthy,
        if pol_enabled (ci_policy c) then cap + (ci_tx_bps c + ci_rx_bps c) * Fin 8 else cap)"

definition kpi_interfaces :: "candidate list \<Rightarrow> string" where
  "kpi_interfaces cs = (case dashboard_loop cs (0, 0, Fin 0) of
     (used, healthy, cap) \<Rightarrow> show_dec (unat used) @ ''/'' @ show_dec healthy)"

definition kpi_bandwidth :: "world \<Rightarrow> string" where
  "kpi_bandwidth w = fmt_bps (u64_as_f64 (w_tx_bytes w))"

definition kpi_packets :: "world \<Rightarrow> string" where
  "kpi_packets w = show_dec (unat (w_tx_packets w))"

definition kpi_load :: "candidate list \<Rightarrow> string" where
  "kpi_load cs = (case dashboard_loop cs (0, 0, Fin 0) of
     (used, healthy, cap) \<Rightarrow> fmt1 (divide cap (Fin 1000000)) @ '' Mbps'')"

text \<open>Where the log goes.\<close>

definition log_dir :: "string option \<Rightarrow> string" where
  "log_dir xdg_state_home =
     (case xdg_state_home of
        Some d \<Rightarrow> if d \<noteq> [] then d @ (if last d = CHR ''/'' then [] else ''/'') @ ''netmux'' else ''/tmp/netmux''
      | None \<Rightarrow> ''/tmp/netmux'')"

section \<open>The configuration under the handlers\<close>

definition policy_ok :: "interface_policy \<Rightarrow> bool" where
  "policy_ok p \<longleftrightarrow> 1 \<le> unat (pol_priority p) \<and> unat (pol_priority p) \<le> 99
     \<and> 1 \<le> unat (pol_weight p) \<and> unat (pol_weight p) \<le> 100"

definition config_ok :: "aggregator_config \<Rightarrow> bool" where
  "config_ok cfg \<longleftrightarrow> cfg_health_check_interval_secs cfg \<noteq> 0 \<and> hm_ok (cfg_interfaces cfg)
     \<and> (\<forall>n p. hm_get (cfg_interfaces cfg) n = Some p \<longrightarrow> policy_ok p)"

lemma config_ok_valid: "config_ok cfg \<Longrightarrow> validate cfg = Inr ()"
proof -
  assume ok: "config_ok cfg"
  have "pol_weight p \<noteq> 0" if "(n, p) \<in> set (cfg_interfaces cfg)" for n p
  proof -
    have "hm_get (cfg_interfaces cfg) n = Some p"
      using ok that hm.entries_get [of "cfg_interfaces cfg"] by (auto simp: config_ok_def)
    then have "policy_ok p" using ok by (auto simp: config_ok_def)
    then show ?thesis by (auto simp: policy_ok_def)
  qed
  then show ?thesis using ok by (auto simp: validate_def validate_weights_ok config_ok_def)
qed

lemma default_config_ok: "config_ok default_config"
  by (simp add: config_ok_def default_config_def)

lemma entry_ok: "config_ok cfg \<Longrightarrow> policy_ok (entry_or_default n (cfg_interfaces cfg))"
  by (auto simp: config_ok_def entry_or_default_def default_policy_def policy_ok_def split: option.splits)

lemma config_ok_insert:
  "config_ok cfg \<Longrightarrow> policy_ok p \<Longrightarrow> config_ok (cfg\<lparr>cfg_interfaces := hm_insert n p (cfg_interfaces cfg)\<rparr>)"
  by (auto simp: config_ok_def hm_simps split: if_splits)

lemma clamp_add_ok:
  assumes "unat x \<le> 100" "\<bar>sint d\<bar> \<le> 2 ^ 30" "1 \<le> hi" "hi \<le> 100"
  shows "\<exists>v. clamp_add x d 1 hi = Some v \<and> int (unat v) = min hi (max 1 (int (unat x) + sint d))"
proof -
  have x: "sint x = int (unat x)"
  proof -
    have u: "uint x = int (unat x)" by (rule uint_nat)
    have "signed_take_bit 31 (int m) = int m" if "m \<le> 100" for m
      using that by (intro signed_take_bit_int_eq_self) simp_all
    from this [OF assms(1)] have "signed_take_bit 31 (uint x) = uint x" by (simp only: u)
    moreover have "sint x = signed_take_bit 31 (uint x)" by (simp add: sint_uint)
    ultimately show ?thesis by (simp only: u)
  qed
  let ?v = "min hi (max 1 (int (unat x) + sint d))"
  have v: "1 \<le> ?v" "?v \<le> 100" using assms(3,4) by auto
  have "int (unat (of_int ?v :: u32)) = ?v"
    using v by (simp add: uint_word_of_int take_bit_eq_mod)
  moreover have "clamp_add x d 1 hi = Some (of_int ?v)"
  proof -
    define m where "m = int (unat x)"
    have "0 \<le> m" "m \<le> 100" using assms(1) by (simp_all only: m_def)
    then have "\<not> (m + sint d < - (2 ^ 31) \<or> 2 ^ 31 \<le> m + sint d)" using assms(2) by (simp add: abs_le_iff)
    then show ?thesis unfolding clamp_add_def x m_def [symmetric] by (simp only: Let_def if_False)
  qed
  ultimately show ?thesis by blast
qed

fun action_name :: "iface_act \<Rightarrow> string" where
  "action_name (Enable n b) = n"
| "action_name (Priority n d) = n"
| "action_name (Weight n d) = n"

fun action_delta :: "iface_act \<Rightarrow> int" where
  "action_delta (Enable n b) = 0"
| "action_delta (Priority n d) = sint d"
| "action_delta (Weight n d) = sint d"

text \<open>The effect asked for, on the policy before and after: one field moves, between its bounds.\<close>

fun acted :: "iface_act \<Rightarrow> interface_policy \<Rightarrow> interface_policy \<Rightarrow> bool" where
  "acted (Enable n b) p q \<longleftrightarrow> q = p\<lparr>pol_enabled := b\<rparr>"
| "acted (Priority n d) p q \<longleftrightarrow> q\<lparr>pol_priority := pol_priority p\<rparr> = p
     \<and> int (unat (pol_priority q)) = min 99 (max 1 (int (unat (pol_priority p)) + sint d))"
| "acted (Weight n d) p q \<longleftrightarrow> q\<lparr>pol_weight := pol_weight p\<rparr> = p
     \<and> int (unat (pol_weight q)) = min 100 (max 1 (int (unat (pol_weight p)) + sint d))"

lemma acted_ok:
  assumes "acted act p q" "policy_ok p"
  shows "policy_ok q"
proof (cases act)
  case (Priority n d)
  then have q: "q = p\<lparr>pol_priority := pol_priority q\<rparr>" "int (unat (pol_priority q)) = min 99 (max 1 (int (unat (pol_priority p)) + sint d))"
    using assms(1) by (cases p, cases q, simp)+
  then have "1 \<le> unat (pol_priority q)" "unat (pol_priority q) \<le> 99" by linarith+
  then show ?thesis using assms(2) by (subst q(1)) (simp add: policy_ok_def)
next
  case (Weight n d)
  then have q: "q = p\<lparr>pol_weight := pol_weight q\<rparr>" "int (unat (pol_weight q)) = min 100 (max 1 (int (unat (pol_weight p)) + sint d))"
    using assms(1) by (cases p, cases q, simp)+
  then have "1 \<le> unat (pol_weight q)" "unat (pol_weight q) \<le> 100" by linarith+
  then show ?thesis using assms(2) by (subst q(1)) (simp add: policy_ok_def)
qed (use assms in \<open>simp add: policy_ok_def\<close>)

lemma config_action_ok:
  assumes "config_ok cfg" "\<bar>action_delta act\<bar> \<le> 2 ^ 30"
  shows "\<exists>q. config_action act cfg = Some (cfg\<lparr>cfg_interfaces := hm_insert (action_name act) q (cfg_interfaces cfg)\<rparr>)
    \<and> acted act (entry_or_default (action_name act) (cfg_interfaces cfg)) q \<and> policy_ok q"
proof -
  let ?p = "entry_or_default (action_name act) (cfg_interfaces cfg)"
  have p: "policy_ok ?p" by (rule entry_ok [OF assms(1)])
  then have le: "unat (pol_priority ?p) \<le> 100" "unat (pol_weight ?p) \<le> 100" by (simp_all add: policy_ok_def)
  have "\<exists>q. config_action act cfg = Some (cfg\<lparr>cfg_interfaces := hm_insert (action_name act) q (cfg_interfaces cfg)\<rparr>)
      \<and> acted act ?p q"
  proof (cases act)
    case (Priority n d)
    then show ?thesis using clamp_add_ok [OF le(1), of d 99] assms(2) by (fastforce simp: Let_def)
  next
    case (Weight n d)
    then show ?thesis using clamp_add_ok [OF le(2), of d 100] assms(2) by (fastforce simp: Let_def)
  qed (simp add: Let_def)
  with acted_ok [OF _ p] show ?thesis by blast
qed

section \<open>The interface settings and the simulation\<close>

definition with_ifaces :: "(string, interface_policy) hmap \<Rightarrow> aggregator \<Rightarrow> aggregator" where
  "with_ifaces m ag = ag\<lparr>ag_config := (ag_config ag)\<lparr>cfg_interfaces := m\<rparr>\<rparr>"

definition world_with :: "(string, interface_policy) hmap \<Rightarrow> world \<Rightarrow> world" where
  "world_with m w = w\<lparr>w_agg := with_ifaces m (w_agg w)\<rparr>"

lemma with_ifaces_simps [simp]:
  "ag_candidates (with_ifaces m ag) = ag_candidates ag" "ag_flow_table (with_ifaces m ag) = ag_flow_table ag"
  "ag_mode (with_ifaces m ag) = ag_mode ag" "ag_rr_counter (with_ifaces m ag) = ag_rr_counter ag"
  "ag_config (with_ifaces m ag) = (ag_config ag)\<lparr>cfg_interfaces := m\<rparr>"
  "w_agg (world_with m w) = with_ifaces m (w_agg w)" "w_tx_packets (world_with m w) = w_tx_packets w"
  "w_tx_bytes (world_with m w) = w_tx_bytes w"
  by (simp_all add: with_ifaces_def world_with_def)

lemma select_ignores_ifaces: "select_interface (cfg\<lparr>cfg_interfaces := m\<rparr>) cs k rr = select_interface cfg cs k rr"
  by (simp add: select_interface_def Let_def cong: strategy.case_cong balance_algorithm.case_cong)

lemma route_with_ifaces: "route pkt (with_ifaces m ag) = map_option (\<lambda>(d, ag'). (d, with_ifaces m ag')) (route pkt ag)"
  by (simp add: route_def agg_select_def select_ignores_ifaces bind_map_option comp_def split: bind_splits option.splits prod.splits)
    (auto simp: with_ifaces_def)

lemma inject_with_ifaces: "inject_sim_candidates es (with_ifaces m ag) = with_ifaces m (inject_sim_candidates es ag)"
  by (simp add: inject_sim_candidates_def with_ifaces_def)

lemma sim_loop_with_ifaces:
  "sim_loop n (g, world_with m w) = map_option (\<lambda>(g', w'). (g', world_with m w')) (sim_loop n (g, w))"
proof (induction n arbitrary: g w)
  case (Suc n)
  show ?case
  proof (cases "next_packet (96 + unat (w_tx_packets w mod 5) * 64) g")
    case (Some x)
    obtain pkt g' where x: "x = (pkt, g')" by (cases x)
    obtain d ag where r: "route pkt (w_agg w) = Some (d, ag)" using route_returns by (metis surj_pair)
    have eq: "(world_with m w)\<lparr>w_agg := with_ifaces m ag\<rparr> = world_with m (w\<lparr>w_agg := ag\<rparr>)"
      "(world_with m v)\<lparr>w_tx_packets := tp, w_tx_bytes := tb\<rparr> = world_with m (v\<lparr>w_tx_packets := tp, w_tx_bytes := tb\<rparr>)" for tp tb v
      by (simp_all add: world_with_def)
    show ?thesis
      using Some r by (cases d) (simp_all add: x route_with_ifaces eq Suc.IH Let_def)
  qed simp
qed simp

section \<open>The simulation loop\<close>

lemma generated_parses:
  assumes "length (pg_seeds g) = 8"
  shows "\<exists>pkt g'. next_packet len g = Some (pkt, g') \<and> length (pg_seeds g') = 8 \<and> parse pkt = Some (Some (v4_flow pkt))"
proof -
  obtain pkt g' where np: "next_packet len g = Some (pkt, g')" using assms by (simp add: next_packet_eq)
  note sf = syn_flow [OF assms np]
  show ?thesis using np sf(1,2,4) by (auto intro: parse_v4_packet)
qed

definition live_world :: "world \<Rightarrow> bool" where
  "live_world w \<longleftrightarrow> cfg_enabled (ag_config (w_agg w)) \<and> agg_ok (w_agg w) \<and> usable (ag_candidates (w_agg w)) \<noteq> []"

lemma sim_loop_total:
  assumes "length (pg_seeds g) = 8"
  shows "\<exists>g' w' m. sim_loop n (g, w) = Some (g', w') \<and> length (pg_seeds g') = 8 \<and> m \<le> n
    \<and> w_tx_packets w' = w_tx_packets w + of_nat m \<and> w_tx_bytes w' = w_tx_bytes w + of_nat (150 * m)
    \<and> w_nat w' = w_nat w \<and> w_rx_packets w' = w_rx_packets w
    \<and> ag_candidates (w_agg w') = ag_candidates (w_agg w) \<and> (live_world w \<longrightarrow> m = n)"
  using assms
proof (induction n arbitrary: g w)
  case (Suc n)
  let ?len = "96 + unat (w_tx_packets w mod 5) * 64"
  obtain pkt g1 where np: "next_packet ?len g = Some (pkt, g1)" "length (pg_seeds g1) = 8"
    and p: "parse pkt = Some (Some (v4_flow pkt))"
    using generated_parses [OF Suc.prems] by blast
  obtain d ag where r: "route pkt (w_agg w) = Some (d, ag)" using route_returns by (metis surj_pair)
  note fr = route_frame [OF r]
  show ?case
  proof (cases d)
    case None
    then have "\<not> live_world w"
    proof (cases rule: route_cases [of "w_agg w" pkt])
      case (undecided f ag')
      then show ?thesis
        using agg_select_none(2) [OF undecided(3)] select_decides unfolding live_world_def agg_ok_def by blast
    qed (use r p None in \<open>auto simp: live_world_def\<close>)
    then show ?thesis using np r fr None by (auto simp: Let_def intro!: exI [of _ 0])
  next
    case (Some dec)
    then have i: "\<exists>n. fd_interface dec = Some n"
      using r by (cases rule: route_cases [of "w_agg w" pkt]) auto
    let ?w = "w\<lparr>w_agg := ag, w_tx_packets := w_tx_packets w + 1, w_tx_bytes := w_tx_bytes w + 150\<rparr>"
    obtain g' w' m where ih: "sim_loop n (g1, ?w) = Some (g', w')" "length (pg_seeds g') = 8" "m \<le> n"
      "w_tx_packets w' = w_tx_packets ?w + of_nat m" "w_tx_bytes w' = w_tx_bytes ?w + of_nat (150 * m)"
      "w_nat w' = w_nat ?w" "w_rx_packets w' = w_rx_packets ?w"
      "ag_candidates (w_agg w') = ag_candidates (w_agg ?w)" "live_world ?w \<longrightarrow> m = n"
      using Suc.IH [OF np(2), of ?w] by blast
    have "live_world ?w" if "live_world w"
      using that route_ok [OF _ r] fr by (simp add: live_world_def)
    moreover have "sim_loop (Suc n) (g, w) = Some (g', w')"
      using np r i ih(1) by (simp add: Some Let_def)
    ultimately show ?thesis
      using ih fr by (intro exI [of _ g'] exI [of _ w'] exI [of _ "Suc m"]) (simp add: algebra_simps)
  qed
qed simp

lemma duration_returns:
  "\<exists>ns. from_secs_f64 (u64_as_f64 h * round64 (16 / 1000)) = Some ns"
proof -
  obtain x where x: "u64_as_f64 h = Fin x" "0 \<le> x" "x \<le> 2 ^ 64" using u64_as_f64_bounded by blast
  obtain y where y: "round64 (16 / 1000) = Fin y" "0 \<le> y" "y \<le> 2 powi (- 5)"
  proof -
    have "(16 / 1000 :: rat) \<le> 2 powi (- 5)" by (simp add: power_int_def power_divide)
    from round64_at_most [OF _ this] that show thesis by auto
  qed
  have "x * y \<le> 2 ^ 64 * 2 powi (- 5)" using x y by (intro mult_mono) simp_all
  then have "x * y \<le> 2 ^ 59" by (simp add: power_int_def power_divide)
  then obtain z where "round64 (x * y) = Fin z" "0 \<le> z" "z \<le> 2 ^ 59"
    using round64_bounded [of "x * y" 59] x y by auto
  then show ?thesis unfolding x(1) y(1) by simp
qed


section \<open>The application as a transition system\<close>

text \<open>The steps of the UI thread; then the application, where the data-plane threads change the state it
  shares with them.\<close>

inductive ui_step :: "netmux_app \<Rightarrow> netmux_app \<Rightarrow> bool" where
  ui_toggle: "ui_step self (toggle_enabled self)"
| ui_cycle: "ui_step self (cycle_theme self)"
| ui_strategy: "ui_step self (set_strategy s self)"
| ui_algorithm: "ui_step self (set_algorithm a self)"
| ui_select_tab: "ui_step self (set_tab t self)"
| ui_render: "ui_step self (render_palette dark_window self)"
| ui_iface: "iface_action act self = Some self' \<Longrightarrow> \<bar>action_delta act\<bar> \<le> 1 \<Longrightarrow> ui_step self self'"
| ui_ticked: "app_tick fs now fs' later self = Some self' \<Longrightarrow> ui_step self self'"

inductive app_step :: "netmux_app \<Rightarrow> netmux_app \<Rightarrow> bool" where
  app_ui: "ui_step self self' \<Longrightarrow> app_step self self'"
| app_egress: "egress_step ips socks (app_world self, e) (w', e') \<Longrightarrow> app_step self (self\<lparr>app_world := w'\<rparr>)"
| app_capture: "capture_step (app_world self, p) (w', p') \<Longrightarrow> app_step self (self\<lparr>app_world := w'\<rparr>)"

inductive_cases ui_stepE: "ui_step self self'"
inductive_cases app_stepE: "app_step self self'"

abbreviation app_config :: "netmux_app \<Rightarrow> aggregator_config" where
  "app_config self \<equiv> ag_config (w_agg (app_world self))"

definition app_ok :: "netmux_app \<Rightarrow> bool" where
  "app_ok self \<longleftrightarrow> config_ok (app_config self) \<and> agg_ok (w_agg (app_world self))
     \<and> length (pg_seeds (app_generator self)) = 8"

lemma upd_config_sel [simp]:
  "app_config (upd_config f self) = f (app_config self)" "app_generator (upd_config f self) = app_generator self"
  "agg_ok (w_agg (app_world (upd_config f self))) = agg_ok (w_agg (app_world self))"
  "ag_mode (w_agg (app_world (upd_config f self))) = ag_mode (w_agg (app_world self))"
  by (simp_all add: upd_config_def agg_ok_def)

lemma iface_action_ok:
  assumes "app_ok self" "\<bar>action_delta act\<bar> \<le> 2 ^ 30"
  shows "\<exists>self'. iface_action act self = Some self' \<and> app_ok self'"
proof -
  have c: "config_ok (app_config self)" using assms(1) by (simp add: app_ok_def)
  obtain q where "config_action act (app_config self) =
      Some (app_config self\<lparr>cfg_interfaces := hm_insert (action_name act) q (cfg_interfaces (app_config self))\<rparr>)" "policy_ok q"
    using config_action_ok [OF c assms(2)] by blast
  then show ?thesis using assms(1) config_ok_insert [OF c] by (simp add: iface_action_def app_ok_def)
qed

lemma sim_tick_cases:
  assumes "length (pg_seeds (app_generator self)) = 8"
  obtains w dt g' w' m where "w = (if ag_candidates (w_agg (app_world self)) = []
      then (app_world self)\<lparr>w_agg := inject_sim_candidates sim_links (w_agg (app_world self))\<rparr> else app_world self)"
    and "from_secs_f64 (u64_as_f64 (max (cfg_health_check_interval_secs (app_config self)) 1) * round64 (16 / 1000)) = Some dt"
    and "sim_loop (min (per_tick (app_generator self) dt) 2000) (app_generator self, w) = Some (g', w')"
    and "sim_tick self = Some (self\<lparr>app_world := w', app_generator := g'\<rparr>)" "length (pg_seeds g') = 8"
    and "m \<le> min (per_tick (app_generator self) dt) 2000"
    and "w_tx_packets w' = w_tx_packets w + of_nat m" "w_tx_bytes w' = w_tx_bytes w + of_nat (150 * m)"
    and "live_world w \<longrightarrow> m = min (per_tick (app_generator self) dt) 2000"
    and "w_nat w' = w_nat w" "w_rx_packets w' = w_rx_packets w" "ag_candidates (w_agg w') = ag_candidates (w_agg w)"
proof -
  define w where "w = (if ag_candidates (w_agg (app_world self)) = []
      then (app_world self)\<lparr>w_agg := inject_sim_candidates sim_links (w_agg (app_world self))\<rparr> else app_world self)"
  obtain dt where dt: "from_secs_f64 (u64_as_f64 (max (cfg_health_check_interval_secs (app_config self)) 1) * round64 (16 / 1000)) = Some dt"
    using duration_returns by blast
  have c: "ag_config (w_agg w) = app_config self" by (simp add: w_def inject_sim_candidates_def)
  obtain g' w' m where l: "sim_loop (min (per_tick (app_generator self) dt) 2000) (app_generator self, w) = Some (g', w')"
    "length (pg_seeds g') = 8" "m \<le> min (per_tick (app_generator self) dt) 2000"
    "w_tx_packets w' = w_tx_packets w + of_nat m" "w_tx_bytes w' = w_tx_bytes w + of_nat (150 * m)"
    "w_nat w' = w_nat w" "w_rx_packets w' = w_rx_packets w" "ag_candidates (w_agg w') = ag_candidates (w_agg w)"
    "live_world w \<longrightarrow> m = min (per_tick (app_generator self) dt) 2000"
    using sim_loop_total [OF assms, of "min (per_tick (app_generator self) dt) 2000" w] by blast
  have "sim_tick self = Some (self\<lparr>app_world := w', app_generator := g'\<rparr>)"
    using dt l(1) unfolding sim_tick_def Let_def w_def [symmetric] c by simp
  with that [OF w_def dt l(1) _ l(2,3,4,5,9,6,7,8)] show thesis .
qed

text \<open>The loop goes through \<open>route\<close> only.\<close>

lemma sim_loop_frame:
  "sim_loop n (g, w) = Some (g', w') \<Longrightarrow> ag_config (w_agg w') = ag_config (w_agg w)
     \<and> ag_mode (w_agg w') = ag_mode (w_agg w) \<and> (agg_ok (w_agg w) \<longrightarrow> agg_ok (w_agg w'))"
proof (induction n arbitrary: g w)
  case (Suc n)
  obtain pkt g1 d ag where s: "next_packet (96 + unat (w_tx_packets w mod 5) * 64) g = Some (pkt, g1)"
    "route pkt (w_agg w) = Some (d, ag)"
    using Suc.prems by (auto split: bind_splits)
  note fr = route_frame [OF s(2)] and ok = route_ok [OF _ s(2)]
  show ?case
  proof (cases d)
    case None
    then show ?thesis using Suc.prems s fr ok by (auto simp: Let_def)
  next
    case (Some dec)
    let ?v = "if fd_interface dec \<noteq> None then w\<lparr>w_agg := ag, w_tx_packets := w_tx_packets w + 1, w_tx_bytes := w_tx_bytes w + 150\<rparr>
      else w\<lparr>w_agg := ag\<rparr>"
    have "sim_loop n (g1, ?v) = Some (g', w')" using Suc.prems s Some by (simp add: Let_def split: if_splits)
    from Suc.IH [OF this] show ?thesis using fr ok by auto
  qed
qed simp

lemma app_tick_ok:
  assumes "app_ok self"
  shows "\<exists>self'. app_tick fs now fs' later self = Some self' \<and> app_ok self'"
proof (cases "ag_mode (w_agg (app_world self)) = Simulation")
  case True
  have l: "length (pg_seeds (app_generator self)) = 8" using assms by (simp add: app_ok_def)
  show ?thesis
  proof (cases rule: sim_tick_cases [OF l])
    case (1 w dt g' w' m)
    have "agg_ok (w_agg w)" "ag_config (w_agg w) = app_config self"
      using assms 1(1) inject_ok by (auto simp: app_ok_def inject_sim_candidates_def)
    then show ?thesis
      using sim_loop_frame [OF 1(3)] 1(4,5) assms True by (simp add: app_tick_def app_ok_def)
  qed
next
  case False
  have "ag_config (agg_tick fs now fs' ag) = ag_config ag" for ag
    by (simp add: agg_tick_eq refresh_candidates_def Let_def)
  then show ?thesis using False assms by (simp add: app_tick_def tun_tick_def Let_def app_ok_def agg_tick_ok)
qed

lemma egress_step_agg:
  assumes "egress_step ips socks (w, e) (w', e')"
  shows "w_agg w' = w_agg w \<or> (\<exists>pkt d. route pkt (w_agg w) = Some (d, w_agg w'))"
  using assms
proof (cases rule: egress_step.cases)
  case (e_skip pkt ag')
  then show ?thesis using egress_pick_agg [OF e_skip(4)] by auto
next
  case (e_pick pkt f iface ip sock dst ag')
  then show ?thesis using egress_pick_agg [OF e_pick(4)] by auto
qed auto

lemma capture_step_agg: "capture_step (w, p) (w', p') \<Longrightarrow> w_agg w' = w_agg w"
  by (auto elim: capture_step.cases)

lemma ui_step_ok: "app_ok self \<Longrightarrow> ui_step self self' \<Longrightarrow> app_ok self'"
proof (erule ui_stepE)
  fix act
  assume "app_ok self" "iface_action act self = Some self'" "\<bar>action_delta act\<bar> \<le> 1"
  then show ?thesis using iface_action_ok [of self act] by auto
next
  fix fs now fs' later
  assume "app_ok self" "app_tick fs now fs' later self = Some self'"
  then show ?thesis using app_tick_ok [of self fs now fs' later] by auto
qed (simp_all add: app_ok_def set_tab_def render_palette_def toggle_enabled_def set_strategy_def set_algorithm_def cycle_theme_def config_ok_def)

lemma app_step_ok: "app_ok self \<Longrightarrow> app_step self self' \<Longrightarrow> app_ok self'"
proof (erule app_stepE)
  fix ips socks e w' e'
  assume ok: "app_ok self" and s: "self' = self\<lparr>app_world := w'\<rparr>" "egress_step ips socks (app_world self, e) (w', e')"
  from egress_step_agg [OF s(2)] ok s(1) show ?thesis
    by (auto simp: app_ok_def route_frame route_ok)
next
  fix p w' p'
  assume "app_ok self" "self' = self\<lparr>app_world := w'\<rparr>" "capture_step (app_world self, p) (w', p')"
  then show ?thesis using capture_step_agg by (auto simp: app_ok_def)
qed (rule ui_step_ok)

section \<open>The summary\<close>

lemma distribution_counts:
  "sum_list (map snd (distribution t)) = length t \<and> sorted (map fst (distribution t)) \<and> distinct (map fst (distribution t))
     \<and> (\<forall>(n, k) \<in> set (distribution t). k = length (filter (\<lambda>e. snd e = n) t) \<and> 0 < k)"
proof -
  have "sum_list (map (count_list (map snd t)) (sort (remdups (map snd t)))) = (\<Sum>n \<in> set (map snd t). count_list (map snd t) n)"
    by (subst sum_list_distinct_conv_sum_set) simp_all
  also have "\<dots> = length t" using sum_count_set [of "map snd t" "set (map snd t)"] by simp
  finally have "sum_list (map snd (distribution t)) = length t" by (simp add: distribution_def Let_def comp_def)
  moreover have "count_list (map snd t) n = length (filter (\<lambda>e. snd e = n) t)" for n by (induction t) auto
  moreover have "n \<in> snd ` set t \<Longrightarrow> 0 < count_list (map snd t) n" for n
    using count_list_0_iff [of "map snd t" n] by simp
  ultimately show ?thesis by (auto simp: distribution_def Let_def comp_def)
qed

section \<open>Bars\<close>

lemma foldl_f64_max:
  assumes "\<forall>v \<in> set vs. \<exists>x. v = Fin x"
  shows "\<exists>m. foldl f64_max (Fin a) vs = Fin m \<and> a \<le> m \<and> (\<forall>x. Fin x \<in> set vs \<longrightarrow> x \<le> m) \<and> (m = a \<or> Fin m \<in> set vs)"
  using assms
proof (induction vs arbitrary: a)
  case (Cons v vs)
  then obtain x where v: "v = Fin x" by auto
  have vs: "\<forall>v \<in> set vs. \<exists>x. v = Fin x" using Cons.prems by simp
  have "f64_max (Fin a) v = Fin (max a x)" by (simp add: v max_def)
  then have step: "foldl f64_max (Fin a) (v # vs) = foldl f64_max (Fin (max a x)) vs" by simp
  obtain m where m: "foldl f64_max (Fin (max a x)) vs = Fin m" "max a x \<le> m"
    "\<forall>y. Fin y \<in> set vs \<longrightarrow> y \<le> m" "m = max a x \<or> Fin m \<in> set vs"
    using Cons.IH [OF vs, of "max a x"] by blast
  have "m = a \<or> Fin m \<in> set (v # vs)" using m(4) by (auto simp: v max_def split: if_splits)
  moreover have "\<forall>y. Fin y \<in> set (v # vs) \<longrightarrow> y \<le> m" using m(2,3) by (simp add: v)
  moreover have "a \<le> m" using m(2) by simp
  ultimately show ?case unfolding step m(1) by blast
qed simp

lemma max_speed_eq:
  assumes "\<forall>c \<in> set cs. candidate_ok c"
  shows "\<exists>m. max_speed cs = Fin m \<and> 1 \<le> m \<and> (\<forall>c \<in> set cs. \<exists>x. load c = Fin x \<and> 0 \<le> x \<and> x \<le> m)
    \<and> (m = 1 \<or> (\<exists>c \<in> set cs. load c = Fin m))"
proof -
  let ?vs = "map (\<lambda>c. ci_tx_bps c + ci_rx_bps c) cs"
  have fin: "\<forall>c \<in> set cs. \<exists>x. load c = Fin x \<and> 0 \<le> x" using assms load_finite by blast
  then have "\<forall>v \<in> set ?vs. \<exists>x. v = Fin x" by (auto simp: load_def)
  from foldl_f64_max [OF this, of 0] obtain m where m: "foldl f64_max (Fin 0) ?vs = Fin m" "0 \<le> m"
    "\<forall>x. Fin x \<in> set ?vs \<longrightarrow> x \<le> m" "m = 0 \<or> Fin m \<in> set ?vs" by blast
  have mx: "max_speed cs = Fin (max m 1)" by (simp add: max_speed_def m(1) max_def)
  have "\<exists>x. load c = Fin x \<and> 0 \<le> x \<and> x \<le> max m 1" if c: "c \<in> set cs" for c
  proof -
    obtain x where x: "load c = Fin x" "0 \<le> x" using fin c by blast
    then have "Fin x \<in> set ?vs" using c by (force simp: load_def)
    with m(3) have "x \<le> m" by blast
    with x show ?thesis by (intro exI [of _ x]) simp
  qed
  moreover have "max m 1 = 1 \<or> (\<exists>c \<in> set cs. load c = Fin (max m 1))"
    using m(4) by (auto simp: load_def max_def)
  ultimately show ?thesis using mx by (intro exI [of _ "max m 1"]) auto
qed

section \<open>Properties\<close>

text \<open>The load bars are proportional.  For candidates whose rates are measured ones, the ratio a bar
  is drawn with is a number between 0 and 1 before the clamp already, it is exactly 1 for the busiest
  link (if that moves at least a byte per second), and never NaN, although no link may be moving.\<close>

theorem bars_in_range:
  assumes "\<forall>c \<in> set cs. candidate_ok c" and "c \<in> set cs"
  shows "\<exists>x. load_ratio cs c = Fin x \<and> 0 \<le> x \<and> x \<le> 1 \<and> divide (load c) (f64_max (max_speed cs) (Fin 1)) = Fin x
    \<and> (load c = max_speed cs \<longrightarrow> x = 1)"
proof -
  obtain m where m: "max_speed cs = Fin m" "1 \<le> m" "\<forall>c \<in> set cs. \<exists>x. load c = Fin x \<and> 0 \<le> x \<and> x \<le> m"
    using max_speed_eq [OF assms(1)] by blast
  obtain x where x: "load c = Fin x" "0 \<le> x" "x \<le> m" using m(3) assms(2) by blast
  have "x / m \<le> 2 ^ 0" "0 \<le> x / m" using x m(2) by (simp_all add: divide_le_eq)
  then obtain y where y: "round64 (x / m) = Fin y" "0 \<le> y" "y \<le> 1" using round64_bounded [of "x / m" 0] by auto
  have d: "divide (load c) (f64_max (max_speed cs) (Fin 1)) = Fin y"
    using x m(1,2) y(1) by simp
  have "y = 1" if "x = m"
    using y(1) m(2) that round64_nat [of 1] by simp
  with d x m(1) y show ?thesis by (intro exI [of _ y]) (simp add: load_ratio_def clamp01_def load_def)
qed

lemma bars_in_range_witness:
  "\<exists>x. load_ratio two_links (hd two_links) = Fin x \<and> 0 \<le> x \<and> x \<le> 1"
proof -
  have "\<forall>c \<in> set two_links. candidate_ok c" "hd two_links \<in> set two_links"
    by (simp_all add: two_links_def mk_candidate_def candidate_ok_def rate_ok_def)
  from bars_in_range [OF this] show ?thesis by blast
qed

text \<open>C37: The interface buttons keep the configuration valid.  On a configuration whose weights and
  priorities are in range, every button press (a delta of up to \<open>2 ^ 30\<close> in size; the view sends 1 and
  -1) returns without an overflow, changes the one field of the one interface to the clamped value the
  user asked for, starting from the default policy if the interface had none, leaves every other
  interface and setting alone, and the result still passes \<open>validate\<close>.\<close>

theorem handlers_keep_config_valid:
  assumes "config_ok cfg" and "\<bar>action_delta act\<bar> \<le> 2 ^ 30"
  shows "\<exists>cfg' q. config_action act cfg = Some cfg' \<and> config_ok cfg' \<and> validate cfg' = Inr ()
    \<and> acted act (entry_or_default (action_name act) (cfg_interfaces cfg)) q
    \<and> hm_get (cfg_interfaces cfg') = (hm_get (cfg_interfaces cfg))(action_name act \<mapsto> q)
    \<and> cfg'\<lparr>cfg_interfaces := cfg_interfaces cfg\<rparr> = cfg"
proof -
  obtain q where q: "config_action act cfg = Some (cfg\<lparr>cfg_interfaces := hm_insert (action_name act) q (cfg_interfaces cfg)\<rparr>)"
    "acted act (entry_or_default (action_name act) (cfg_interfaces cfg)) q" "policy_ok q"
    using config_action_ok [OF assms] by blast
  note ok = config_ok_insert [OF assms(1) q(3), of "action_name act"]
  show ?thesis using q ok config_ok_valid [OF ok] by (intro exI conjI) (auto simp: hm.get_insert)
qed

lemma handlers_keep_config_valid_witness:
  "\<exists>cfg'. config_action (Weight ''eth0'' 1) default_config = Some cfg' \<and> validate cfg' = Inr ()"
  using handlers_keep_config_valid [OF default_config_ok, of "Weight ''eth0'' 1"] by auto

text \<open>C38: One tick of the simulation returns, whatever the state: the duration conversion does not panic,
  the packets are generated and routed, and the counters grow by some number of packets, 150 bytes
  each, at most the generator's rate and at most 2000; when the aggregation is enabled and a usable
  link exists or the demo links have to be injected, by exactly that many.  NAT sessions and the
  return counter are untouched.\<close>

theorem sim_tick_counts:
  assumes "length (pg_seeds (app_generator self)) = 8"
  shows "\<exists>self' dt m. sim_tick self = Some self'
    \<and> from_secs_f64 (u64_as_f64 (max (cfg_health_check_interval_secs (app_config self)) 1) * round64 (16 / 1000)) = Some dt
    \<and> m \<le> min (per_tick (app_generator self) dt) 2000
    \<and> w_tx_packets (app_world self') = w_tx_packets (app_world self) + of_nat m
    \<and> w_tx_bytes (app_world self') = w_tx_bytes (app_world self) + of_nat (150 * m)
    \<and> w_nat (app_world self') = w_nat (app_world self) \<and> w_rx_packets (app_world self') = w_rx_packets (app_world self)
    \<and> (let ag = w_agg (app_world self) in cfg_enabled (ag_config ag) \<and> agg_ok ag
         \<and> (ag_candidates ag = [] \<or> usable (ag_candidates ag) \<noteq> []) \<longrightarrow> m = min (per_tick (app_generator self) dt) 2000)"
proof (cases rule: sim_tick_cases [OF assms])
  case (1 w dt g' w' m)
  have w: "w_tx_packets w = w_tx_packets (app_world self)" "w_tx_bytes w = w_tx_bytes (app_world self)"
    "w_nat w = w_nat (app_world self)" "w_rx_packets w = w_rx_packets (app_world self)"
    by (simp_all add: 1(1))
  have u: "usable (ag_candidates (inject_sim_candidates sim_links ag)) \<noteq> []" for ag
    by (simp add: sim_links_def inject_sim_candidates_def Let_def usable_def)
  have c: "ag_config (inject_sim_candidates sim_links ag) = ag_config ag" for ag by (simp add: inject_sim_candidates_def)
  have "live_world w" if "cfg_enabled (app_config self)" "agg_ok (w_agg (app_world self))"
    "ag_candidates (w_agg (app_world self)) = [] \<or> usable (ag_candidates (w_agg (app_world self))) \<noteq> []"
    using that u inject_ok by (auto simp: live_world_def 1(1) c)
  then show ?thesis using 1 w by (intro exI [of _ "self\<lparr>app_world := w', app_generator := g'\<rparr>"] exI [of _ dt] exI [of _ m]) (auto simp: Let_def)
qed

definition sample_app :: netmux_app where
  "sample_app = \<lparr>app_world = \<lparr>w_agg = fresh_agg, w_nat = nat_new, w_tx_packets = 0, w_tx_bytes = 0, w_rx_packets = 0,
     w_sent = [], w_injected = []\<rparr>, app_generator = default_generator, app_tab = Tab_Dashboard, app_banner = None,
     app_last_summary = 0, app_theme_mode = Theme_System, app_active_theme = theme_dark\<rparr>"

lemma sample_app_ok: "app_ok sample_app"
  using agg_new_ok [OF fresh_agg_init] default_config_ok
  by (simp add: app_ok_def sample_app_def default_generator_def fresh_agg_def)

lemma sim_tick_counts_witness:
  "\<exists>self' m. sim_tick sample_app = Some self' \<and> w_tx_packets (app_world self') = of_nat m
     \<and> w_tx_bytes (app_world self') = of_nat (150 * m) \<and> m \<le> 2000"
proof -
  have "length (pg_seeds (app_generator sample_app)) = 8" using sample_app_ok by (simp add: app_ok_def)
  from sim_tick_counts [OF this] obtain self' dt m where "sim_tick sample_app = Some self'"
    "m \<le> min (per_tick (app_generator sample_app) dt) 2000"
    "w_tx_packets (app_world self') = w_tx_packets (app_world sample_app) + of_nat m"
    "w_tx_bytes (app_world self') = w_tx_bytes (app_world sample_app) + of_nat (150 * m)" by blast
  then show ?thesis by (intro exI [of _ self'] exI [of _ m]) (simp add: sample_app_def)
qed

text \<open>In simulation mode the interface settings do nothing: after any enable, priority or weight
  button, the next tick produces the same candidates, the same flow table and the same counters as
  without it, because the simulated links are injected with fixed policies and never refreshed.\<close>

theorem simulation_ignores_settings:
  assumes "ag_mode (w_agg (app_world self)) = Simulation"
    and "iface_action act self = Some self2" and "app_tick fs now fs' later self = Some self1"
  shows "\<exists>self3. app_tick fs now fs' later self2 = Some self3
    \<and> ag_candidates (w_agg (app_world self3)) = ag_candidates (w_agg (app_world self1))
    \<and> ag_flow_table (w_agg (app_world self3)) = ag_flow_table (w_agg (app_world self1))
    \<and> w_tx_packets (app_world self3) = w_tx_packets (app_world self1)
    \<and> w_tx_bytes (app_world self3) = w_tx_bytes (app_world self1)"
proof -
  obtain m where "config_action act (app_config self) = Some (app_config self\<lparr>cfg_interfaces := m\<rparr>)"
    using assms(2) by (cases act) (auto simp: iface_action_def Let_def split: bind_splits)
  then have s2: "self2 = self\<lparr>app_world := world_with m (app_world self)\<rparr>"
    using assms(2) by (auto simp: iface_action_def upd_config_def world_with_def with_ifaces_def)
  let ?inj = "\<lambda>w. if ag_candidates (w_agg w) = [] then w\<lparr>w_agg := inject_sim_candidates sim_links (w_agg w)\<rparr> else w"
  have inj: "?inj (world_with m w) = world_with m (?inj w)" for w
    using inject_with_ifaces by (simp add: world_with_def)
  let ?dt = "u64_as_f64 (max (cfg_health_check_interval_secs (app_config self)) 1) * round64 (16 / 1000)"
  obtain d where d: "from_secs_f64 ?dt = Some d" using duration_returns by blast
  let ?n = "min (per_tick (app_generator self) d) 2000" and ?g = "app_generator self"
  have cfg: "app_config self2 = (app_config self)\<lparr>cfg_interfaces := m\<rparr>" by (simp add: s2)
  have h: "cfg_health_check_interval_secs (ag_config (w_agg (?inj w))) = cfg_health_check_interval_secs (ag_config (w_agg w))" for w
    by (simp add: inject_sim_candidates_def)
  have t: "sim_tick a = map_option (\<lambda>(g, w). a\<lparr>app_world := w, app_generator := g\<rparr>) (sim_loop ?n (?g, ?inj (app_world a)))"
    if "cfg_health_check_interval_secs (app_config a) = cfg_health_check_interval_secs (app_config self)" "app_generator a = ?g" for a
    unfolding sim_tick_def Let_def h that d
    by (cases "sim_loop ?n (?g, ?inj (app_world a))") (simp_all add: split_beta)
  have "sim_loop ?n (?g, ?inj (app_world self2)) =
      map_option (\<lambda>(g, w). (g, world_with m w)) (sim_loop ?n (?g, ?inj (app_world self)))"
  proof -
    have "app_world self2 = world_with m (app_world self)" by (simp add: s2)
    then show ?thesis by (simp only: inj sim_loop_with_ifaces)
  qed
  then have "sim_tick self2 = map_option (\<lambda>s. s\<lparr>app_world := world_with m (app_world s)\<rparr>) (sim_tick self)"
  proof -
    have r: "self2\<lparr>app_world := world_with m w, app_generator := g\<rparr> =
        (self\<lparr>app_world := w, app_generator := g\<rparr>)\<lparr>app_world := world_with m w\<rparr>" for w g by (simp add: s2)
    have "app_generator self2 = ?g" by (simp add: s2)
    then have "sim_tick self2 = map_option (\<lambda>(g, w). self2\<lparr>app_world := w, app_generator := g\<rparr>)
        (sim_loop ?n (?g, ?inj (app_world self2)))" by (intro t) (simp_all add: cfg)
    with \<open>sim_loop ?n (?g, ?inj (app_world self2)) = _\<close> show ?thesis
      unfolding t [OF refl refl] by (simp only: option.map_comp comp_def split_beta fst_conv snd_conv r)
        (simp add: option.map_comp comp_def split_beta)
  qed
  then show ?thesis
    using assms(1,3) by (auto simp: app_tick_def s2)
qed

lemma simulation_ignores_settings_witness:
  "\<exists>self1 self2 self3. app_tick live_fs 0 live_fs 0 sample_app = Some self1 \<and> iface_action (Enable ''eth0'' False) sample_app = Some self2
     \<and> app_tick live_fs 0 live_fs 0 self2 = Some self3
     \<and> ag_candidates (w_agg (app_world self3)) = ag_candidates (w_agg (app_world self1))"
proof -
  obtain self1 where t: "app_tick live_fs 0 live_fs 0 sample_app = Some self1" using app_tick_ok [OF sample_app_ok] by blast
  obtain self2 where i: "iface_action (Enable ''eth0'' False) sample_app = Some self2"
    using iface_action_ok [OF sample_app_ok, of "Enable ''eth0'' False"] by auto
  have "ag_mode (w_agg (app_world sample_app)) = Simulation" by (simp add: sample_app_def fresh_agg_def)
  from simulation_ignores_settings [OF this i t] t i show ?thesis by blast
qed

end
