(* ===== verification/Startup.thy ===== *)
theory Startup
  imports App
begin

text \<open>
  Starting the application: \<open>start_data_plane\<close> opens the links of the usable candidates (which
  descriptors are open afterwards, which interfaces the egress thread can use), and \<open>app_new\<close> chooses
  the mode and builds the initial state, from which the application's transition system runs.
\<close>

section \<open>Opening the links\<close>

definition links_fds :: "links \<Rightarrow> nat set" where
  "links_fds lk = re_fd ` set (map snd (ln_egress lk)) \<union> rc_fd ` set (ln_captures lk)"

definition links_ok :: "(string, ipv4) hmap \<Rightarrow> candidate list \<Rightarrow> links \<Rightarrow> bool" where
  "links_ok ipv4 cs lk \<longleftrightarrow> hm_ok (ln_egress lk) \<and> hm_ok (ln_ips lk)
     \<and> dom (hm_get (ln_ips lk)) = dom (hm_get (ln_egress lk))
     \<and> (\<forall>n s. hm_get (ln_egress lk) n = Some s \<longrightarrow> re_ifname s = n)
     \<and> (\<forall>n ip. hm_get (ln_ips lk) n = Some ip \<longrightarrow> hm_get ipv4 n = Some ip
          \<and> (\<exists>c \<in> set cs. ci_name c = n \<and> pol_enabled (ci_policy c) \<and> ci_healthy c))"

lemma egress_open_ifname: "egress_open k le n os = (Inr s, os') \<Longrightarrow> re_ifname s = n"
  by (erule egress_open_cases) auto

lemma open_link_ok:
  assumes "open_link k le ipv4 c (lk, os) = (lk', os')" "links_ok ipv4 cs lk" "c \<in> set cs"
  shows "links_ok ipv4 cs lk'"
proof -
  have ins: "links_ok ipv4 cs (lk\<lparr>ln_ips := hm_insert (ci_name c) ip (ln_ips lk),
      ln_egress := hm_insert (ci_name c) sock (ln_egress lk)\<rparr>)"
    if "hm_get ipv4 (ci_name c) = Some ip" "pol_enabled (ci_policy c)" "ci_healthy c"
      "egress_open k le (ci_name c) os = (Inr sock, os2)" for ip sock os2
    using that egress_open_ifname [OF that(4)] assms(2,3) by (auto simp: links_ok_def hm_simps split: if_splits)
  have cap: "links_ok ipv4 cs (l\<lparr>ln_captures := x\<rparr>)" if "links_ok ipv4 cs l" for l x
    using that by (simp add: links_ok_def)
  show ?thesis
    using assms(1,2) ins cap
    by (auto simp: open_link_def Let_def split: if_splits option.splits prod.splits sum.splits)
qed

text \<open>On a fresh name a link adds its own descriptors and nothing else.\<close>

lemma insert_new_values:
  "hm_get m n = None \<Longrightarrow> set (map snd (hm_insert n v m)) = insert v (set (map snd m))"
proof -
  assume "hm_get m n = None"
  then have "hm_insert n v m = m @ [(n, v)]"
    by (induction m) (auto split: if_splits)
  then show ?thesis by simp
qed

lemma open_link_fds:
  assumes "open_link k le ipv4 c (lk, os) = (lk', os')" "fresh_fds k" "cstring (ci_name c) \<noteq> None"
    and "hm_get (ln_egress lk) (ci_name c) = None" "os_fds os = base \<union> links_fds lk"
  shows "os_fds os' = base \<union> links_fds lk'"
    and "dom (hm_get (ln_egress lk')) \<subseteq> insert (ci_name c) (dom (hm_get (ln_egress lk)))"
proof -
  have ok: "fresh_fds k \<and> cstring (ci_name c) \<noteq> None" using assms(2,3) ..
  obtain r1 o1 where 1: "egress_open k le (ci_name c) os = (r1, o1)" by fastforce
  obtain r2 o2 where 2: "capture_open k le (ci_name c) o1 = (r2, o2)" by fastforce
  note e1 = egress.open_effect [OF ok 1] and e2 = capture.open_effect [OF ok 2]
  have "os_fds os' = base \<union> links_fds lk' \<and>
      dom (hm_get (ln_egress lk')) \<subseteq> insert (ci_name c) (dom (hm_get (ln_egress lk)))"
  proof (cases "pol_enabled (ci_policy c) \<and> ci_healthy c \<and> hm_get ipv4 (ci_name c) \<noteq> None")
    case False
    then show ?thesis using assms(1,5) by (auto simp: open_link_def split: if_splits option.splits)
  next
    case True
    then obtain ip where ip: "hm_get ipv4 (ci_name c) = Some ip" by blast
    show ?thesis
    proof (cases r1)
      case (Inl e)
      then show ?thesis using assms(1,5) True ip 1 e1 by (auto simp: open_link_def)
    next
      case (Inr sock)
      let ?lk = "lk\<lparr>ln_ips := hm_insert (ci_name c) ip (ln_ips lk), ln_egress := hm_insert (ci_name c) sock (ln_egress lk)\<rparr>"
      have f1: "os_fds o1 = insert (re_fd sock) (os_fds os)" using e1 Inr by simp
      have fl: "links_fds ?lk = insert (re_fd sock) (links_fds lk)"
        unfolding links_fds_def using insert_new_values [OF assms(4), of sock] by simp
      have dm: "dom (hm_get (ln_egress ?lk)) = insert (ci_name c) (dom (hm_get (ln_egress lk)))"
        by (auto simp: hm.get_insert)
      show ?thesis
      proof (cases r2)
        case (Inl e)
        then have "lk' = ?lk" "os' = o2" using assms(1) True ip 1 Inr 2 assms(4)
          by (auto simp: open_link_def Let_def)
        then show ?thesis using e2 Inl f1 fl dm assms(5) by auto
      next
        case (Inr cap)
        then have "lk' = ?lk\<lparr>ln_captures := ln_captures ?lk @ [cap]\<rparr>" "os' = o2"
          using assms(1) True ip 1 \<open>r1 = Inr sock\<close> 2 assms(4) by (auto simp: open_link_def Let_def)
        then show ?thesis using e2 Inr f1 fl dm assms(5) by (auto simp: links_fds_def)
      qed
    qed
  qed
  then show "os_fds os' = base \<union> links_fds lk'"
    "dom (hm_get (ln_egress lk')) \<subseteq> insert (ci_name c) (dom (hm_get (ln_egress lk)))" by auto
qed

lemma open_links_fold:
  assumes "fold (open_link k le ipv4) cs (lk, os) = (lk', os')" "links_ok ipv4 all lk" "set cs \<subseteq> set all"
  shows "links_ok ipv4 all lk'"
  using assms
proof (induction cs arbitrary: lk os)
  case (Cons c cs)
  obtain lk1 os1 where s: "open_link k le ipv4 c (lk, os) = (lk1, os1)" by fastforce
  then have "links_ok ipv4 all lk1" using open_link_ok [OF s] Cons.prems by simp
  then show ?case using Cons s by simp
qed simp

lemma open_links_fds:
  assumes "fold (open_link k le ipv4) cs (lk, os) = (lk', os')" "fresh_fds k"
    and "\<forall>c \<in> set cs. cstring (ci_name c) \<noteq> None" "distinct (map ci_name cs)"
    and "dom (hm_get (ln_egress lk)) \<inter> set (map ci_name cs) = {}" "os_fds os = base \<union> links_fds lk"
  shows "os_fds os' = base \<union> links_fds lk'"
  using assms
proof (induction cs arbitrary: lk os)
  case (Cons c cs)
  obtain lk1 os1 where s: "open_link k le ipv4 c (lk, os) = (lk1, os1)" by fastforce
  have n: "hm_get (ln_egress lk) (ci_name c) = None" using Cons.prems(5) by (auto simp: dom_def)
  note o = open_link_fds [OF s Cons.prems(2) _ n Cons.prems(6)]
  have c: "cstring (ci_name c) \<noteq> None" using Cons.prems(3) by simp
  have "ci_name c \<notin> set (map ci_name cs)" using Cons.prems(4) by simp
  moreover have "dom (hm_get (ln_egress lk)) \<inter> set (map ci_name cs) = {}"
    using Cons.prems(5) by (simp only: list.map set_simps) blast
  ultimately have d: "dom (hm_get (ln_egress lk1)) \<inter> set (map ci_name cs) = {}"
    using o(2) [OF c] by blast
  show ?case using Cons.IH [OF _ Cons.prems(2) _ _ d o(1) [OF c]] Cons.prems s by simp
qed simp

lemma links_empty [simp]: "links_ok ipv4 cs \<lparr>ln_egress = [], ln_ips = [], ln_captures = []\<rparr>"
  "links_fds \<lparr>ln_egress = [], ln_ips = [], ln_captures = []\<rparr> = {}"
  by (simp_all add: links_ok_def links_fds_def)

lemma start_data_plane_ok:
  "start_data_plane k le ifas cs os = (lk, os') \<Longrightarrow> links_ok (ipv4_addrs ifas) cs lk"
  unfolding start_data_plane_def by (rule open_links_fold [OF _ links_empty(1) order_refl])

section \<open>Choosing the mode\<close>

lemma choose_mode_cases:
  assumes "keeps_names k"
  obtains (tunnel) t os1 os2 where "''--tun'' \<in> set args" "tun_create k le ''netmux0'' os = (Some (Inr t), os1)"
      "tun_name t = ''netmux0''"
      "choose_mode strerror k le args os = (Some (Tunnelling, None, Some t), os2)"
      "fresh_fds k \<Longrightarrow> os_fds os2 = os_fds os1"
  | (refused) e os1 msg where "''--tun'' \<in> set args" "tun_create k le ''netmux0'' os = (Some (Inl e), os1)"
      "choose_mode strerror k le args os = (Some (Simulation, Some msg, None), os1)"
      "msg = (case e of Permission m \<Rightarrow> m | _ \<Rightarrow> error_text strerror e)"
  | (simulate) "''--tun'' \<notin> set args"
      "choose_mode strerror k le args os = (Some (Simulation, Some simulation_banner, None), os)"
proof (cases "''--tun'' \<in> set args")
  case True
  obtain r os1 where tc: "tun_create k le ''netmux0'' os = (Some r, os1)"
    using tun_create_returns [of "''netmux0''" k le os] by auto
  show thesis
  proof (cases r)
    case (Inl e)
    have "choose_mode strerror k le args os =
        (Some (Simulation, Some (case e of Permission m \<Rightarrow> m | _ \<Rightarrow> error_text strerror e), None), os1)"
      using True tc Inl by (cases e) (simp_all add: choose_mode_def)
    then show thesis using True tc Inl by (intro refused [of e os1]) simp_all
  next
    case (Inr t)
    have name: "tun_name t = ''netmux0''"
      using tun_create_keeps_name [OF assms netmux0_cstring _ netmux0_utf8] tc Inr by simp
    obtain r1 os2 where nb: "set_nonblocking k t os1 = (r1, os2)" by fastforce
    obtain r2 os3 where up: "set_up k le ''netmux0'' os2 = (Some r2, os3)"
      using set_up_returns [of "''netmux0''" k le os2] by auto
    have "fresh_fds k \<Longrightarrow> os_fds os3 = os_fds os1"
      using set_nonblocking_fds [OF nb] set_up_fds [OF _ up] by simp
    then show thesis
      using True tc Inr name nb up by (intro tunnel [of t os1 os3]) (simp_all add: choose_mode_def Let_def)
  qed
qed (auto simp: choose_mode_def intro: simulate)

section \<open>The started application\<close>

lemma aggregator_new_default:
  "aggregator_new default_config m now = Inr \<lparr>ag_config = default_config, ag_mode = m, ag_stats = default_stats now,
     ag_candidates = [], ag_rr_counter = 0, ag_flow_table = []\<rparr>"
  by (simp add: aggregator_new_Inr config_ok_valid default_config_ok)

definition started :: "sysfs \<Rightarrow> nat \<Rightarrow> mode \<Rightarrow> string option \<Rightarrow> netmux_app \<Rightarrow> bool" where
  "started fs now m banner self \<longleftrightarrow> app_banner self = banner \<and> app_tab self = Tab_Dashboard
     \<and> app_world self = \<lparr>w_agg = refresh_candidates fs \<lparr>ag_config = default_config, ag_mode = m,
          ag_stats = default_stats now, ag_candidates = [], ag_rr_counter = 0, ag_flow_table = []\<rparr>, w_nat = nat_new,
        w_tx_packets = 0, w_tx_bytes = 0, w_rx_packets = 0, w_sent = [], w_injected = []\<rparr>
     \<and> app_generator self = default_generator"

lemma app_new_cases:
  assumes "keeps_names k"
  obtains (tunnel) self t os1 os2 lk os' where "''--tun'' \<in> set args"
      "tun_create k le ''netmux0'' os = (Some (Inr t), os1)" "tun_name t = ''netmux0''"
      "app_new strerror k le args fs now ifas os = (Some (self, Some lk), os')" "started fs now Tunnelling None self"
      "start_data_plane k le ifas (ag_candidates (w_agg (app_world self))) os2 = (lk, os')"
      "fresh_fds k \<Longrightarrow> os_fds os2 = os_fds os1"
  | (refused) self e os1 msg where "''--tun'' \<in> set args" "tun_create k le ''netmux0'' os = (Some (Inl e), os1)"
      "app_new strerror k le args fs now ifas os = (Some (self, None), os1)" "started fs now Simulation (Some msg) self"
      "msg = (case e of Permission m \<Rightarrow> m | _ \<Rightarrow> error_text strerror e)"
  | (simulate) self where "''--tun'' \<notin> set args"
      "app_new strerror k le args fs now ifas os = (Some (self, None), os)"
      "started fs now Simulation (Some simulation_banner) self"
proof -
  let ?ag = "\<lambda>m. refresh_candidates fs \<lparr>ag_config = default_config, ag_mode = m, ag_stats = default_stats now,
    ag_candidates = [], ag_rr_counter = 0, ag_flow_table = []\<rparr>"
  let ?self = "\<lambda>m b. \<lparr>app_world = \<lparr>w_agg = ?ag m, w_nat = nat_new, w_tx_packets = 0, w_tx_bytes = 0,
      w_rx_packets = 0, w_sent = [], w_injected = []\<rparr>, app_generator = default_generator, app_tab = Tab_Dashboard,
    app_banner = b, app_last_summary = now, app_theme_mode = Theme_System, app_active_theme = theme_dark\<rparr>"
  have st: "started fs now m b (?self m b)" for m b by (simp add: started_def)
  show thesis
  proof (cases rule: choose_mode_cases [OF assms, of args le os strerror])
    case (1 t os1 os2)
    obtain lk os' where sd: "start_data_plane k le ifas (ag_candidates (?ag Tunnelling)) os2 = (lk, os')" by fastforce
    show thesis
      by (rule tunnel [OF 1(1,2,3) _ st [of Tunnelling None] _ 1(5), of lk os'])
        (simp_all add: app_new_def 1(4) aggregator_new_default Let_def sd)
  next
    case (2 e os1 msg)
    show thesis
      by (rule refused [OF 2(1,2) _ st [of Simulation "Some msg"] 2(4)])
        (simp add: app_new_def 2(3) aggregator_new_default Let_def)
  next
    case 3
    show thesis
      by (rule simulate [OF 3(1) _ st [of Simulation "Some simulation_banner"]])
        (simp add: app_new_def 3(2) aggregator_new_default Let_def)
  qed
qed

lemma started_ok: "started fs now m b self \<Longrightarrow> app_ok self"
proof -
  assume s: "started fs now m b self"
  have "agg_ok (refresh_candidates fs \<lparr>ag_config = default_config, ag_mode = m, ag_stats = default_stats now,
    ag_candidates = [], ag_rr_counter = 0, ag_flow_table = []\<rparr>)"
    by (intro refresh_candidates_ok agg_new_ok) (auto simp: agg_init_def aggregator_new_Inr config_ok_valid default_config_ok)
  then show ?thesis
    using s by (simp add: app_ok_def started_def default_generator_def)
      (simp add: refresh_candidates_def Let_def default_config_ok)
qed

definition app_init :: "netmux_app \<Rightarrow> bool" where
  "app_init self \<longleftrightarrow> (\<exists>strerror k le args fs now ifas os lk os'. keeps_names k
     \<and> app_new strerror k le args fs now ifas os = (Some (self, lk), os'))"

lemma app_init_ok: "app_init self \<Longrightarrow> app_ok self"
proof -
  assume "app_init self"
  then obtain strerror k le args fs now ifas os lk os'
    where k: "keeps_names k" and n: "app_new strerror k le args fs now ifas os = (Some (self, lk), os')"
    unfolding app_init_def by blast
  show "app_ok self"
    by (cases rule: app_new_cases [OF k, of args le os strerror fs now ifas]) (use n started_ok in auto)
qed

interpretation app_sys: invariant_system app_init app_step app_ok
  by unfold_locales (fact app_init_ok, fact app_step_ok)

section \<open>Properties\<close>




lemma easy_keeps_names: "keeps_names (easy_kernel frame)"
  by (simp add: keeps_names_def easy_kernel_def blit_def)


text \<open>C18: The user interface never panics.  From any construction, after any sequence of button presses,
  ticks and data-plane steps, the configuration is valid, the next tick returns, and so does every
  button press with a delta of 1 or -1; so the UI thread never dies and never poisons the
  aggregator's lock.\<close>

theorem app_never_panics:
  assumes "app_init self0" and "app_step\<^sup>*\<^sup>* self0 self" and "\<bar>action_delta act\<bar> \<le> 1"
  shows "validate (app_config self) = Inr () \<and> app_tick fs now fs' later self \<noteq> None \<and> iface_action act self \<noteq> None"
proof -
  have ok: "app_ok self" by (rule app_sys.reachable_inv [OF assms(1,2)])
  have "\<bar>action_delta act\<bar> \<le> 2 ^ 30" using assms(3) by simp
  with ok show ?thesis
    using app_tick_ok [OF ok, of fs now fs' later] iface_action_ok [OF ok, of act] config_ok_valid by (auto simp: app_ok_def)
qed

lemma app_never_panics_witness:
  "\<exists>self0 self. app_init self0 \<and> app_step self0 self \<and> app_tick live_fs 0 live_fs 0 self \<noteq> None"
proof -
  obtain self0 lk os' where "app_new (\<lambda>n. []) (easy_kernel []) True [] live_fs 0 [] os0 = (Some (self0, lk), os')"
    by (cases rule: app_new_cases [OF easy_keeps_names [of "[]"], of "[]" True os0 "\<lambda>n. []" live_fs 0 "[]"]) auto
  then have i: "app_init self0" using easy_keeps_names unfolding app_init_def by blast
  have "app_step\<^sup>*\<^sup>* self0 (toggle_enabled self0)" by (rule r_into_rtranclp [of app_step, OF app_ui [OF ui_toggle]])
  from app_never_panics [OF i this, of "Enable ''eth0'' True"] i app_ui [OF ui_toggle] show ?thesis by fastforce
qed

end
