(* ===== verification/Gateway.thy ===== *)
theory Gateway
  imports Data_Plane "HOL-Library.Sublist"
begin

text \<open>
  What the threads of \<open>main.rs\<close> amount to.  \<open>gw_step\<close> is an abstract gateway: one packet of the clients at
  a time, one map of sessions, one captured packet at a time per interface; no locks, hash tables,
  program counters or counters.  \<open>tr_step\<close> is \<open>dp_step\<close> with a history: the packets read from the TUN, those
  captured and those written back, the latter two with their interface.  The interpretation \<open>gw_ref\<close> shows
  that every step of it is one of the gateway or invisible.  That each direction forwards in order and
  at most once is proved of the gateway (both are a \<open>stage\<close>) and holds of the threads.
\<close>

section \<open>A stage with one place\<close>

text \<open>A stage receives \<open>xs\<close>, holds at most one of them, and has put out \<open>ys\<close>: for some of those it no longer
  holds, in their order, one output each.\<close>

definition stage :: "('a \<Rightarrow> 'b \<Rightarrow> bool) \<Rightarrow> 'a option \<Rightarrow> 'a list \<Rightarrow> 'b list \<Rightarrow> bool" where
  "stage R x xs ys \<longleftrightarrow> (\<exists>done ps. xs = done @ (case x of None \<Rightarrow> [] | Some p \<Rightarrow> [p])
     \<and> subseq ps done \<and> list_all2 R ps ys)"

lemma stage_start [simp]: "stage R None [] []"
  by (simp add: stage_def)

lemma stage_take: "stage R None xs ys \<Longrightarrow> stage R (Some p) (xs @ [p]) ys"
  by (simp add: stage_def)

lemma stage_drop: "stage R x xs ys \<Longrightarrow> stage R None xs ys"
  by (cases x) (auto simp: stage_def intro: subseq_rev_drop_many)

lemma stage_yield:
  assumes "stage R (Some p) xs ys" and "R p y"
  shows "stage R None xs (ys @ [y])"
proof -
  obtain qs ps where "xs = qs @ [p]" "subseq ps qs" "list_all2 R ps ys"
    using assms(1) by (auto simp: stage_def)
  then have "subseq (ps @ [p]) xs" "list_all2 R (ps @ [p]) (ys @ [y])"
    using assms(2) by (simp_all add: list_emb_append_mono list_all2_appendI)
  then show ?thesis by (auto simp: stage_def)
qed

lemma stage_mono: "stage R x xs ys \<Longrightarrow> (\<And>p y. R p y \<Longrightarrow> R' p y) \<Longrightarrow> stage R' x xs ys"
  unfolding stage_def using list_all2_mono by blast

lemma stage_order: "stage R x xs ys \<Longrightarrow> \<exists>ps. subseq ps xs \<and> list_all2 R ps ys"
  using stage_drop [of R x xs ys] by (auto simp: stage_def)

text \<open>The part of a list of tagged items that belongs to one interface.\<close>

definition via :: "string \<Rightarrow> (string \<times> bytes) list \<Rightarrow> bytes list" where
  "via i xs = map snd (filter (\<lambda>x. fst x = i) xs)"

lemma via_simps [simp]: "via i [] = []" "via i (xs @ [(j, q)]) = via i xs @ (if j = i then [q] else [])"
  by (simp_all add: via_def)

section \<open>The abstract gateway\<close>

record gateway =
  gw_sessions :: "out_key \<rightharpoonup> session"
  gw_inbox :: "bytes option"
  gw_taken :: "bytes list"
  gw_forwarded :: "(string \<times> ipv4 \<times> bytes) list"
  gw_capturing :: "string \<Rightarrow> bytes option"
  gw_captured :: "(string \<times> bytes) list"
  gw_replies :: "string \<Rightarrow> bytes option"
  gw_delivered :: "(string \<times> bytes) list"

text \<open>A packet and what is sent for it: the copy with the address of the link as its source.\<close>

definition forwarded_as :: "(string, ipv4) hmap \<Rightarrow> bytes \<Rightarrow> string \<times> ipv4 \<times> bytes \<Rightarrow> bool" where
  "forwarded_as ips p = (\<lambda>(iface, dst, out). \<exists>f ip. parse p = Some (Some f) \<and> hm_get ips iface = Some ip
     \<and> ipv4_from_str (fl_dst f) = Some dst \<and> rewrite_ipv4_source p ip = Some (out, True))"

text \<open>A captured packet and what is delivered for it under a session: the copy addressed to its client.\<close>

definition answers :: "bytes \<Rightarrow> session \<Rightarrow> bytes \<Rightarrow> bool" where
  "answers q s out \<longleftrightarrow> (\<exists>f src dst. capture_parse q = Some (Some (f, src, dst))
     \<and> ret_key_of s = (fl_proto f, src, fl_sport f, dst, fl_dport f) \<and> rewrite_ipv4_dest q (ses_client_ip s) = Some (out, True))"

definition answered :: "session set \<Rightarrow> bytes \<Rightarrow> bytes \<Rightarrow> bool" where
  "answered S q out \<longleftrightarrow> (\<exists>s \<in> S. answers q s out)"

definition gw_init :: gateway where
  "gw_init = \<lparr>gw_sessions = Map.empty, gw_inbox = None, gw_taken = [], gw_forwarded = [], gw_capturing = Map.empty,
     gw_captured = [], gw_replies = Map.empty, gw_delivered = []\<rparr>"

inductive gw_step :: "(string, ipv4) hmap \<Rightarrow> gateway \<Rightarrow> gateway \<Rightarrow> bool" for ips where
  gw_take: "gw_inbox g = None \<Longrightarrow> gw_step ips g (g\<lparr>gw_inbox := Some p, gw_taken := gw_taken g @ [p]\<rparr>)"
| gw_drop: "gw_step ips g (g\<lparr>gw_inbox := None\<rparr>)"
| gw_open: "gw_inbox g = Some p \<Longrightarrow> parse p = Some (Some f) \<Longrightarrow> hm_get ips i = Some ip \<Longrightarrow>
    spec_register f i ip (gw_sessions g) = (Some s, m) \<Longrightarrow> gw_step ips g (g\<lparr>gw_sessions := m\<rparr>)"
| gw_forward: "gw_inbox g = Some p \<Longrightarrow> forwarded_as ips p x \<Longrightarrow>
    gw_step ips g (g\<lparr>gw_inbox := None, gw_forwarded := gw_forwarded g @ [x]\<rparr>)"
| gw_capture: "gw_capturing g i = None \<Longrightarrow>
    gw_step ips g (g\<lparr>gw_capturing := (gw_capturing g)(i \<mapsto> q), gw_captured := gw_captured g @ [(i, q)]\<rparr>)"
| gw_accept: "gw_capturing g i = Some q \<Longrightarrow> answered (ran (gw_sessions g)) q out \<Longrightarrow>
    gw_step ips g (g\<lparr>gw_replies := (gw_replies g)(i \<mapsto> out)\<rparr>)"
| gw_deliver: "gw_replies g i = Some out \<Longrightarrow>
    gw_step ips g (g\<lparr>gw_capturing := (gw_capturing g)(i := None), gw_replies := (gw_replies g)(i := None),
      gw_delivered := gw_delivered g @ [(i, out)]\<rparr>)"
| gw_give_up: "gw_step ips g (g\<lparr>gw_capturing := (gw_capturing g)(i := None), gw_replies := (gw_replies g)(i := None)\<rparr>)"

definition replies_ok :: "gateway \<Rightarrow> bool" where
  "replies_ok g \<longleftrightarrow> (\<forall>i. stage (answered (ran (gw_sessions g))) (gw_capturing g i) (via i (gw_captured g)) (via i (gw_delivered g)))
     \<and> (\<forall>i out. gw_replies g i = Some out \<longrightarrow> (\<exists>q. gw_capturing g i = Some q \<and> answered (ran (gw_sessions g)) q out))"

definition gw_inv :: "(string, ipv4) hmap \<Rightarrow> gateway \<Rightarrow> bool" where
  "gw_inv ips g \<longleftrightarrow> stage (forwarded_as ips) (gw_inbox g) (gw_taken g) (gw_forwarded g) \<and> replies_ok g"

lemma gw_init_inv: "g = gw_init \<Longrightarrow> gw_inv ips g"
  by (simp add: gw_inv_def gw_init_def replies_ok_def)

lemma spec_register_ran:
  assumes "spec_register f i e m = (r, m')"
  shows "ran m \<subseteq> ran m'"
proof -
  have "m' = m \<or> (\<exists>s. m (out_key_of s) = None \<and> m' = m(out_key_of s \<mapsto> s))"
    using assms by (auto simp: spec_register_def Let_def split: option.splits)
  then show ?thesis by (auto simp: ran_map_upd)
qed

lemma answered_mono: "answered S q out \<Longrightarrow> S \<subseteq> T \<Longrightarrow> answered T q out"
  by (auto simp: answered_def)

lemma replies_sessions: "replies_ok g \<Longrightarrow> ran (gw_sessions g) \<subseteq> ran m \<Longrightarrow> replies_ok (g\<lparr>gw_sessions := m\<rparr>)"
  unfolding replies_ok_def by (fastforce intro: stage_mono answered_mono)

lemma replies_capture:
  assumes "replies_ok g" "gw_capturing g i = None"
  shows "replies_ok (g\<lparr>gw_capturing := (gw_capturing g)(i \<mapsto> q), gw_captured := gw_captured g @ [(i, q)]\<rparr>)"
proof -
  have "stage (answered (ran (gw_sessions g))) None (via i (gw_captured g)) (via i (gw_delivered g))"
    using assms unfolding replies_ok_def by metis
  moreover have "gw_replies g i = None" using assms unfolding replies_ok_def by (metis not_Some_eq)
  ultimately show ?thesis using assms stage_take by (auto simp: replies_ok_def)
qed

lemma replies_finish:
  assumes "replies_ok g" and "ds = [] \<or> (\<exists>out. ds = [(i, out)] \<and> gw_replies g i = Some out)"
  shows "replies_ok (g\<lparr>gw_capturing := (gw_capturing g)(i := None), gw_replies := (gw_replies g)(i := None),
    gw_delivered := gw_delivered g @ ds\<rparr>)"
proof -
  let ?A = "answered (ran (gw_sessions g))"
  have st: "stage ?A (gw_capturing g j) (via j (gw_captured g)) (via j (gw_delivered g))" for j
    using assms(1) by (simp add: replies_ok_def)
  have "stage ?A None (via i (gw_captured g)) (via i (gw_delivered g @ ds))"
  proof (cases "ds = []")
    case True
    then show ?thesis using stage_drop [OF st] by simp
  next
    case False
    then obtain out q where "ds = [(i, out)]" "gw_capturing g i = Some q" "?A q out"
      using assms unfolding replies_ok_def by blast
    then show ?thesis using stage_yield st [of i] by simp
  qed
  moreover have "via j (gw_delivered g @ ds) = via j (gw_delivered g)" if "j \<noteq> i" for j
    using assms(2) that by (auto simp: via_def)
  ultimately show ?thesis using assms(1) st by (auto simp: replies_ok_def)
qed

lemma replies_outbound [simp]:
  "replies_ok (g\<lparr>gw_inbox := x\<rparr>) = replies_ok g" "replies_ok (g\<lparr>gw_inbox := x, gw_taken := ps\<rparr>) = replies_ok g"
  "replies_ok (g\<lparr>gw_inbox := x, gw_forwarded := fs\<rparr>) = replies_ok g"
  by (simp_all add: replies_ok_def)

lemma gw_step_inv:
  assumes "gw_inv ips g" and "gw_step ips g g'"
  shows "gw_inv ips g'"
proof -
  have out: "stage (forwarded_as ips) (gw_inbox g) (gw_taken g) (gw_forwarded g)" and ret: "replies_ok g"
    using assms(1) by (simp_all add: gw_inv_def)
  from assms(2) show ?thesis
  proof cases
    case (gw_take p)
    then show ?thesis using out ret stage_take by (simp add: gw_inv_def)
  next
    case gw_drop
    then show ?thesis using stage_drop [OF out] ret by (simp add: gw_inv_def)
  next
    case (gw_open p f i ip s m)
    then show ?thesis using out replies_sessions [OF ret spec_register_ran [OF gw_open(5)]] by (simp add: gw_inv_def)
  next
    case (gw_forward p x)
    then show ?thesis using stage_yield out ret by (simp add: gw_inv_def)
  next
    case (gw_capture i q)
    then show ?thesis using out replies_capture [OF ret gw_capture(2)] by (simp add: gw_inv_def)
  next
    case (gw_accept i q out')
    then show ?thesis using out ret by (auto simp: gw_inv_def replies_ok_def)
  next
    case (gw_deliver i out')
    then show ?thesis using out replies_finish [OF ret, of "[(i, out')]" i] by (simp add: gw_inv_def)
  next
    case (gw_give_up i)
    then show ?thesis using out replies_finish [OF ret, of "[]" i] by (simp add: gw_inv_def)
  qed
qed

interpretation gw_sys: invariant_system "\<lambda>g. g = gw_init" "gw_step ips" "gw_inv ips" for ips
  by unfold_locales (fact gw_init_inv, fact gw_step_inv)

section \<open>The threads with their history\<close>

record history =
  h_read :: "bytes list"
  h_captured :: "(string \<times> bytes) list"
  h_returned :: "(string \<times> bytes) list"

definition no_history :: history where
  "no_history = \<lparr>h_read = [], h_captured = [], h_returned = []\<rparr>"

definition log_egress :: "egress_pc \<Rightarrow> egress_pc \<Rightarrow> history \<Rightarrow> history" where
  "log_egress e e' h = (case e of E_Read \<Rightarrow> (case e' of E_Got p \<Rightarrow> h\<lparr>h_read := h_read h @ [p]\<rparr> | _ \<Rightarrow> h) | _ \<Rightarrow> h)"

definition log_capture :: "string \<Rightarrow> capture_pc \<Rightarrow> capture_pc \<Rightarrow> history \<Rightarrow> history" where
  "log_capture i p p' h =
     (case p of
        C_Recv \<Rightarrow> (case p' of C_Got q \<Rightarrow> h\<lparr>h_captured := h_captured h @ [(i, q)]\<rparr> | _ \<Rightarrow> h)
      | C_Out out \<Rightarrow> (case p' of C_Written \<Rightarrow> h\<lparr>h_returned := h_returned h @ [(i, out)]\<rparr> | _ \<Rightarrow> h)
      | _ \<Rightarrow> h)"

inductive tr_step :: "(string, ipv4) hmap \<Rightarrow> (string, raw_egress) hmap \<Rightarrow> dp_state \<times> history \<Rightarrow> dp_state \<times> history \<Rightarrow> bool"
  for ips socks where
  tr_egress: "egress_step ips socks (w, e) (w', e') \<Longrightarrow> tr_step ips socks ((w, e, c), h) ((w', e', c), log_egress e e' h)"
| tr_capture: "capture_step (w, c i) (w', p) \<Longrightarrow> tr_step ips socks ((w, e, c), h) ((w', e, c(i := p)), log_capture i (c i) p h)"
| tr_ui: "agg_step (w_agg w) ag' \<Longrightarrow> tr_step ips socks ((w, e, c), h) ((w\<lparr>w_agg := ag'\<rparr>, e, c), h)"
| tr_rehash: "rehashed (w_nat w) t' \<Longrightarrow> tr_step ips socks ((w, e, c), h) ((w\<lparr>w_nat := t'\<rparr>, e, c), h)"

text \<open>Writing the history down restricts nothing.\<close>

lemma tr_dp: "tr_step ips socks x y \<Longrightarrow> dp_step ips socks (fst x) (fst y)"
  by (erule tr_step.cases) (auto intro: dp_step.intros)

lemma dp_tr: "dp_step ips socks s s' \<Longrightarrow> \<exists>h'. tr_step ips socks (s, h) (s', h')"
  by (erule dp_step.cases) (auto intro: tr_step.intros)

lemma tr_of_dp: "(dp_step ips socks)\<^sup>*\<^sup>* s s' \<Longrightarrow> \<exists>h'. (tr_step ips socks)\<^sup>*\<^sup>* (s, h) (s', h')"
proof (induction rule: rtranclp_induct)
  case (step y z)
  then obtain h1 h2 where "(tr_step ips socks)\<^sup>*\<^sup>* (s, h) (y, h1)" "tr_step ips socks (y, h1) (z, h2)"
    using dp_tr by metis
  then show ?case by (blast intro: rtranclp.rtrancl_into_rtrancl)
qed blast

text \<open>The packets the threads hold: each in its buffer until the next blocking call.\<close>

fun inbox_of :: "egress_pc \<Rightarrow> bytes list \<Rightarrow> bytes option" where
  "inbox_of (E_Got p) rs = Some p"
| "inbox_of (E_Picked p f iface ip dst) rs = Some p"
| "inbox_of (E_Registered p iface ip dst) rs = Some p"
| "inbox_of (E_Out out iface dst) rs = Some (last rs)"
| "inbox_of _ rs = None"

fun capturing_of :: "capture_pc \<Rightarrow> bytes list \<Rightarrow> bytes option" where
  "capturing_of (C_Got q) qs = Some q"
| "capturing_of (C_Parsed q f src dst) qs = Some q"
| "capturing_of (C_Session q s) qs = Some q"
| "capturing_of (C_Out out) qs = Some (last qs)"
| "capturing_of _ qs = None"

fun reply_of :: "capture_pc \<Rightarrow> bytes option" where
  "reply_of (C_Out out) = Some out"
| "reply_of _ = None"

definition gw_abs :: "dp_state \<times> history \<Rightarrow> gateway" where
  "gw_abs = (\<lambda>((w, e, c), h). \<lparr>gw_sessions = session_map (w_nat w), gw_inbox = inbox_of e (h_read h), gw_taken = h_read h,
     gw_forwarded = w_sent w, gw_capturing = (\<lambda>i. capturing_of (c i) (via i (h_captured h))), gw_captured = h_captured h,
     gw_replies = (\<lambda>i. reply_of (c i)), gw_delivered = h_returned h\<rparr>)"

definition egress_held :: "(string, ipv4) hmap \<Rightarrow> egress_pc \<Rightarrow> bytes list \<Rightarrow> bool" where
  "egress_held ips e rs \<longleftrightarrow> (inbox_of e rs \<noteq> None \<longrightarrow> inbox_of e rs = Some (last rs))
     \<and> (case e of E_Out out iface dst \<Rightarrow> forwarded_as ips (last rs) (iface, dst, out) | _ \<Rightarrow> True)"

definition capture_held :: "capture_pc \<Rightarrow> bytes list \<Rightarrow> bool" where
  "capture_held p qs \<longleftrightarrow> (capturing_of p qs \<noteq> None \<longrightarrow> capturing_of p qs = Some (last qs))"

definition tr_inv :: "(string, ipv4) hmap \<Rightarrow> dp_state \<times> history \<Rightarrow> bool" where
  "tr_inv ips = (\<lambda>((w, e, c), h). dp_inv ips (w, e, c) \<and> egress_held ips e (h_read h)
     \<and> (\<forall>i. capture_held (c i) (via i (h_captured h))) \<and> map snd (h_returned h) = w_injected w)"

definition tr_init :: "dp_state \<times> history \<Rightarrow> bool" where
  "tr_init = (\<lambda>(s, h). dp_init s \<and> h = no_history)"

lemma egress_held_step:
  assumes "egress_step ips socks (w, e) (w', e')" "egress_held ips e (h_read h)" "egress_pc_ok ips t e"
  shows "egress_held ips e' (h_read (log_egress e e' h))"
  using assms
proof (cases rule: egress_step.cases)
  case (e_rewrite pkt ip out iface dst)
  then have "last (h_read h) = pkt" using assms(2) by (simp add: egress_held_def)
  moreover have "forwarded_as ips pkt (iface, dst, out)"
    using assms(3) e_rewrite egress_rewrite_iff by (auto simp: forwarded_as_def)
  ultimately show ?thesis using e_rewrite by (simp add: egress_held_def log_egress_def)
qed (auto simp: egress_held_def log_egress_def)

lemma log_egress_frame [simp]: "h_captured (log_egress e e' h) = h_captured h" "h_returned (log_egress e e' h) = h_returned h"
  by (simp_all add: log_egress_def split: egress_pc.split)

lemma log_capture_frame [simp]: "h_read (log_capture i p p' h) = h_read h"
    "j \<noteq> i \<Longrightarrow> via j (h_captured (log_capture i p p' h)) = via j (h_captured h)"
  by (simp_all add: log_capture_def split: capture_pc.split)

lemma capture_held_step:
  "capture_step (w, p) (w', p') \<Longrightarrow> capture_held p (via i (h_captured h)) \<Longrightarrow>
   capture_held p' (via i (h_captured (log_capture i p p' h)))"
  by (erule capture_stepE) (auto simp: capture_held_def log_capture_def)

lemma capture_returned:
  "capture_step (w, p) (w', p') \<Longrightarrow> map snd (h_returned h) = w_injected w \<Longrightarrow>
   map snd (h_returned (log_capture i p p' h)) = w_injected w'"
  by (erule capture_stepE) (auto simp: log_capture_def)

lemma egress_injected: "egress_step ips socks (w, e) (w', e') \<Longrightarrow> w_injected w' = w_injected w"
  by (erule egress_stepE) simp_all

lemma tr_step_inv:
  assumes inv: "tr_inv ips x" and step: "tr_step ips socks x y"
  shows "tr_inv ips y"
proof -
  have d: "dp_inv ips (fst y)"
    using dp_step_inv [OF _ tr_dp [OF step]] inv by (auto simp: tr_inv_def split_beta)
  from step show ?thesis
  proof cases
    case (tr_egress w e w' e' c h)
    then have "egress_pc_ok ips (w_nat w) e" using inv by (simp add: tr_inv_def dp_inv_def)
    then show ?thesis
      using inv d tr_egress egress_held_step [OF tr_egress(3), of h] egress_injected [OF tr_egress(3)] by (simp add: tr_inv_def)
  next
    case (tr_capture w c i w' p e h)
    then have "capture_held ((c(i := p)) j) (via j (h_captured (log_capture i (c i) p h)))" for j
      using inv capture_held_step [OF tr_capture(3)] by (cases "j = i") (auto simp: tr_inv_def)
    then show ?thesis
      using inv d tr_capture capture_returned [OF tr_capture(3)] by (simp add: tr_inv_def)
  qed (use inv d in \<open>auto simp: tr_inv_def\<close>)
qed

section \<open>The refinement\<close>

lemma egress_refines:
  fixes c :: "string \<Rightarrow> capture_pc"
  assumes step: "egress_step ips socks (w, e) (w', e')" and pc: "egress_pc_ok ips (w_nat w) e" and h: "egress_held ips e (h_read h)"
  defines "g \<equiv> gw_abs ((w, e, c), h)" and "g' \<equiv> gw_abs ((w', e', c), log_egress e e' h)"
  shows "g' = g \<or> gw_step ips g g'"
  using step
proof (cases rule: egress_step.cases)
  case (e_read pkt)
  have "g' = g\<lparr>gw_inbox := Some pkt, gw_taken := gw_taken g @ [pkt]\<rparr>" "gw_inbox g = None"
    using e_read by (simp_all add: g_def g'_def gw_abs_def log_egress_def)
  then show ?thesis using gw_take by simp
next
  case (e_unregistered f iface ip t' pkt dst)
  then have "session_map t' = session_map (w_nat w)"
    using register_refines [OF e_unregistered(4)] by (auto simp: spec_register_def Let_def split: option.splits)
  then have "g' = g\<lparr>gw_inbox := None\<rparr>" using e_unregistered by (simp add: g_def g'_def gw_abs_def log_egress_def)
  then show ?thesis using gw_drop by simp
next
  case (e_register f iface ip s t' pkt dst)
  have "g' = g\<lparr>gw_sessions := session_map t'\<rparr>" "gw_inbox g = Some pkt" "gw_sessions g = session_map (w_nat w)"
    using e_register by (simp_all add: g_def g'_def gw_abs_def log_egress_def)
  moreover have "parse pkt = Some (Some f)" "hm_get ips iface = Some ip" using pc e_register by simp_all
  ultimately show ?thesis using register_refines [OF e_register(4)] gw_open by metis
next
  case (e_rewrite pkt ip out iface dst)
  have "g' = g" using e_rewrite h by (simp add: g_def g'_def gw_abs_def log_egress_def egress_held_def)
  then show ?thesis ..
next
  case (e_send out iface dst)
  have "g' = g\<lparr>gw_inbox := None, gw_forwarded := gw_forwarded g @ [(iface, dst, out)]\<rparr>" "gw_inbox g = Some (last (h_read h))"
    using e_send by (simp_all add: g_def g'_def gw_abs_def log_egress_def)
  moreover have "forwarded_as ips (last (h_read h)) (iface, dst, out)" using h e_send by (simp add: egress_held_def)
  ultimately show ?thesis using gw_forward by metis
next
  case (e_skip pkt ag')
  then have "g' = g\<lparr>gw_inbox := None\<rparr>" by (simp add: g_def g'_def gw_abs_def log_egress_def)
  then show ?thesis using gw_drop by simp
next
  case (e_rewrite_no pkt ip iface dst)
  then have "g' = g\<lparr>gw_inbox := None\<rparr>" by (simp add: g_def g'_def gw_abs_def log_egress_def)
  then show ?thesis using gw_drop by simp
next
  case (e_send_failed out iface dst)
  then have "g' = g\<lparr>gw_inbox := None\<rparr>" by (simp add: g_def g'_def gw_abs_def log_egress_def)
  then show ?thesis using gw_drop by simp
next
  case (e_pick_panic pkt)
  then show ?thesis using egress_pick_returns [of ips socks pkt "w_agg w"] by simp
next
  case (e_rewrite_panic pkt ip iface dst)
  then show ?thesis using rewrite_source_returns [of pkt ip] by simp
qed (simp_all add: g_def g'_def gw_abs_def log_egress_def)

text \<open>What a capture thread changes of the gateway.\<close>

lemma gw_abs_capture:
  fixes c :: "string \<Rightarrow> capture_pc"
  assumes "w_nat w' = w_nat w" "w_sent w' = w_sent w"
  shows "gw_abs ((w', e, c(i := p)), log_capture i (c i) p h) = (gw_abs ((w, e, c), h))
    \<lparr>gw_capturing := (gw_capturing (gw_abs ((w, e, c), h)))(i := capturing_of p (via i (h_captured (log_capture i (c i) p h)))),
     gw_captured := h_captured (log_capture i (c i) p h), gw_replies := (gw_replies (gw_abs ((w, e, c), h)))(i := reply_of p),
     gw_delivered := h_returned (log_capture i (c i) p h)\<rparr>"
  using assms by (auto simp: gw_abs_def)

lemma capture_refines:
  fixes c :: "string \<Rightarrow> capture_pc" and e :: egress_pc and h :: history
  assumes step: "capture_step (w, c i) (w', p)" and pc: "capture_pc_ok (w_nat w) (c i)" and n: "nat_ok (w_nat w)"
    and held: "capture_held (c i) (via i (h_captured h))"
  defines "g \<equiv> gw_abs ((w, e, c), h)" and "g' \<equiv> gw_abs ((w', e, c(i := p)), log_capture i (c i) p h)"
  shows "g' = g \<or> gw_step ips g g'"
proof -
  have w: "w_nat w' = w_nat w" "w_sent w' = w_sent w" using step by (auto elim: capture_step.cases)
  note g' = gw_abs_capture [OF w, of e c i p h, folded g_def g'_def]
  have g: "gw_capturing g i = capturing_of (c i) (via i (h_captured h))" "gw_captured g = h_captured h"
    "gw_replies g i = reply_of (c i)" "gw_delivered g = h_returned h" "ran (gw_sessions g) = live (w_nat w)"
    using ran_session_map [OF n] by (simp_all add: g_def gw_abs_def)
  have same: "g' = g" if "log_capture i (c i) p h = h" "capturing_of p (via i (h_captured h)) = gw_capturing g i" "reply_of p = gw_replies g i"
    unfolding g' that(1) using g that(2,3) by (simp add: fun_upd_idem)
  have over: "g' = g \<or> gw_step ips g g'" if "log_capture i (c i) p h = h" "capturing_of p (via i (h_captured h)) = None" "reply_of p = None"
  proof -
    have "g' = g\<lparr>gw_capturing := (gw_capturing g)(i := None), gw_replies := (gw_replies g)(i := None)\<rparr>"
      unfolding g' that using g by simp
    then show ?thesis using gw_give_up by metis
  qed
  from step show ?thesis
  proof (cases rule: capture_step.cases)
    case (c_recv q)
    have "g' = g\<lparr>gw_capturing := (gw_capturing g)(i \<mapsto> q), gw_captured := gw_captured g @ [(i, q)]\<rparr>"
      unfolding g' using c_recv g by (simp add: log_capture_def fun_upd_idem)
    moreover have "gw_capturing g i = None" using g(1) c_recv by simp
    ultimately show ?thesis using gw_capture by metis
  next
    case (c_rewrite q s out)
    then have a: "answered (ran (gw_sessions g)) q out"
      using pc capture_rewrite_iff unfolding g(5) by (auto simp: answered_def answers_def)
    have "last (via i (h_captured h)) = q" using held c_rewrite by (simp add: capture_held_def)
    then have "g' = g\<lparr>gw_replies := (gw_replies g)(i \<mapsto> out)\<rparr>" "gw_capturing g i = Some q"
      unfolding g' using c_rewrite(1-3) g by (simp_all add: log_capture_def fun_upd_idem)
    then show ?thesis using gw_accept a by metis
  next
    case (c_write out)
    have "g' = g\<lparr>gw_capturing := (gw_capturing g)(i := None), gw_replies := (gw_replies g)(i := None),
        gw_delivered := gw_delivered g @ [(i, out)]\<rparr>" "gw_replies g i = Some out"
      unfolding g' using c_write(1-3) g by (simp_all add: log_capture_def)
    then show ?thesis using gw_deliver by metis
  qed (use same over g in \<open>auto simp: log_capture_def\<close>)
qed

lemma rehash_session_map: "nat_ok t \<Longrightarrow> rehashed t t' \<Longrightarrow> session_map t' = session_map t"
  unfolding session_map_def rehashed_def using hm_get_perm(2) [OF nat_okD(1)] by blast

lemma tr_step_refines:
  assumes inv: "tr_inv ips x" and "tr_step ips socks x y"
  shows "gw_abs y = gw_abs x \<or> gw_step ips (gw_abs x) (gw_abs y)"
  using assms(2)
proof cases
  case (tr_egress w e w' e' c h)
  then have "egress_pc_ok ips (w_nat w) e" "egress_held ips e (h_read h)"
    using inv by (simp_all add: tr_inv_def dp_inv_def)
  then show ?thesis unfolding tr_egress(1,2) by (rule egress_refines [OF tr_egress(3)])
next
  case (tr_capture w c i w' p e h)
  then have "capture_pc_ok (w_nat w) (c i)" "nat_ok (w_nat w)" "capture_held (c i) (via i (h_captured h))"
    using inv by (simp_all add: tr_inv_def dp_inv_def world_ok_def)
  then show ?thesis unfolding tr_capture(1,2) by (rule capture_refines [where c = c and i = i, OF tr_capture(3)])
next
  case (tr_ui w ag' e c h)
  then show ?thesis by (simp add: gw_abs_def)
next
  case (tr_rehash w t' e c h)
  then have "nat_ok (w_nat w)" using inv by (simp add: tr_inv_def dp_inv_def world_ok_def)
  then show ?thesis using tr_rehash rehash_session_map by (simp add: gw_abs_def)
qed

interpretation gw_ref: refinement tr_init "tr_step ips socks" "tr_inv ips" gw_abs "gw_step ips" for ips socks
proof
  show "tr_inv ips x" if "tr_init x" for x
    using that dp_init_inv
    by (auto simp: tr_init_def tr_inv_def egress_held_def capture_held_def dp_init_def no_history_def)
qed (fact tr_step_inv, fact tr_step_refines)

lemma gw_abs_init: "dp_init s \<Longrightarrow> gw_abs (s, no_history) = gw_init"
  by (auto simp: dp_init_def gw_abs_def gw_init_def no_history_def session_map_def nat_new_def fun_eq_iff)

lemma reached_gateway:
  assumes "dp_init s" and "(tr_step ips socks)\<^sup>*\<^sup>* (s, no_history) (s', h)"
  shows "(gw_step ips)\<^sup>*\<^sup>* gw_init (gw_abs (s', h))" and "gw_inv ips (gw_abs (s', h))" and "tr_inv ips (s', h)"
proof -
  have i: "tr_init (s, no_history)" using assms(1) by (simp add: tr_init_def)
  show r: "(gw_step ips)\<^sup>*\<^sup>* gw_init (gw_abs (s', h))"
    using gw_ref.reachable_refines [OF i assms(2)] by (simp add: gw_abs_init [OF assms(1)])
  show "gw_inv ips (gw_abs (s', h))" by (rule gw_sys.reachable_inv [OF refl r])
  show "tr_inv ips (s', h)" by (rule gw_ref.reachable_inv [OF i assms(2)])
qed

section \<open>Properties\<close>

text \<open>C4: The threads implement the gateway.  Every run of the data plane, under any interleaving of its
  threads with the user interface and any reordering of the hash maps, with the packets read, captured
  and written back written down, is a run of the abstract gateway: program counters, locks, the
  round-robin counter, the flow table, the return map of the NAT and the iteration orders are not
  observable in what is taken, forwarded, captured and delivered.\<close>

theorem data_plane_refines_gateway:
  assumes "dp_init s" and "(tr_step ips socks)\<^sup>*\<^sup>* (s, no_history) (s', h)"
  shows "(gw_step ips)\<^sup>*\<^sup>* gw_init (gw_abs (s', h))"
  by (rule reached_gateway(1) [OF assms])

lemma sample_history:
  "\<exists>w h. (tr_step sample_ips sample_socks)\<^sup>*\<^sup>* (dp_start, no_history) ((w, E_Read, \<lambda>i. C_Recv), h)
     \<and> w_sent w \<noteq> [] \<and> w_injected w \<noteq> []"
proof -
  obtain ag out r where "(dp_step sample_ips sample_socks)\<^sup>*\<^sup>* dp_start
     (\<lparr>w_agg = ag, w_nat = add_session tcp_session nat_new, w_tx_packets = 1, w_tx_bytes = 40, w_rx_packets = 1,
       w_sent = [(''eth0'', Ipv4 8 8 8 8, out)], w_injected = [r]\<rparr>, E_Read, \<lambda>i. C_Recv)" (is "?D\<^sup>*\<^sup>* _ (?w, _, _)")
    using sample_run by blast
  from tr_of_dp [OF this, of no_history] show ?thesis by (auto intro!: exI [of _ ?w])
qed

lemma data_plane_refines_gateway_witness:
  "\<exists>w h. gw_forwarded (gw_abs ((w, E_Read, \<lambda>i. C_Recv), h)) \<noteq> [] \<and> gw_delivered (gw_abs ((w, E_Read, \<lambda>i. C_Recv), h)) \<noteq> []
     \<and> (gw_step sample_ips)\<^sup>*\<^sup>* gw_init (gw_abs ((w, E_Read, \<lambda>i. C_Recv), h))"
proof -
  obtain w h where run: "(tr_step sample_ips sample_socks)\<^sup>*\<^sup>* (dp_start, no_history) ((w, E_Read, \<lambda>i. C_Recv), h)"
    and w: "w_sent w \<noteq> []" "w_injected w \<noteq> []" using sample_history by blast
  have "map snd (h_returned h) = w_injected w" using reached_gateway(3) [OF dp_start_init run] by (simp add: tr_inv_def)
  with w data_plane_refines_gateway [OF dp_start_init run] show ?thesis
    by (intro exI [of _ w] exI [of _ h]) (auto simp: gw_abs_def)
qed

text \<open>C7: Packets leave in order and at most once.  In every run, the packets handed to the raw sockets
  are, one for one and in order, translated copies of a subsequence of the packets read from the TUN: none
  is duplicated, reordered or made up, and each copy differs from its original as \<open>rewrite_ipv4_source\<close>
  says, leaves through an interface opened at startup with the address of that interface, and is
  addressed to the destination parsed from the original.\<close>

theorem egress_in_order:
  assumes "dp_init s" and "(tr_step ips socks)\<^sup>*\<^sup>* (s, no_history) ((w, e, c), h)"
  shows "\<exists>ps. subseq ps (h_read h) \<and> list_all2 (forwarded_as ips) ps (w_sent w)"
proof -
  have "stage (forwarded_as ips) (inbox_of e (h_read h)) (h_read h) (w_sent w)"
    using reached_gateway(2) [OF assms] by (simp add: gw_inv_def gw_abs_def)
  then show ?thesis by (rule stage_order)
qed

lemma egress_in_order_witness:
  "\<exists>(w :: world) (h :: history) ps. w_sent w \<noteq> [] \<and> subseq ps (h_read h) \<and> list_all2 (forwarded_as sample_ips) ps (w_sent w)"
proof -
  obtain w h where run: "(tr_step sample_ips sample_socks)\<^sup>*\<^sup>* (dp_start, no_history) ((w, E_Read, \<lambda>i. C_Recv), h)"
    and w: "w_sent w \<noteq> []" using sample_history by blast
  from egress_in_order [OF dp_start_init run] w show ?thesis by blast
qed

text \<open>C9: Replies come back in order and at most once.  In every run, for each interface, what its capture
  thread has written to the TUN is, one for one and in order, the answer to a subsequence of the packets
  captured there: each is the captured packet with the address of the client of a registered session as
  its destination, where the session is the one with the addresses, ports and protocol of the reply.
  Nothing else is ever written to the TUN.\<close>

theorem replies_in_order:
  assumes "dp_init s" and "(tr_step ips socks)\<^sup>*\<^sup>* (s, no_history) ((w, e, c), h)"
  shows "map snd (h_returned h) = w_injected w
    \<and> (\<exists>qs. subseq qs (via i (h_captured h)) \<and> list_all2 (answered (live (w_nat w))) qs (via i (h_returned h)))"
proof -
  have inv: "tr_inv ips ((w, e, c), h)" by (rule reached_gateway(3) [OF assms])
  then have "nat_ok (w_nat w)" by (simp add: tr_inv_def dp_inv_def world_ok_def)
  moreover have "replies_ok (gw_abs ((w, e, c), h))" using reached_gateway(2) [OF assms] by (simp add: gw_inv_def)
  ultimately have "stage (answered (live (w_nat w))) (capturing_of (c i) (via i (h_captured h)))
      (via i (h_captured h)) (via i (h_returned h))"
    by (simp add: replies_ok_def gw_abs_def ran_session_map)
  from stage_order [OF this] inv show ?thesis by (simp add: tr_inv_def)
qed

lemma replies_in_order_witness:
  "\<exists>(w :: world) (h :: history) qs. w_injected w \<noteq> [] \<and> map snd (h_returned h) = w_injected w
     \<and> subseq qs (via ''eth0'' (h_captured h)) \<and> list_all2 (answered (live (w_nat w))) qs (via ''eth0'' (h_returned h))"
proof -
  obtain w h where run: "(tr_step sample_ips sample_socks)\<^sup>*\<^sup>* (dp_start, no_history) ((w, E_Read, \<lambda>i. C_Recv), h)"
    and w: "w_injected w \<noteq> []" using sample_history by blast
  from replies_in_order [OF dp_start_init run, of "''eth0''"] w show ?thesis by blast
qed

lemma picked_registers:
  assumes "parse pkt = Some (Some f)" "ipv4_from_str (fl_dst f) = Some dst"
  shows "\<exists>ses t'. register f iface ip t = (Some ses, t')"
proof -
  have "f = v4_flow pkt" using parse_ipv4_only(3) [OF assms] .
  then show ?thesis by (cases rule: register_cases [of f iface ip t]) (auto simp: parse_ip_def)
qed

lemma picked_rewrites:
  assumes "parse pkt = Some (Some f)" "ipv4_from_str (fl_dst f) = Some dst"
  shows "\<exists>out. rewrite_ipv4_source pkt ip = Some (out, True)"
  using parse_ipv4_only(1) [OF assms] by (simp add: rewrite_ipv4_source_eq Let_def)

text \<open>Why the scheduler's choice can come to nothing.\<close>

definition no_link_for :: "(string, ipv4) hmap \<Rightarrow> (string, raw_egress) hmap \<Rightarrow> bytes \<Rightarrow> aggregator \<Rightarrow> bool" where
  "no_link_for ips socks pkt ag \<longleftrightarrow> (\<exists>d ag' n. route pkt ag = Some (Some d, ag') \<and> fd_interface d = Some n
     \<and> (hm_get ips n = None \<or> hm_get socks n = None))"

lemma egress_pick_gives_up:
  assumes "agg_ok ag" and "egress_pick ips socks pkt ag = Some (r, ag')"
  shows "r = None \<longleftrightarrow> \<not> cfg_enabled (ag_config ag) \<or> parse pkt = Some None \<or> drop_bit 4 (pkt ! 0) \<noteq> 4
    \<or> usable (ag_candidates ag) = [] \<or> no_link_for ips socks pkt ag"
proof (cases rule: route_cases [of ag pkt])
  case disabled
  then show ?thesis using assms(2) by (auto simp: egress_pick_def split: bind_splits option.splits)
next
  case unparsed
  then show ?thesis using assms(2) by (simp add: egress_pick_def)
next
  case (undecided f ag'')
  then have "usable (ag_candidates ag) = []"
    using agg_select_none(2) [OF undecided(3)] select_decides assms(1) unfolding agg_ok_def by blast
  then show ?thesis using assms(2) undecided(2,4) by (simp add: egress_pick_def)
next
  case (decided f n ag'')
  then have u: "usable (ag_candidates ag) \<noteq> []"
    using agg_select_some(1) [OF decided(3)] by (auto simp: usable_def filter_empty_conv)
  have link: "no_link_for ips socks pkt ag \<longleftrightarrow> hm_get ips n = None \<or> hm_get socks n = None"
    using decided(4) by (auto simp: no_link_for_def)
  have ne: "pkt \<noteq> []" using decided(2) by (auto simp: parse_def)
  have v4: "ipv4_from_str (fl_dst f) = None \<longleftrightarrow> drop_bit 4 (pkt ! 0) \<noteq> 4"
  proof (cases "drop_bit 4 (pkt ! 0) = 4")
    case True
    then have "f = v4_flow pkt" using parse_v4_iff [OF ne True] decided(2) by blast
    with True show ?thesis by simp
  next
    case False
    then have "ipv4_from_str (fl_dst f) \<noteq> Some a" for a
      using parse_ipv4_only(1) [OF decided(2), of a] by (auto simp: v4_ok_def)
    with False show ?thesis by (cases "ipv4_from_str (fl_dst f)") blast+
  qed
  have "r = None \<longleftrightarrow> hm_get ips n = None \<or> hm_get socks n = None \<or> ipv4_from_str (fl_dst f) = None"
    using assms(2) decided(2,4) by (auto simp: egress_pick_def split: bind_splits option.splits)
  then show ?thesis using decided(1,2) u link v4 by auto
qed



end
