(* ===== verification/Composition.thy ===== *)
theory Composition
  imports Startup Gateway
begin

text \<open>
  The running program: the window's thread with the real handlers of \<open>App\<close>, the egress thread and one
  capture thread per socket that \<open>start_data_plane\<close> opened, on the one state they share.  \<open>sys_step\<close>
  interleaves them.  It implements \<open>dp_step\<close> (interpretation \<open>sys_ref\<close>), hence the gateway of \<open>Gateway\<close>.
  The last section follows a setting from the button through the configuration, the next refresh of the
  candidates and the scheduler to the wire.
\<close>

section \<open>All threads of the process\<close>

type_synonym sys_state = "netmux_app \<times> egress_pc \<times> (string \<Rightarrow> capture_pc)"

inductive sys_step :: "links \<Rightarrow> sys_state \<Rightarrow> sys_state \<Rightarrow> bool" for lk where
  sys_ui: "ui_step self self' \<Longrightarrow> sys_step lk (self, e, c) (self', e, c)"
| sys_egress: "egress_step (ln_ips lk) (ln_egress lk) (app_world self, e) (w', e') \<Longrightarrow>
    sys_step lk (self, e, c) (self\<lparr>app_world := w'\<rparr>, e', c)"
| sys_capture: "i \<in> rc_ifname ` set (ln_captures lk) \<Longrightarrow> capture_step (app_world self, c i) (w', p) \<Longrightarrow>
    sys_step lk (self, e, c) (self\<lparr>app_world := w'\<rparr>, e, c(i := p))"
| sys_rehash: "rehashed (w_nat (app_world self)) t' \<Longrightarrow>
    sys_step lk (self, e, c) (self\<lparr>app_world := (app_world self)\<lparr>w_nat := t'\<rparr>\<rparr>, e, c)"

text \<open>The state when \<open>NetMuxApp::new\<close> returns in tunnelling mode, the threads at their first blocking call.\<close>

definition sys_init :: "links \<Rightarrow> sys_state \<Rightarrow> bool" where
  "sys_init lk s \<longleftrightarrow> (\<exists>strerror k le args fs now ifas os self os'. keeps_names k
     \<and> app_new strerror k le args fs now ifas os = (Some (self, Some lk), os') \<and> s = (self, E_Read, \<lambda>i. C_Recv))"

definition sys_abs :: "sys_state \<Rightarrow> dp_state" where
  "sys_abs = (\<lambda>(self, e, c). (app_world self, e, c))"

abbreviation app_mode :: "netmux_app \<Rightarrow> mode" where
  "app_mode self \<equiv> ag_mode (w_agg (app_world self))"

definition sys_inv :: "links \<Rightarrow> sys_state \<Rightarrow> bool" where
  "sys_inv lk = (\<lambda>(self, e, c). app_ok self \<and> app_mode self = Tunnelling \<and> dp_inv (ln_ips lk) (app_world self, e, c)
     \<and> (\<forall>i. i \<notin> rc_ifname ` set (ln_captures lk) \<longrightarrow> c i = C_Recv))"

text \<open>In tunnelling mode the window's thread changes at most the aggregator, by one of its own operations.\<close>

lemma agg_tick_frame: "ag_config (agg_tick fs now fs' ag) = ag_config ag" "ag_mode (agg_tick fs now fs' ag) = ag_mode ag"
  by (simp_all add: agg_tick_eq refresh_candidates_def Let_def)

lemma upd_config_world:
  "app_world (upd_config f self) = (app_world self)\<lparr>w_agg := (w_agg (app_world self))\<lparr>ag_config := f (app_config self)\<rparr>\<rparr>"
  by (simp add: upd_config_def)

lemma ui_step_world:
  assumes "ui_step self self'" "app_mode self = Tunnelling"
  shows "\<exists>ag. app_world self' = (app_world self)\<lparr>w_agg := ag\<rparr> \<and> ag_mode ag = Tunnelling
    \<and> (ag = w_agg (app_world self) \<or> agg_step (w_agg (app_world self)) ag)"
  using assms(1)
proof cases
  case (ui_ticked fs now fs' later)
  then have "app_world self' = (app_world self)\<lparr>w_agg := agg_tick fs now fs' (w_agg (app_world self))\<rparr>"
    using assms(2) by (auto simp: app_tick_def tun_tick_def Let_def)
  then show ?thesis using assms(2) step_tick agg_tick_frame by metis
next
  case (ui_iface act)
  then obtain cfg where "self' = upd_config (\<lambda>_. cfg) self" by (auto simp: iface_action_def)
  then show ?thesis using assms(2) by (auto simp: upd_config_world step_config)
next
  case ui_toggle
  then show ?thesis using assms(2) by (auto simp: toggle_enabled_def upd_config_world step_config)
next
  case ui_strategy
  then show ?thesis using assms(2) by (auto simp: set_strategy_def upd_config_world step_config)
next
  case ui_algorithm
  then show ?thesis using assms(2) by (auto simp: set_algorithm_def upd_config_world step_config)
qed (use assms(2) in \<open>auto simp: cycle_theme_def set_tab_def render_palette_def intro!: exI [of _ "w_agg (app_world self)"]\<close>)

lemma sys_step_dp:
  assumes "sys_inv lk s" and "sys_step lk s t"
  shows "sys_abs t = sys_abs s \<or> dp_step (ln_ips lk) (ln_egress lk) (sys_abs s) (sys_abs t)"
  using assms(2)
proof cases
  case (sys_ui self self' e c)
  then have "app_mode self = Tunnelling" using assms(1) by (simp add: sys_inv_def)
  from ui_step_world [OF sys_ui(3) this] obtain ag where "app_world self' = (app_world self)\<lparr>w_agg := ag\<rparr>"
    "ag = w_agg (app_world self) \<or> agg_step (w_agg (app_world self)) ag" by blast
  then show ?thesis using dp_ui by (auto simp: sys_ui(1,2) sys_abs_def)
qed (auto simp: sys_abs_def intro: dp_step.intros)

lemma sys_step_inv:
  assumes "sys_inv lk s" and "sys_step lk s t"
  shows "sys_inv lk t"
proof -
  have "dp_inv (ln_ips lk) (sys_abs s)" using assms(1) by (auto simp: sys_inv_def sys_abs_def)
  then have d: "dp_inv (ln_ips lk) (sys_abs t)" using sys_step_dp [OF assms] dp_step_inv by metis
  from assms(2) show ?thesis
  proof cases
    case (sys_ui self self' e c)
    then have i: "app_ok self" "app_mode self = Tunnelling" using assms(1) by (simp_all add: sys_inv_def)
    have "app_mode self' = Tunnelling" using ui_step_world [OF sys_ui(3) i(2)] by auto
    then show ?thesis using d ui_step_ok [OF i(1) sys_ui(3)] assms(1) by (simp add: sys_ui sys_inv_def sys_abs_def)
  next
    case (sys_egress self e w' e' c)
    then have i: "app_ok self" "app_mode self = Tunnelling" using assms(1) by (simp_all add: sys_inv_def)
    have "ag_mode (w_agg w') = Tunnelling"
      using egress_step_agg [OF sys_egress(3)] i(2) by (auto simp: route_frame)
    then show ?thesis
      using d app_step_ok [OF i(1) app_egress [OF sys_egress(3)]] assms(1) by (simp add: sys_egress sys_inv_def sys_abs_def)
  next
    case (sys_capture i self c w' p e)
    then have "app_ok self" using assms(1) by (simp add: sys_inv_def)
    from app_step_ok [OF this app_capture [OF sys_capture(4)]] show ?thesis
      using d capture_step_agg [OF sys_capture(4)] assms(1) sys_capture by (auto simp: sys_inv_def sys_abs_def)
  next
    case (sys_rehash self t' e c)
    then show ?thesis using d assms(1) by (simp add: sys_inv_def sys_abs_def app_ok_def)
  qed
qed

lemma started_dp_inv:
  assumes "started fs now m b self"
  shows "dp_inv ips (app_world self, E_Read, \<lambda>i. C_Recv)"
  using started_ok [OF assms] assms by (simp add: app_ok_def dp_inv_def world_ok_def started_def)

lemma sys_init_started:
  assumes "sys_init lk s"
  obtains fs now self where "s = (self, E_Read, \<lambda>i. C_Recv)" "started fs now Tunnelling None self"
proof -
  obtain strerror k le args fs now ifas os self os' where k: "keeps_names k"
    and new: "app_new strerror k le args fs now ifas os = (Some (self, Some lk), os')" and s: "s = (self, E_Read, \<lambda>i. C_Recv)"
    using assms unfolding sys_init_def by blast
  have "started fs now Tunnelling None self"
    by (cases rule: app_new_cases [OF k, of args le os strerror fs now ifas]) (use new in auto)
  with s that show thesis by blast
qed

lemma sys_init_inv: "sys_init lk s \<Longrightarrow> sys_inv lk s"
proof (erule sys_init_started)
  fix fs now self
  assume s: "s = (self, E_Read, \<lambda>i. C_Recv)" and st: "started fs now Tunnelling None self"
  have "app_mode self = Tunnelling" using st by (simp add: started_def refresh_candidates_def Let_def)
  then show ?thesis using started_ok [OF st] started_dp_inv [OF st] by (simp add: s sys_inv_def)
qed

interpretation sys_ref: refinement "sys_init lk" "sys_step lk" "sys_inv lk" sys_abs "dp_step (ln_ips lk) (ln_egress lk)" for lk
  by unfold_locales (fact sys_init_inv, fact sys_step_inv, fact sys_step_dp)

text \<open>The first refresh of the candidates, before any thread is spawned, is a step of the data plane's
  system too: what holds of all its runs holds of the program.\<close>

lemma sys_init_dp:
  assumes "sys_init lk s"
  shows "\<exists>s0. dp_init s0 \<and> dp_step ips socks s0 (sys_abs s)"
proof -
  obtain fs now self where s: "s = (self, E_Read, \<lambda>i. C_Recv)" and st: "started fs now Tunnelling None self"
    using assms by (rule sys_init_started)
  define ag where "ag = \<lparr>ag_config = default_config, ag_mode = Tunnelling, ag_stats = default_stats now,
    ag_candidates = [], ag_rr_counter = 0, ag_flow_table = []\<rparr>"
  let ?w = "\<lparr>w_agg = ag, w_nat = nat_new, w_tx_packets = 0, w_tx_bytes = 0, w_rx_packets = 0, w_sent = [], w_injected = []\<rparr>"
  have "agg_init ag" using aggregator_new_default [of Tunnelling now] unfolding ag_def agg_init_def by blast
  then have "dp_init (?w, E_Read, \<lambda>i. C_Recv)" by (simp add: dp_init_def)
  moreover have "sys_abs s = (?w\<lparr>w_agg := refresh_candidates fs ag\<rparr>, E_Read, \<lambda>i. C_Recv)"
    using st by (simp add: s sys_abs_def started_def ag_def)
  moreover have "dp_step ips socks (?w, E_Read, \<lambda>i. C_Recv) (?w\<lparr>w_agg := refresh_candidates fs ag\<rparr>, E_Read, \<lambda>i. C_Recv)"
    by (rule dp_ui) (simp add: step_refresh)
  ultimately show ?thesis by metis
qed

lemma sys_reaches_dp:
  assumes "sys_init lk s" and "(sys_step lk)\<^sup>*\<^sup>* s t"
  shows "\<exists>s0. dp_init s0 \<and> (dp_step (ln_ips lk) (ln_egress lk))\<^sup>*\<^sup>* s0 (sys_abs t)"
proof -
  obtain s0 where "dp_init s0" "dp_step (ln_ips lk) (ln_egress lk) s0 (sys_abs s)" using sys_init_dp [OF assms(1)] by blast
  with sys_ref.reachable_refines [OF assms] show ?thesis by (meson converse_rtranclp_into_rtranclp)
qed

text \<open>From the command line to the gateway.\<close>

lemma sys_implements_gateway:
  assumes "sys_init lk s" and "(sys_step lk)\<^sup>*\<^sup>* s t"
  shows "\<exists>h. (gw_step (ln_ips lk))\<^sup>*\<^sup>* gw_init (gw_abs (sys_abs t, h))"
proof -
  obtain s0 where s0: "dp_init s0" "(dp_step (ln_ips lk) (ln_egress lk))\<^sup>*\<^sup>* s0 (sys_abs t)"
    using sys_reaches_dp [OF assms] by blast
  from tr_of_dp [OF s0(2)] reached_gateway(1) [OF s0(1)] show ?thesis by metis
qed

section \<open>A link switched off\<close>

definition switched_off :: "string \<Rightarrow> aggregator \<Rightarrow> bool" where
  "switched_off n ag \<longleftrightarrow> (\<exists>p. hm_get (cfg_interfaces (ag_config ag)) n = Some p \<and> \<not> pol_enabled p)"

text \<open>The candidates know it, from the next refresh on.\<close>

definition out_of_use :: "string \<Rightarrow> aggregator \<Rightarrow> bool" where
  "out_of_use n ag \<longleftrightarrow> (\<forall>c \<in> set (ag_candidates ag). ci_name c = n \<longrightarrow> \<not> pol_enabled (ci_policy c))"

text \<open>What has left through a link, and whether the egress thread is on its way to it.\<close>

definition sent_via :: "string \<Rightarrow> world \<Rightarrow> (string \<times> ipv4 \<times> bytes) list" where
  "sent_via n w = filter (\<lambda>x. fst x = n) (w_sent w)"

fun in_flight :: "string \<Rightarrow> egress_pc \<Rightarrow> nat" where
  "in_flight n (E_Picked pkt f iface ip dst) = of_bool (iface = n)"
| "in_flight n (E_Registered pkt iface ip dst) = of_bool (iface = n)"
| "in_flight n (E_Out out iface dst) = of_bool (iface = n)"
| "in_flight n _ = 0"

lemma refresh_out_of_use: "switched_off n ag \<Longrightarrow> out_of_use n (refresh_candidates fs ag)"
  by (auto simp: out_of_use_def switched_off_def refresh_candidates_def candidate_of_def with_priority_def Let_def)

lemma tick_out_of_use: "switched_off n ag \<Longrightarrow> out_of_use n (agg_tick fs now fs' ag)"
  by (simp add: agg_tick_def refresh_out_of_use switched_off_def Let_def)

lemma pick_out_of_use:
  assumes "out_of_use n ag" and "egress_pick ips socks pkt ag = Some (Some (f, iface, ip, sock, dst), ag')"
  shows "iface \<noteq> n"
proof -
  obtain d where "route pkt ag = Some (Some d, ag')" "fd_interface d = Some iface" using egress_pick_Some(5) [OF assms(2)] by blast
  then show ?thesis
  proof (cases rule: route_cases [of ag pkt])
    case (decided f m ag'')
    then have "m = iface" using \<open>route pkt ag = Some (Some d, ag')\<close> \<open>fd_interface d = Some iface\<close> by auto
    with agg_select_some(1) [OF decided(3)] assms(1) show ?thesis by (auto simp: out_of_use_def)
  qed simp_all
qed

lemma egress_out_of_use:
  assumes "egress_step ips socks (w, e) (w', e')" and "out_of_use n (w_agg w)"
  shows "out_of_use n (w_agg w')" and "length (sent_via n w') + in_flight n e' \<le> length (sent_via n w) + in_flight n e"
proof -
  show "out_of_use n (w_agg w')"
    using egress_step_agg [OF assms(1)] assms(2) by (auto simp: out_of_use_def route_frame)
  show "length (sent_via n w') + in_flight n e' \<le> length (sent_via n w) + in_flight n e"
    using assms(1)
  proof (cases rule: egress_step.cases)
    case (e_pick pkt f iface ip sock dst ag')
    then show ?thesis using pick_out_of_use [OF assms(2) e_pick(4)] by (simp add: sent_via_def)
  qed (simp_all add: sent_via_def)
qed

lemma ui_out_of_use:
  assumes "ui_step self self'" and "app_mode self = Tunnelling" and "out_of_use n (w_agg (app_world self))"
    and "switched_off n (w_agg (app_world self))"
  shows "out_of_use n (w_agg (app_world self'))"
  using assms(1)
proof cases
  case (ui_ticked fs now fs' later)
  then have "w_agg (app_world self') = agg_tick fs now fs' (w_agg (app_world self))"
    using assms(2) by (auto simp: app_tick_def tun_tick_def Let_def)
  with tick_out_of_use [OF assms(4)] show ?thesis by simp
next
  case (ui_iface act)
  with assms(3) show ?thesis by (auto simp: iface_action_def upd_config_world out_of_use_def)
qed (use assms(3) in \<open>simp_all add: toggle_enabled_def set_strategy_def set_algorithm_def upd_config_world out_of_use_def
    cycle_theme_def set_tab_def render_palette_def\<close>)

definition quiet :: "string \<Rightarrow> nat \<Rightarrow> sys_state \<Rightarrow> bool" where
  "quiet n m = (\<lambda>(self, e, c). app_mode self = Tunnelling \<and> out_of_use n (w_agg (app_world self))
     \<and> length (sent_via n (app_world self)) + in_flight n e \<le> m)"

lemma sys_quiet:
  assumes "quiet n m s" and "sys_step lk s t" and "switched_off n (w_agg (app_world (fst s)))"
  shows "quiet n m t"
  using assms(2)
proof cases
  case (sys_ui self self' e c)
  then have m: "app_mode self = Tunnelling" using assms(1) by (simp add: quiet_def)
  from ui_step_world [OF sys_ui(3) m] have "app_mode self' = Tunnelling" "w_sent (app_world self') = w_sent (app_world self)" by auto
  then show ?thesis using assms ui_out_of_use [OF sys_ui(3) m] by (simp add: sys_ui(1,2) quiet_def sent_via_def)
next
  case (sys_egress self e w' e' c)
  then have q: "app_mode self = Tunnelling" "out_of_use n (w_agg (app_world self))" using assms(1) by (simp_all add: quiet_def)
  have "ag_mode (w_agg w') = Tunnelling" using egress_step_agg [OF sys_egress(3)] q(1) by (auto simp: route_frame)
  then show ?thesis
    using assms(1) egress_out_of_use [OF sys_egress(3) q(2)] by (simp add: sys_egress(1,2) quiet_def)
next
  case (sys_capture i self c w' p e)
  have "w_sent w' = w_sent (app_world self)" using sys_capture(4) by (auto elim: capture_step.cases)
  then show ?thesis
    using assms(1) capture_step_agg [OF sys_capture(4)] by (simp add: sys_capture(1,2) quiet_def sent_via_def)
next
  case (sys_rehash self t' e c)
  then show ?thesis using assms(1) by (simp add: quiet_def sent_via_def)
qed

text \<open>Runs along which the setting stays.\<close>

definition off_step :: "links \<Rightarrow> string \<Rightarrow> sys_state \<Rightarrow> sys_state \<Rightarrow> bool" where
  "off_step lk n s t \<longleftrightarrow> sys_step lk s t \<and> switched_off n (w_agg (app_world (fst s)))"

interpretation off_sys: invariant_system "quiet n m" "off_step lk n" "quiet n m" for n m lk
  by unfold_locales (auto simp: off_step_def intro: sys_quiet)

section \<open>A link without a capture socket\<close>

text \<open>When the raw socket of an interface opens and its capture socket does not, the interface stays a link:
  packets are sent through it under its address, but no thread captures there, so the replies never
  come back; and the line logged at the end counts a capture thread for it all the same.\<close>

theorem deaf_link:
  assumes "pol_enabled (ci_policy cd)" and "ci_healthy cd" and "hm_get (ipv4_addrs ifas) (ci_name cd) = Some ip"
    and "egress_open k le (ci_name cd) os = (Inr sock, os1)" and "capture_open k le (ci_name cd) os1 = (Inl e, os2)"
  shows "\<exists>lk. start_data_plane k le ifas [cd] os = (lk, os2) \<and> hm_get (ln_ips lk) (ci_name cd) = Some ip
    \<and> hm_get (ln_egress lk) (ci_name cd) = Some sock
    \<and> ready_line lk = ''data plane ready: 1 egress interfaces, 1 capture threads''
    \<and> (\<forall>s t. sys_step lk s t \<and> app_mode (fst s) = Tunnelling \<longrightarrow>
         snd (snd t) = snd (snd s) \<and> w_injected (app_world (fst t)) = w_injected (app_world (fst s)))"
proof -
  let ?lk = "\<lparr>ln_egress = [(ci_name cd, sock)], ln_ips = [(ci_name cd, ip)], ln_captures = []\<rparr>"
  have start: "start_data_plane k le ifas [cd] os = (?lk, os2)"
    using assms by (simp add: start_data_plane_def open_link_def Let_def)
  have line: "ready_line ?lk = ''data plane ready: 1 egress interfaces, 1 capture threads''"
    by (simp add: ready_line_def show_dec_def radix_small)
  have deaf: "snd (snd t) = snd (snd s) \<and> w_injected (app_world (fst t)) = w_injected (app_world (fst s))"
    if step: "sys_step ?lk s t" and mode: "app_mode (fst s) = Tunnelling" for s t
    using step
  proof cases
    case (sys_ui self self' e c)
    then show ?thesis using ui_step_world [OF sys_ui(3)] mode by auto
  next
    case (sys_egress self e w' e' c)
    then show ?thesis using egress_injected [OF sys_egress(3)] by simp
  qed simp_all
  show ?thesis using start line deaf by (intro exI [of _ ?lk]) simp
qed

text \<open>A kernel that hands out raw IP sockets and refuses packet sockets.\<close>

definition no_packet_kernel :: kernel where
  "no_packet_kernel os c = (case c of Sys_socket d t p \<Rightarrow> if d = 17 then Fail 1 else easy_kernel [] os c | _ \<Rightarrow> easy_kernel [] os c)"

lemma deaf_link_witness:
  "\<exists>lk os'. start_data_plane no_packet_kernel True [(''eth0'', V4 sample_ip)] [mk_candidate ''eth0'' 20 2 0] os0 = (lk, os')
     \<and> ready_line lk = ''data plane ready: 1 egress interfaces, 1 capture threads'' \<and> ln_captures lk = []"
proof -
  let ?cd = "mk_candidate ''eth0'' 20 2 0"
  have cd: "pol_enabled (ci_policy ?cd)" "ci_healthy ?cd" "ci_name ?cd = ''eth0''" by (simp_all add: mk_candidate_def)
  obtain sock os1 where e: "egress_open no_packet_kernel True ''eth0'' os0 = (Inr sock, os1)"
    by (simp add: egress_open_def sys_def no_packet_kernel_def easy_kernel_def cstring_def os0_def Let_def)
  obtain err os2 where c: "capture_open no_packet_kernel True ''eth0'' os1 = (Inl err, os2)"
    by (simp add: capture_open_def sys_def no_packet_kernel_def)
  have ip: "hm_get (ipv4_addrs [(''eth0'', V4 sample_ip)]) ''eth0'' = Some sample_ip" by (simp add: ipv4_addrs_def)
  from deaf_link [of ?cd, unfolded cd(3), OF cd(1,2) ip e c] obtain lk where lk:
    "start_data_plane no_packet_kernel True [(''eth0'', V4 sample_ip)] [?cd] os0 = (lk, os2)"
    "ready_line lk = ''data plane ready: 1 egress interfaces, 1 capture threads''" by blast
  moreover from lk(1) have "ln_captures lk = []"
    using cd ip e c by (auto simp: start_data_plane_def open_link_def Let_def)
  ultimately show ?thesis by blast
qed

end
