(* ===== verification/Loops.thy ===== *)
theory Loops
  imports Gateway
begin

text \<open>
  The bodies of \<open>egress_loop\<close> and \<open>capture_loop\<close> in one piece, with the system calls they make: what the
  device returns, what is handed to \<open>sendto\<close> and \<open>write\<close>, and the buffer that is reused.  The step relations
  of \<open>Data_Plane\<close> cut the same bodies where a lock changes hands; here it is shown that nothing is lost
  or added by the cuts: a body run without interference is a round of steps, and every round of steps is
  the body under some answers of the kernel.
\<close>

section \<open>The bodies\<close>

text \<open>Documented behaviour of \<open>read\<close> and \<open>recv\<close>: the number returned is that of the bytes written to the
  buffer, at most its length.\<close>

definition honest_reads :: "kernel \<Rightarrow> bool" where
  "honest_reads k \<longleftrightarrow> (\<forall>os fd m n d. k os (Sys_read fd m) = Ret n d \<or> k os (Sys_recv fd m) = Ret n d \<longrightarrow> length d = n \<and> n \<le> m)"

definition egress_iteration ::
    "kernel \<Rightarrow> bool \<Rightarrow> tun \<Rightarrow> (string, ipv4) hmap \<Rightarrow> (string, raw_egress) hmap \<Rightarrow> bytes \<Rightarrow> world \<Rightarrow> os \<Rightarrow>
     (bytes \<times> world) rust \<times> os" where
  "egress_iteration k le t ips socks buf w os =
     (case tun_read k t buf os of
        ((Inl e, buf), os) \<Rightarrow> (Some (buf, w), os)
      | ((Inr n, buf), os) \<Rightarrow>
     (if n = 0 then (Some (buf, w), os)
      else case subslice buf 0 n of
        None \<Rightarrow> (None, os)
      | Some pkt \<Rightarrow>
     (case egress_pick ips socks pkt (w_agg w) of
        None \<Rightarrow> (None, os)
      | Some (None, ag) \<Rightarrow> (Some (buf, w\<lparr>w_agg := ag\<rparr>), os)
      | Some (Some (f, iface, ip, sock, dst), ag) \<Rightarrow>
     (case register f iface ip (w_nat w) of
        (None, nt) \<Rightarrow> (Some (buf, w\<lparr>w_agg := ag, w_nat := nt\<rparr>), os)
      | (Some s, nt) \<Rightarrow>
     (case egress_rewrite pkt ip of
        None \<Rightarrow> (None, os)
      | Some None \<Rightarrow> (Some (buf, w\<lparr>w_agg := ag, w_nat := nt\<rparr>), os)
      | Some (Some out) \<Rightarrow>
     (case egress_send k le sock out dst os of
        (Inl e, os) \<Rightarrow> (Some (buf, w\<lparr>w_agg := ag, w_nat := nt\<rparr>), os)
      | (Inr m, os) \<Rightarrow>
          (Some (buf, w\<lparr>w_agg := ag, w_nat := nt, w_sent := w_sent w @ [(iface, dst, out)],
             w_tx_packets := w_tx_packets w + 1, w_tx_bytes := w_tx_bytes w + of_nat (length out)\<rparr>), os)))))))"

definition capture_iteration ::
    "kernel \<Rightarrow> raw_capture \<Rightarrow> tun \<Rightarrow> bytes \<Rightarrow> world \<Rightarrow> os \<Rightarrow> (bytes \<times> world) rust \<times> os" where
  "capture_iteration k cap t buf w os =
     (case capture_recv k cap buf os of
        (None, os) \<Rightarrow> (None, os)
      | (Some (Inl e, buf), os) \<Rightarrow> (Some (buf, w), os)
      | (Some (Inr n, buf), os) \<Rightarrow>
     (case subslice buf 0 n of
        None \<Rightarrow> (None, os)
      | Some pkt \<Rightarrow>
     (case capture_parse pkt of
        None \<Rightarrow> (None, os)
      | Some None \<Rightarrow> (Some (buf, w), os)
      | Some (Some (f, src_ip, dst_ip)) \<Rightarrow>
     (case capture_lookup f src_ip dst_ip (w_nat w) of
        None \<Rightarrow> (Some (buf, w), os)
      | Some s \<Rightarrow>
     (case rewrite_ipv4_dest pkt (ses_client_ip s) of
        None \<Rightarrow> (None, os)
      | Some (out, ok) \<Rightarrow>
     (let buf = blit 0 out buf
      in if \<not> ok then (Some (buf, w), os)
         else case tun_write k t (take n buf) os of
           (Inl e, os) \<Rightarrow> (Some (buf, w), os)
         | (Inr m, os) \<Rightarrow>
             (Some (buf, w\<lparr>w_injected := w_injected w @ [take n buf], w_rx_packets := w_rx_packets w + 1\<rparr>), os)))))))"

section \<open>A body without interference\<close>

text \<open>One iteration cut into its steps, from the blocking call and back to it.\<close>

definition egress_inner :: "(string, ipv4) hmap \<Rightarrow> (string, raw_egress) hmap \<Rightarrow> world \<times> egress_pc \<Rightarrow> world \<times> egress_pc \<Rightarrow> bool" where
  "egress_inner ips socks x y \<longleftrightarrow> egress_step ips socks x y \<and> snd x \<noteq> E_Read"

definition egress_round :: "(string, ipv4) hmap \<Rightarrow> (string, raw_egress) hmap \<Rightarrow> world \<Rightarrow> world \<Rightarrow> bool" where
  "egress_round ips socks w w' \<longleftrightarrow> w' = w \<or>
     (\<exists>x. egress_step ips socks (w, E_Read) x \<and> (egress_inner ips socks)\<^sup>*\<^sup>* x (w', E_Read))"

definition capture_inner :: "world \<times> capture_pc \<Rightarrow> world \<times> capture_pc \<Rightarrow> bool" where
  "capture_inner x y \<longleftrightarrow> capture_step x y \<and> snd x \<noteq> C_Recv"

definition capture_round :: "world \<Rightarrow> world \<Rightarrow> bool" where
  "capture_round w w' \<longleftrightarrow> w' = w \<or> (\<exists>x. capture_step (w, C_Recv) x \<and> capture_inner\<^sup>*\<^sup>* x (w', C_Recv))"

section \<open>The calls\<close>

text \<open>Calls that open and close nothing.\<close>

definition called :: "os \<Rightarrow> syscall list \<Rightarrow> os \<Rightarrow> bool" where
  "called os cs os' \<longleftrightarrow> os_fds os' = os_fds os \<and> os_trace os' = os_trace os @ cs"

lemma called_snoc: "called os cs os' \<Longrightarrow> called os' [c] os'' \<Longrightarrow> called os (cs @ [c]) os''"
  by (simp add: called_def)

lemma called_sys:
  "\<not> opens c \<Longrightarrow> (\<forall>fd. c \<noteq> Sys_close fd) \<Longrightarrow> called os [c] (snd (sys k c os))"
  by (cases c; cases "k os c") (simp_all add: called_def sys_def)

lemma subslice_blit [simp]: "length d \<le> length buf \<Longrightarrow> subslice (blit 0 d buf) 0 (length d) = Some d"
  by (simp add: subslice_def blit_def)

lemma tun_read_cases:
  assumes "honest_reads k"
  obtains (failed) e os' where "tun_read k t buf os = ((Inl e, buf), os')" "called os [Sys_read (tun_fd t) (length buf)] os'"
  | (got) pkt os' where "k os (Sys_read (tun_fd t) (length buf)) = Ret (length pkt) pkt" "length pkt \<le> length buf"
      "tun_read k t buf os = ((Inr (length pkt), blit 0 pkt buf), os')" "called os [Sys_read (tun_fd t) (length buf)] os'"
proof -
  let ?c = "Sys_read (tun_fd t) (length buf)"
  have c: "called os [?c] (snd (sys k ?c os))" by (rule called_sys) simp_all
  show thesis
  proof (cases "k os ?c")
    case (Ret n d)
    then have n: "length d = n" "n \<le> length buf" using assms unfolding honest_reads_def by blast+
    with Ret c show thesis by (intro got [of d]) (simp_all add: tun_read_def sys_def Let_def)
  next
    case (Fail e)
    with c show thesis by (intro failed) (simp_all add: tun_read_def sys_def Let_def)
  qed
qed

lemma egress_send_calls:
  "\<exists>r os'. egress_send k le sock out dst os = (r, os') \<and> called os [Sys_sendto (re_fd sock) out (sin_addr_bytes le dst)] os'"
proof -
  let ?c = "Sys_sendto (re_fd sock) out (sin_addr_bytes le dst)"
  have "called os [?c] (snd (sys k ?c os))" by (rule called_sys) simp_all
  then show ?thesis by (cases "k os ?c") (simp_all add: egress_send_def sys_def Let_def)
qed

section \<open>The egress body is its steps\<close>

lemma inner_step: "egress_step ips socks x y \<Longrightarrow> snd x \<noteq> E_Read \<Longrightarrow> (egress_inner ips socks)\<^sup>*\<^sup>* y z \<Longrightarrow> (egress_inner ips socks)\<^sup>*\<^sup>* x z"
  unfolding egress_inner_def by (rule converse_rtranclp_into_rtranclp) simp_all

lemma round_start:
  assumes "pkt \<noteq> []" and "length pkt \<le> MAX_PACKET" and "(egress_inner ips socks)\<^sup>*\<^sup>* (w, E_Got pkt) (w', E_Read)"
  shows "egress_round ips socks w w'"
  using e_read [OF assms(1,2), of ips socks w] assms(3) unfolding egress_round_def by blast

text \<open>After the scheduler's choice.\<close>

lemma egress_pick_round:
  assumes "egress_pick ips socks pkt (w_agg w) = Some (Some (f, iface, ip, sock, dst), ag)"
  obtains (refused) nt where "register f iface ip (w_nat w) = (None, nt)"
      "(egress_inner ips socks)\<^sup>*\<^sup>* (w, E_Got pkt) (w\<lparr>w_agg := ag, w_nat := nt\<rparr>, E_Read)"
  | (dropped) s nt where "register f iface ip (w_nat w) = (Some s, nt)" "egress_rewrite pkt ip = Some None"
      "(egress_inner ips socks)\<^sup>*\<^sup>* (w, E_Got pkt) (w\<lparr>w_agg := ag, w_nat := nt\<rparr>, E_Read)"
  | (ready) s nt out where "register f iface ip (w_nat w) = (Some s, nt)" "egress_rewrite pkt ip = Some (Some out)"
      "forwarded_as ips pkt (iface, dst, out)"
      "(egress_inner ips socks)\<^sup>*\<^sup>* (w, E_Got pkt) (w\<lparr>w_agg := ag, w_nat := nt\<rparr>, E_Read)"
      "(egress_inner ips socks)\<^sup>*\<^sup>* (w, E_Got pkt) (w\<lparr>w_agg := ag, w_nat := nt, w_sent := w_sent w @ [(iface, dst, out)],
         w_tx_packets := w_tx_packets w + 1, w_tx_bytes := w_tx_bytes w + of_nat (length out)\<rparr>, E_Read)"
proof -
  let ?I = "(egress_inner ips socks)\<^sup>*\<^sup>*"
  obtain r nt where reg: "register f iface ip (w_nat w) = (r, nt)" by fastforce
  let ?w1 = "w\<lparr>w_agg := ag\<rparr>" and ?w2 = "w\<lparr>w_agg := ag, w_nat := nt\<rparr>"
  have picked: "?I (w, E_Got pkt) z" if "?I (?w1, E_Picked pkt f iface ip dst) z" for z
    by (rule inner_step [OF e_pick [OF assms] _ that]) simp
  show thesis
  proof (cases r)
    case None
    have "egress_step ips socks (?w1, E_Picked pkt f iface ip dst) (?w2, E_Read)"
      using e_unregistered [of f iface ip ?w1 nt ips socks pkt dst] reg None by simp
    from picked [OF inner_step [OF this]] show thesis by (intro refused [of nt]) (simp_all add: reg None)
  next
    case (Some s)
    have "egress_step ips socks (?w1, E_Picked pkt f iface ip dst) (?w2, E_Registered pkt iface ip dst)"
      using e_register [of f iface ip ?w1 s nt ips socks pkt dst] reg Some by simp
    then have registered: "?I (w, E_Got pkt) z" if "?I (?w2, E_Registered pkt iface ip dst) z" for z
      by (intro picked inner_step [OF _ _ that]) simp_all
    obtain o1 where rw: "egress_rewrite pkt ip = Some o1" using rewrite_source_returns by blast
    show thesis
    proof (cases o1)
      case None
      then have "egress_step ips socks (?w2, E_Registered pkt iface ip dst) (?w2, E_Read)" using rw by (intro e_rewrite_no) simp
      from registered [OF inner_step [OF this]] show thesis
        by (intro dropped [of s nt]) (simp_all add: reg Some rw None)
    next
      case (Some out)
      then have "egress_step ips socks (?w2, E_Registered pkt iface ip dst) (?w2, E_Out out iface dst)" using rw by (intro e_rewrite) simp
      then have rewritten: "?I (w, E_Got pkt) z" if "?I (?w2, E_Out out iface dst) z" for z
        by (intro registered inner_step [OF _ _ that]) simp_all
      have "?I (?w2, E_Out out iface dst) (?w2, E_Read)" by (rule inner_step [OF e_send_failed]) simp_all
      moreover have "?I (?w2, E_Out out iface dst) (?w2\<lparr>w_sent := w_sent ?w2 @ [(iface, dst, out)],
          w_tx_packets := w_tx_packets ?w2 + 1, w_tx_bytes := w_tx_bytes ?w2 + of_nat (length out)\<rparr>, E_Read)"
        by (rule inner_step [OF e_send], simp, rule inner_step [OF e_count_packet], simp, rule inner_step)
          (rule e_count_bytes, simp_all)
      moreover have "forwarded_as ips pkt (iface, dst, out)"
        using egress_pick_Some(1,2,4) [OF assms] rw Some by (auto simp: forwarded_as_def egress_rewrite_iff)
      ultimately show thesis using rewritten reg rw \<open>r = Some s\<close> Some by (intro ready [of s nt out]) simp_all
    qed
  qed
qed

text \<open>The other direction: what a round can be.\<close>

lemma inner_first:
  assumes "(egress_inner ips socks)\<^sup>*\<^sup>* (v, p) (w', E_Read)" and "p \<noteq> E_Read"
  obtains v' p' where "egress_step ips socks (v, p) (v', p')" "(egress_inner ips socks)\<^sup>*\<^sup>* (v', p') (w', E_Read)"
  using assms by (cases rule: converse_rtranclpE) (auto simp: egress_inner_def)

lemma inner_stuck: "(egress_inner ips socks)\<^sup>*\<^sup>* (v, E_Read) (w', E_Read) \<Longrightarrow> w' = v"
  by (erule converse_rtranclpE) (auto simp: egress_inner_def)

definition sent_world :: "world \<Rightarrow> string \<times> ipv4 \<times> bytes \<Rightarrow> world" where
  "sent_world w x = w\<lparr>w_sent := w_sent w @ [x], w_tx_packets := w_tx_packets w + 1,
     w_tx_bytes := w_tx_bytes w + of_nat (length (snd (snd x)))\<rparr>"

lemma inner_out:
  assumes "(egress_inner ips socks)\<^sup>*\<^sup>* (v, E_Out out iface dst) (w', E_Read)"
  shows "w' = v \<or> w' = sent_world v (iface, dst, out)"
proof -
  obtain v1 p1 where 1: "egress_step ips socks (v, E_Out out iface dst) (v1, p1)" "(egress_inner ips socks)\<^sup>*\<^sup>* (v1, p1) (w', E_Read)"
    using assms by (rule inner_first) simp
  from 1(1) show ?thesis
  proof cases
    case e_send_failed
    then show ?thesis using inner_stuck 1(2) by simp
  next
    case e_send
    then obtain v2 p2 where 2: "egress_step ips socks (v1, E_Sent (length out)) (v2, p2)" "(egress_inner ips socks)\<^sup>*\<^sup>* (v2, p2) (w', E_Read)"
      using 1(2) by (auto elim: inner_first)
    from 2(1) have p2: "p2 = E_Counted (length out)" "v2 = v1\<lparr>w_tx_packets := w_tx_packets v1 + 1\<rparr>" by (auto elim: egress_stepE)
    with 2(2) obtain v3 p3 where 3: "egress_step ips socks (v2, E_Counted (length out)) (v3, p3)" "(egress_inner ips socks)\<^sup>*\<^sup>* (v3, p3) (w', E_Read)"
      by (auto elim: inner_first)
    from 3(1) have "p3 = E_Read" "v3 = v2\<lparr>w_tx_bytes := w_tx_bytes v2 + of_nat (length out)\<rparr>" by (auto elim: egress_stepE)
    then show ?thesis using inner_stuck 3(2) p2 e_send by (simp add: sent_world_def)
  qed
qed

lemma inner_got:
  assumes "(egress_inner ips socks)\<^sup>*\<^sup>* (w, E_Got pkt) (w', E_Read)"
  obtains (skipped) ag where "egress_pick ips socks pkt (w_agg w) = Some (None, ag)" "w' = w\<lparr>w_agg := ag\<rparr>"
  | (refused) f iface ip sock dst ag nt where "egress_pick ips socks pkt (w_agg w) = Some (Some (f, iface, ip, sock, dst), ag)"
      "register f iface ip (w_nat w) = (None, nt)" "w' = w\<lparr>w_agg := ag, w_nat := nt\<rparr>"
  | (dropped) f iface ip sock dst ag s nt where "egress_pick ips socks pkt (w_agg w) = Some (Some (f, iface, ip, sock, dst), ag)"
      "register f iface ip (w_nat w) = (Some s, nt)" "egress_rewrite pkt ip = Some None" "w' = w\<lparr>w_agg := ag, w_nat := nt\<rparr>"
  | (ready) f iface ip sock dst ag s nt out where "egress_pick ips socks pkt (w_agg w) = Some (Some (f, iface, ip, sock, dst), ag)"
      "register f iface ip (w_nat w) = (Some s, nt)" "egress_rewrite pkt ip = Some (Some out)"
      "w' = w\<lparr>w_agg := ag, w_nat := nt\<rparr> \<or> w' = sent_world (w\<lparr>w_agg := ag, w_nat := nt\<rparr>) (iface, dst, out)"
proof -
  obtain v1 p1 where 1: "egress_step ips socks (w, E_Got pkt) (v1, p1)" "(egress_inner ips socks)\<^sup>*\<^sup>* (v1, p1) (w', E_Read)"
    using assms by (rule inner_first) simp
  from 1(1) show thesis
  proof cases
    case e_pick_panic
    then show thesis using egress_pick_returns [of ips socks pkt "w_agg w"] by simp
  next
    case (e_skip ag)
    then show thesis using skipped inner_stuck 1(2) by simp
  next
    case (e_pick f iface ip sock dst ag)
    obtain v2 p2 where 2: "egress_step ips socks (v1, p1) (v2, p2)" "(egress_inner ips socks)\<^sup>*\<^sup>* (v2, p2) (w', E_Read)"
      using 1(2) by (rule inner_first) (simp add: e_pick)
    from 2(1) [unfolded e_pick(1,2)] show thesis
    proof cases
      case (e_unregistered nt)
      then show thesis using refused [OF e_pick(3)] inner_stuck 2(2) by simp
    next
      case (e_register s nt)
      obtain v3 p3 where 3: "egress_step ips socks (v2, p2) (v3, p3)" "(egress_inner ips socks)\<^sup>*\<^sup>* (v3, p3) (w', E_Read)"
        using 2(2) by (rule inner_first) (simp add: e_register)
      have reg: "register f iface ip (w_nat w) = (Some s, nt)" using e_register by simp
      from 3(1) [unfolded e_register(1,2)] show thesis
      proof cases
        case e_rewrite_panic
        then show thesis using rewrite_source_returns [of pkt ip] by simp
      next
        case e_rewrite_no
        then show thesis using dropped [OF e_pick(3) reg] inner_stuck 3(2) by simp
      next
        case (e_rewrite out)
        then show thesis using ready [OF e_pick(3) reg] inner_out 3(2) by simp
      qed
    qed
  qed
qed

text \<open>One iteration: it returns, it is a round, and these are its calls.\<close>

lemma egress_iteration_sends:
  assumes rd: "tun_read k t buf os = ((Inr (length pkt), b), os1)" "called os [rd] os1" "pkt \<noteq> []" "length pkt \<le> MAX_PACKET"
      "subslice b 0 (length pkt) = Some pkt"
    and pick: "egress_pick ips socks pkt (w_agg w) = Some (Some (f, iface, ip, sock, dst), ag)"
  shows "\<exists>w' os' cs xs. egress_iteration k le t ips socks buf w os = (Some (b, w'), os')
    \<and> egress_round ips socks w w' \<and> w_sent w' = w_sent w @ xs \<and> called os (rd # cs) os'
    \<and> (cs = [] \<and> xs = [] \<or> (\<exists>out. forwarded_as ips pkt (iface, dst, out)
         \<and> cs = [Sys_sendto (re_fd sock) out (sin_addr_bytes le dst)] \<and> (xs = [] \<or> xs = [(iface, dst, out)])))"
proof -
  note body = egress_iteration_def [of k le t ips socks buf w os, unfolded rd(1)] and start = round_start [OF rd(3,4)]
  let ?w2 = "\<lambda>nt. w\<lparr>w_agg := ag, w_nat := nt\<rparr>"
  show ?thesis
  proof (cases rule: egress_pick_round [OF pick])
    case (1 nt)
    then show ?thesis using pick rd start [OF 1(2)]
      by (intro exI [of _ "?w2 nt"] exI [of _ os1] exI [of _ "[]"]) (simp add: body)
  next
    case (2 s nt)
    then show ?thesis using pick rd start [OF 2(3)]
      by (intro exI [of _ "?w2 nt"] exI [of _ os1] exI [of _ "[]"]) (simp add: body)
  next
    case (3 s nt out)
    let ?send = "Sys_sendto (re_fd sock) out (sin_addr_bytes le dst)"
    obtain r2 os2 where sd: "egress_send k le sock out dst os1 = (r2, os2)" and "called os1 [?send] os2"
      using egress_send_calls [of k le sock out dst os1] by blast
    then have calls: "called os [rd, ?send] os2" using called_snoc [OF rd(2)] by simp
    show ?thesis
    proof (cases r2)
      case (Inl e)
      then show ?thesis using pick rd sd 3(1,2,3) start [OF 3(4)] calls
        by (intro exI [of _ "?w2 nt"] exI [of _ os2] exI [of _ "[?send]"] exI [of _ "[]"]) (auto simp: body)
    next
      case (Inr m)
      then show ?thesis using pick rd sd 3(1,2,3) start [OF 3(5)] calls
        by (intro exI [of _ "w\<lparr>w_agg := ag, w_nat := nt, w_sent := w_sent w @ [(iface, dst, out)],
              w_tx_packets := w_tx_packets w + 1, w_tx_bytes := w_tx_bytes w + of_nat (length out)\<rparr>"]
            exI [of _ os2] exI [of _ "[?send]"] exI [of _ "[(iface, dst, out)]"]) (auto simp: body)
    qed
  qed
qed

lemma egress_iteration_round:
  assumes "honest_reads k" and "length buf = MAX_PACKET"
  shows "\<exists>buf' w' os' cs xs. egress_iteration k le t ips socks buf w os = (Some (buf', w'), os')
    \<and> length buf' = MAX_PACKET \<and> egress_round ips socks w w' \<and> w_sent w' = w_sent w @ xs
    \<and> called os (Sys_read (tun_fd t) MAX_PACKET # cs) os'
    \<and> (cs = [] \<and> xs = [] \<or> (\<exists>n pkt iface dst out sock. k os (Sys_read (tun_fd t) MAX_PACKET) = Ret n pkt
         \<and> forwarded_as ips pkt (iface, dst, out) \<and> hm_get socks iface = Some sock
         \<and> cs = [Sys_sendto (re_fd sock) out (sin_addr_bytes le dst)] \<and> (xs = [] \<or> xs = [(iface, dst, out)])))"
proof (cases rule: tun_read_cases [OF assms(1), of t buf os])
  case (1 e os1)
  then show ?thesis using assms(2)
    by (intro exI [of _ buf] exI [of _ w] exI [of _ os1] exI [of _ "[]"]) (simp add: egress_iteration_def egress_round_def)
next
  case (2 pkt os1)
  note rd = 2(1,2,4) [unfolded assms(2)]
  let ?b = "blit 0 pkt buf"
  have b: "length ?b = MAX_PACKET" "subslice ?b 0 (length pkt) = Some pkt" using 2(2) assms(2) by simp_all
  have quiet: ?thesis if "egress_iteration k le t ips socks buf w os = (Some (?b, w'), os1)"
      "egress_round ips socks w w'" "w_sent w' = w_sent w" for w'
    using that b(1) rd(3) by (intro exI conjI) (assumption | simp)+
  obtain r ag where pk: "egress_pick ips socks pkt (w_agg w) = Some (r, ag)"
    using egress_pick_returns [of ips socks pkt "w_agg w"] by fastforce
  consider "pkt = []" | "pkt \<noteq> []" "r = None" | f iface ip sock dst where "pkt \<noteq> []" "r = Some (f, iface, ip, sock, dst)"
    by (metis option.exhaust prod_cases5)
  then show ?thesis
  proof cases
    case 1
    then show ?thesis using 2(3) by (intro quiet [of w]) (simp_all add: egress_iteration_def egress_round_def)
  next
    case none: 2
    have "egress_step ips socks (w, E_Got pkt) (w\<lparr>w_agg := ag\<rparr>, E_Read)" using pk none by (intro e_skip) simp
    from round_start [OF none(1) rd(2) inner_step [OF this]] show ?thesis
      using pk none b(2) by (intro quiet [of "w\<lparr>w_agg := ag\<rparr>"]) (simp_all add: egress_iteration_def 2(3))
  next
    case some: 3
    note pick = pk [unfolded some(2)]
    from egress_iteration_sends [OF 2(3) rd(3) some(1) rd(2) b(2) pick, of le]
    show ?thesis using b(1) rd(1) egress_pick_Some(3) [OF pick] by blast
  qed
qed

text \<open>A kernel that delivers one packet and lets the writes succeed or not.\<close>

definition device_kernel :: "bytes \<Rightarrow> bool \<Rightarrow> kernel" where
  "device_kernel pkt up os c =
     (case c of
        Sys_read fd m \<Rightarrow> Ret (length (take m pkt)) (take m pkt)
      | Sys_recv fd m \<Rightarrow> Ret (length (take m pkt)) (take m pkt)
      | Sys_sendto fd out a \<Rightarrow> if up then Ret (length out) [] else Fail 101
      | Sys_write fd out \<Rightarrow> if up then Ret (length out) [] else Fail 5
      | _ \<Rightarrow> Fail 1)"

lemma device_honest: "honest_reads (device_kernel pkt up)"
  by (auto simp: honest_reads_def device_kernel_def)

lemma device_read:
  "length pkt \<le> length buf \<Longrightarrow> \<exists>os'. tun_read (device_kernel pkt up) t buf os = ((Inr (length pkt), blit 0 pkt buf), os')"
  by (simp add: tun_read_def sys_def device_kernel_def)

lemma device_send:
  obtains os' r where "egress_send (device_kernel pkt up) le sock out dst os = (r, os')" "(\<exists>m. r = Inr m) = up"
  by (cases up) (simp_all add: egress_send_def sys_def device_kernel_def)

lemma round_iteration:
  assumes "length buf = MAX_PACKET" and "egress_round ips socks w w'"
  shows "\<exists>k buf' os'. honest_reads k \<and> egress_iteration k le t ips socks buf w os = (Some (buf', w'), os')"
proof -
  have run: ?thesis if "egress_iteration (device_kernel pkt up) le t ips socks buf w os = (Some (buf', w'), os')" for pkt up buf' os'
    using that device_honest by blast
  consider "w' = w" | x where "egress_step ips socks (w, E_Read) x" "(egress_inner ips socks)\<^sup>*\<^sup>* x (w', E_Read)"
    using assms(2) unfolding egress_round_def by blast
  then show ?thesis
  proof cases
    case 1
    obtain os' where "tun_read (device_kernel [] True) t buf os = ((Inr 0, blit 0 [] buf), os')"
      using device_read [of "[]" buf True t os] by auto
    then show ?thesis using 1 by (intro run [of "[]" True]) (simp add: egress_iteration_def)
  next
    case (2 x)
    then obtain pkt where x: "x = (w, E_Got pkt)" and pkt: "pkt \<noteq> []" "length pkt \<le> MAX_PACKET"
      by (cases x) (auto elim: egress_stepE)
    have len: "length pkt \<le> length buf" using pkt(2) assms(1) by simp
    show ?thesis
    proof (cases rule: inner_got [OF 2(2) [unfolded x]])
      case (1 ag)
      obtain os1 where "tun_read (device_kernel pkt True) t buf os = ((Inr (length pkt), blit 0 pkt buf), os1)"
        using device_read [OF len] by blast
      then show ?thesis using 1 pkt len by (intro run [of pkt True]) (simp add: egress_iteration_def)
    next
      case (2 f iface ip sock dst ag nt)
      obtain os1 where "tun_read (device_kernel pkt True) t buf os = ((Inr (length pkt), blit 0 pkt buf), os1)"
        using device_read [OF len] by blast
      then show ?thesis using 2 pkt len by (intro run [of pkt True]) (simp add: egress_iteration_def)
    next
      case (3 f iface ip sock dst ag s nt)
      obtain os1 where "tun_read (device_kernel pkt True) t buf os = ((Inr (length pkt), blit 0 pkt buf), os1)"
        using device_read [OF len] by blast
      then show ?thesis using 3 pkt len by (intro run [of pkt True]) (simp add: egress_iteration_def)
    next
      case (4 f iface ip sock dst ag s nt out)
      define up where "up \<longleftrightarrow> w' = sent_world (w\<lparr>w_agg := ag, w_nat := nt\<rparr>) (iface, dst, out)"
      obtain os1 where rd: "tun_read (device_kernel pkt up) t buf os = ((Inr (length pkt), blit 0 pkt buf), os1)"
        using device_read [OF len] by blast
      obtain os2 r where sd: "egress_send (device_kernel pkt up) le sock out dst os1 = (r, os2)" "(\<exists>m. r = Inr m) = up"
        by (rule device_send)
      show ?thesis
      proof (cases r)
        case (Inl e)
        then have "w' = w\<lparr>w_agg := ag, w_nat := nt\<rparr>" using 4(4) sd(2) unfolding up_def by auto
        then show ?thesis using rd sd(1) Inl 4(1-3) pkt len by (intro run [of pkt up]) (simp add: egress_iteration_def)
      next
        case (Inr m)
        then have "w' = sent_world (w\<lparr>w_agg := ag, w_nat := nt\<rparr>) (iface, dst, out)" using sd(2) unfolding up_def by auto
        then show ?thesis using rd sd(1) Inr 4(1-3) pkt len
          by (intro run [of pkt up]) (simp add: egress_iteration_def sent_world_def)
      qed
    qed
  qed
qed

section \<open>The capture body is its steps\<close>

lemma capture_recv_calls:
  assumes "honest_reads k"
  shows "\<exists>r buf' os'. capture_recv k cap buf os = (Some (r, buf'), os') \<and> length buf' = length buf
    \<and> called os [Sys_recv (rc_fd cap) (length buf)] os'
    \<and> ((\<exists>e. r = Inl e) \<or> (\<exists>frame. k os (Sys_recv (rc_fd cap) (length buf)) = Ret (length frame) frame
         \<and> length frame \<le> length buf \<and> r = Inr (length frame - 14)
         \<and> subslice buf' 0 (length frame - 14) = Some (drop 14 frame)))"
proof -
  let ?c = "Sys_recv (rc_fd cap) (length buf)"
  have c: "called os [?c] (snd (sys k ?c os))" by (rule called_sys) simp_all
  show ?thesis
  proof (cases "k os ?c")
    case (Fail e)
    with c show ?thesis by (simp add: capture_recv_def sys_def Let_def)
  next
    case (Ret n d)
    then have n: "length d = n" "n \<le> length buf" using assms unfolding honest_reads_def by blast+
    let ?b = "blit 0 d buf"
    have len: "length ?b = length buf" using n by simp
    show ?thesis
    proof (cases "14 < n")
      case False
      then have "capture_recv k cap buf os = (Some (Inr 0, ?b), snd (sys k ?c os))"
        using Ret by (simp add: capture_recv_def sys_def Let_def)
      then show ?thesis using False Ret n len c
        by (intro exI [of _ "Inr 0"] exI [of _ ?b] exI [of _ "snd (sys k ?c os)"]) (auto simp: subslice_def intro!: exI [of _ d])
    next
      case True
      have "subslice ?b 14 n = Some (drop 14 d)"
        using True n len by (simp add: subslice_def blit_def drop_take)
      then have "capture_recv k cap buf os = (Some (Inr (n - 14), blit 0 (drop 14 d) ?b), snd (sys k ?c os))"
        using True Ret by (simp add: capture_recv_def copy_within_front_def sys_def Let_def)
      moreover have "length (blit 0 (drop 14 d) ?b) = length buf" using n len by simp
      moreover have "subslice (blit 0 (drop 14 d) ?b) 0 (n - 14) = Some (drop 14 d)"
        using subslice_blit [of "drop 14 d" ?b] n len by simp
      ultimately show ?thesis using Ret n c
        by (intro exI [of _ "Inr (n - 14)"] exI [of _ "blit 0 (drop 14 d) ?b"] exI [of _ "snd (sys k ?c os)"]) (auto intro!: exI [of _ d])
    qed
  qed
qed

lemma tun_write_calls:
  "\<exists>r os'. tun_write k t out os = (r, os') \<and> called os [Sys_write (tun_fd t) out] os'"
proof -
  let ?c = "Sys_write (tun_fd t) out"
  have "called os [?c] (snd (sys k ?c os))" by (rule called_sys) simp_all
  then show ?thesis by (cases "k os ?c") (simp_all add: tun_write_def sys_def Let_def)
qed

lemma parsed_rewrites:
  assumes "capture_parse pkt = Some (Some (f, src, dst))"
  shows "\<exists>out. rewrite_ipv4_dest pkt a = Some (out, True) \<and> length out = length pkt"
proof -
  note cp = capture_parse_Some [OF assms]
  obtain out where "rewrite_ipv4_dest pkt a = Some (out, True)" using cp(1) by (simp add: rewrite_ipv4_dest_eq Let_def)
  with rewrite_dest_bytes(2) [OF this cp(2)] show ?thesis by blast
qed

lemma cinner_step: "capture_step x y \<Longrightarrow> snd x \<noteq> C_Recv \<Longrightarrow> capture_inner\<^sup>*\<^sup>* y z \<Longrightarrow> capture_inner\<^sup>*\<^sup>* x z"
  unfolding capture_inner_def by (rule converse_rtranclp_into_rtranclp) simp_all

definition returned_world :: "world \<Rightarrow> bytes \<Rightarrow> world" where
  "returned_world w out = w\<lparr>w_injected := w_injected w @ [out], w_rx_packets := w_rx_packets w + 1\<rparr>"

lemma capture_ready:
  assumes "capture_parse pkt = Some (Some (f, src, dst))" and "capture_lookup f src dst (w_nat w) = Some s"
    and "rewrite_ipv4_dest pkt (ses_client_ip s) = Some (out, True)" and "length pkt + 14 \<le> 65536"
  shows "capture_round w (returned_world w out)"
proof -
  have rw: "capture_rewrite pkt s = Some (Some out)" using assms(3) by (simp add: capture_rewrite_iff)
  have "capture_inner\<^sup>*\<^sup>* (w, C_Out out) (returned_world w out, C_Recv)"
    by (rule cinner_step [OF c_write], simp, rule cinner_step [OF c_count], simp) (simp add: returned_world_def)
  then have "capture_inner\<^sup>*\<^sup>* (w, C_Got pkt) (returned_world w out, C_Recv)"
    by (intro cinner_step [OF c_parse [OF assms(1)]] cinner_step [OF c_lookup [OF assms(2)]] cinner_step [OF c_rewrite [OF rw]]) simp_all
  with c_recv [OF assms(4), of w] show ?thesis unfolding capture_round_def by blast
qed

lemma capture_iteration_answers:
  assumes rd: "capture_recv k cap buf os = (Some (Inr (length pkt), b), os1)" "called os [rd] os1" "length pkt + 14 \<le> 65536"
      "length b = 65536" "subslice b 0 (length pkt) = Some pkt"
    and cp: "capture_parse pkt = Some (Some (f, src, dst))" and s: "capture_lookup f src dst (w_nat w) = Some s" and n: "nat_ok (w_nat w)"
  shows "\<exists>b' w' os' out xs. capture_iteration k cap t buf w os = (Some (b', w'), os') \<and> length b' = 65536
    \<and> capture_round w w' \<and> w_injected w' = w_injected w @ xs \<and> called os [rd, Sys_write (tun_fd t) out] os'
    \<and> answered (live (w_nat w)) pkt out \<and> (xs = [] \<or> xs = [out])"
proof -
  note body = capture_iteration_def [of k cap t buf w os, unfolded rd(1)]
  obtain out where out: "rewrite_ipv4_dest pkt (ses_client_ip s) = Some (out, True)" "length out = length pkt"
    using parsed_rewrites [OF cp] by blast
  have "s \<in> live (w_nat w)" "ret_key_of s = (fl_proto f, src, fl_sport f, dst, fl_dport f)"
    using lookup_return_Some [OF n] s by (simp_all add: capture_lookup_def)
  then have ans: "answered (live (w_nat w)) pkt out" using cp out(1) by (auto simp: answered_def answers_def)
  let ?b = "blit 0 out b"
  have b: "length ?b = 65536" "take (length pkt) ?b = out" using out(2) rd(3,4) by (simp_all add: blit_def)
  obtain r2 os2 where wr: "tun_write k t out os1 = (r2, os2)" and "called os1 [Sys_write (tun_fd t) out] os2"
    using tun_write_calls [of k t out os1] by blast
  then have calls: "called os [rd, Sys_write (tun_fd t) out] os2" using called_snoc [OF rd(2)] by simp
  show ?thesis
  proof (cases r2)
    case (Inl e)
    then show ?thesis using rd(5) cp s out(1) b wr calls ans
      by (intro exI [of _ ?b] exI [of _ w] exI [of _ os2] exI [of _ out] exI [of _ "[]"]) (simp add: body Let_def capture_round_def)
  next
    case (Inr m)
    have "capture_round w (returned_world w out)" by (rule capture_ready [OF cp s out(1) rd(3)])
    with Inr show ?thesis using rd(5) cp s out(1) b wr calls ans
      by (intro exI [of _ ?b] exI [of _ "returned_world w out"] exI [of _ os2] exI [of _ out] exI [of _ "[out]"])
        (simp add: body Let_def returned_world_def)
  qed
qed

lemma capture_iteration_round:
  assumes "honest_reads k" and "length buf = 65536" and "nat_ok (w_nat w)"
  shows "\<exists>buf' w' os' cs xs. capture_iteration k cap t buf w os = (Some (buf', w'), os')
    \<and> length buf' = 65536 \<and> capture_round w w' \<and> w_injected w' = w_injected w @ xs
    \<and> called os (Sys_recv (rc_fd cap) 65536 # cs) os'
    \<and> (cs = [] \<and> xs = [] \<or> (\<exists>n frame out. k os (Sys_recv (rc_fd cap) 65536) = Ret n frame
         \<and> answered (live (w_nat w)) (drop 14 frame) out \<and> cs = [Sys_write (tun_fd t) out] \<and> (xs = [] \<or> xs = [out])))"
proof -
  obtain r b os1 where rd: "capture_recv k cap buf os = (Some (r, b), os1)" "length b = 65536"
      "called os [Sys_recv (rc_fd cap) 65536] os1"
    and r: "(\<exists>e. r = Inl e) \<or> (\<exists>frame. k os (Sys_recv (rc_fd cap) 65536) = Ret (length frame) frame \<and> length frame \<le> 65536
         \<and> r = Inr (length frame - 14) \<and> subslice b 0 (length frame - 14) = Some (drop 14 frame))"
    using capture_recv_calls [OF assms(1), of cap buf os, unfolded assms(2)] by blast
  note body = capture_iteration_def [of k cap t buf w os, unfolded rd(1)]
  have quiet: ?thesis if "capture_iteration k cap t buf w os = (Some (b, w), os1)"
    using that rd(2,3) by (intro exI [of _ b] exI [of _ w] exI [of _ os1] exI [of _ "[]"]) (simp add: capture_round_def)
  consider e where "r = Inl e" | frame where "k os (Sys_recv (rc_fd cap) 65536) = Ret (length frame) frame"
      "length frame \<le> 65536" "r = Inr (length (drop 14 frame))" "subslice b 0 (length (drop 14 frame)) = Some (drop 14 frame)"
    using r by auto
  then show ?thesis
  proof cases
    case 1
    then show ?thesis by (intro quiet) (simp add: body)
  next
    case (2 frame)
    obtain p where p: "capture_parse (drop 14 frame) = Some p" using capture_parse_returns by blast
    consider "p = None" | f src dst where "p = Some (f, src, dst)" "capture_lookup f src dst (w_nat w) = None"
      | f src dst s where "p = Some (f, src, dst)" "capture_lookup f src dst (w_nat w) = Some s"
      by (metis option.exhaust prod_cases3)
    then show ?thesis
    proof cases
      case (3 f src dst s)
      have "length (drop 14 frame) + 14 \<le> 65536" using 2(2) p 3(1) by (auto simp: capture_parse_def)
      from capture_iteration_answers [OF rd(1) [unfolded 2(3)] rd(3) this rd(2) 2(4) p [unfolded 3(1)] 3(2) assms(3), of t]
      show ?thesis using 2(1) by blast
    qed (use 2(3,4) p in \<open>intro quiet; simp add: body\<close>)+
  qed
qed

text \<open>The other direction.\<close>

lemma cinner_first:
  assumes "capture_inner\<^sup>*\<^sup>* (v, p) (w', C_Recv)" and "p \<noteq> C_Recv"
  obtains v' p' where "capture_step (v, p) (v', p')" "capture_inner\<^sup>*\<^sup>* (v', p') (w', C_Recv)"
  using assms by (cases rule: converse_rtranclpE) (auto simp: capture_inner_def)

lemma cinner_stuck: "capture_inner\<^sup>*\<^sup>* (v, C_Recv) (w', C_Recv) \<Longrightarrow> w' = v"
  by (erule converse_rtranclpE) (auto simp: capture_inner_def)

lemma cinner_out:
  assumes "capture_inner\<^sup>*\<^sup>* (v, C_Out out) (w', C_Recv)"
  shows "w' = v \<or> w' = returned_world v out"
proof -
  obtain v1 p1 where 1: "capture_step (v, C_Out out) (v1, p1)" "capture_inner\<^sup>*\<^sup>* (v1, p1) (w', C_Recv)"
    using assms by (rule cinner_first) simp
  from 1(1) show ?thesis
  proof cases
    case c_write_failed
    then show ?thesis using cinner_stuck 1(2) by simp
  next
    case c_write
    then obtain v2 p2 where 2: "capture_step (v1, C_Written) (v2, p2)" "capture_inner\<^sup>*\<^sup>* (v2, p2) (w', C_Recv)"
      using 1(2) by (auto elim: cinner_first)
    from 2(1) have "p2 = C_Recv" "v2 = v1\<lparr>w_rx_packets := w_rx_packets v1 + 1\<rparr>" by (auto elim: capture_stepE)
    then show ?thesis using cinner_stuck 2(2) c_write by (simp add: returned_world_def)
  qed
qed

lemma cinner_got:
  assumes "capture_inner\<^sup>*\<^sup>* (w, C_Got pkt) (w', C_Recv)"
  shows "w' = w \<or> (\<exists>f src dst s out. capture_parse pkt = Some (Some (f, src, dst)) \<and> capture_lookup f src dst (w_nat w) = Some s
    \<and> rewrite_ipv4_dest pkt (ses_client_ip s) = Some (out, True) \<and> w' = returned_world w out)"
proof -
  obtain v1 p1 where 1: "capture_step (w, C_Got pkt) (v1, p1)" "capture_inner\<^sup>*\<^sup>* (v1, p1) (w', C_Recv)"
    using assms by (rule cinner_first) simp
  from 1(1) show ?thesis
  proof cases
    case c_parse_panic
    then show ?thesis using capture_parse_returns [of pkt] by simp
  next
    case c_skip
    then show ?thesis using cinner_stuck 1(2) by simp
  next
    case (c_parse f src dst)
    obtain v2 p2 where 2: "capture_step (v1, p1) (v2, p2)" "capture_inner\<^sup>*\<^sup>* (v2, p2) (w', C_Recv)"
      using 1(2) by (rule cinner_first) (simp add: c_parse)
    from 2(1) [unfolded c_parse(1,2)] show ?thesis
    proof cases
      case c_unknown
      then show ?thesis using cinner_stuck 2(2) by simp
    next
      case (c_lookup s)
      obtain v3 p3 where 3: "capture_step (v2, p2) (v3, p3)" "capture_inner\<^sup>*\<^sup>* (v3, p3) (w', C_Recv)"
        using 2(2) by (rule cinner_first) (simp add: c_lookup)
      from 3(1) [unfolded c_lookup(1,2)] show ?thesis
      proof cases
        case c_rewrite_panic
        then show ?thesis using rewrite_dest_returns [of pkt s] by simp
      next
        case c_rewrite_no
        then show ?thesis using cinner_stuck 3(2) by simp
      next
        case (c_rewrite out)
        then show ?thesis using cinner_out 3(2) c_parse(3) c_lookup(3) by (auto simp: capture_rewrite_iff)
      qed
    qed
  qed
qed

lemma device_recv:
  assumes "length frame \<le> length buf" and "14 < length frame"
  shows "\<exists>b os'. capture_recv (device_kernel frame up) cap buf os = (Some (Inr (length frame - 14), b), os')
    \<and> length b = length buf \<and> subslice b 0 (length frame - 14) = Some (drop 14 frame)"
proof -
  let ?b = "blit 0 frame buf"
  have "subslice ?b 14 (length frame) = Some (drop 14 frame)" using assms by (simp add: subslice_def blit_def drop_take)
  moreover have "subslice (blit 0 (drop 14 frame) ?b) 0 (length frame - 14) = Some (drop 14 frame)"
    using subslice_blit [of "drop 14 frame" ?b] assms(1) by simp
  ultimately show ?thesis using assms by (simp add: capture_recv_def sys_def device_kernel_def copy_within_front_def)
qed

lemma capture_round_iteration:
  assumes "length buf = 65536" and "capture_round w w'"
  shows "\<exists>k buf' os'. honest_reads k \<and> capture_iteration k cap t buf w os = (Some (buf', w'), os')"
proof (cases "w' = w")
  case True
  have "capture_recv (device_kernel [] True) cap buf os = (Some (Inr 0, blit 0 [] buf), snd (sys (device_kernel [] True) (Sys_recv (rc_fd cap) (length buf)) os))"
    by (simp add: capture_recv_def sys_def device_kernel_def)
  then have "\<exists>buf' os'. capture_iteration (device_kernel [] True) cap t buf w os = (Some (buf', w), os')"
    by (simp add: capture_iteration_def subslice_def capture_parse_def)
  then show ?thesis using device_honest True by blast
next
  case False
  then obtain x where x: "capture_step (w, C_Recv) x" "capture_inner\<^sup>*\<^sup>* x (w', C_Recv)"
    using assms(2) unfolding capture_round_def by blast
  then obtain pkt where pkt: "x = (w, C_Got pkt)" "length pkt + 14 \<le> 65536" by (cases x) (auto elim: capture_stepE)
  obtain f src dst s out where r: "capture_parse pkt = Some (Some (f, src, dst))" "capture_lookup f src dst (w_nat w) = Some s"
    "rewrite_ipv4_dest pkt (ses_client_ip s) = Some (out, True)" "w' = returned_world w out"
    using cinner_got x(2) False unfolding pkt(1) by blast
  have len: "length out = length pkt" using parsed_rewrites [OF r(1), of "ses_client_ip s"] r(3) by simp
  let ?f = "replicate 14 0 @ pkt"
  have f: "length ?f \<le> length buf" "14 < length ?f" "drop 14 ?f = pkt"
    using pkt(2) assms(1) r(1) by (auto simp: capture_parse_def split: if_splits)
  obtain b os1 where rd: "capture_recv (device_kernel ?f True) cap buf os = (Some (Inr (length pkt), b), os1)"
      "length b = 65536" "subslice b 0 (length pkt) = Some pkt"
    using device_recv [OF f(1,2), of True cap os] f(3) assms(1) by auto
  have "take (length pkt) (blit 0 out b) = out" using len rd(2) pkt(2) by (simp add: blit_def)
  then have "capture_iteration (device_kernel ?f True) cap t buf w os
      = (Some (blit 0 out b, w'), snd (sys (device_kernel ?f True) (Sys_write (tun_fd t) out) os1))"
    using rd(1,3) r by (simp add: capture_iteration_def Let_def tun_write_def sys_def device_kernel_def returned_world_def)
  then show ?thesis using device_honest by blast
qed

section \<open>The endless loops\<close>

text \<open>\<open>loop { body }\<close>, stopped after \<open>n\<close> iterations.\<close>

fun looped :: "nat \<Rightarrow> (bytes \<Rightarrow> world \<Rightarrow> os \<Rightarrow> (bytes \<times> world) rust \<times> os) \<Rightarrow> bytes \<Rightarrow> world \<Rightarrow> os \<Rightarrow> (bytes \<times> world) rust \<times> os" where
  "looped 0 body buf w os = (Some (buf, w), os)"
| "looped (Suc n) body buf w os =
     (case body buf w os of (None, os) \<Rightarrow> (None, os) | (Some (buf, w), os) \<Rightarrow> looped n body buf w os)"

lemma egress_round_steps: "egress_round ips socks w w' \<Longrightarrow> (egress_step ips socks)\<^sup>*\<^sup>* (w, E_Read) (w', E_Read)"
proof -
  have "(egress_inner ips socks)\<^sup>*\<^sup>* x y \<Longrightarrow> (egress_step ips socks)\<^sup>*\<^sup>* x y" for x y
    by (erule rtranclp_mono [THEN predicate2D, rotated]) (auto simp: egress_inner_def)
  then show "egress_round ips socks w w' \<Longrightarrow> ?thesis" unfolding egress_round_def
    by (metis converse_rtranclp_into_rtranclp rtranclp.rtrancl_refl)
qed

text \<open>What is handed to \<open>sendto\<close> carries its destination in its own header.\<close>

lemma forwarded_header:
  assumes "forwarded_as ips p (iface, dst, out)"
  shows "quad 16 out = octets dst" and "header_ok out" and "\<exists>ip. hm_get ips iface = Some ip \<and> quad 12 out = octets ip"
proof -
  obtain f ip where f: "parse p = Some (Some f)" "hm_get ips iface = Some ip" "ipv4_from_str (fl_dst f) = Some dst"
    "rewrite_ipv4_source p ip = Some (out, True)" using assms by (auto simp: forwarded_as_def)
  note v4 = parse_ipv4_only [OF f(1,3)]
  note ihl = v4(2)
  note rw = v4_flow_rewrite_source [OF f(4) v4(1) ihl]
  show "header_ok out" using rw(1,2) ihl rewrite_header_valid(1) [OF f(4) ihl] by (simp add: header_ok_def)
  show "\<exists>ip. hm_get ips iface = Some ip \<and> quad 12 out = octets ip" using f(2) rewrite_source_bytes(3) [OF f(4) ihl] by blast
  have "fl_dst (v4_flow out) = fl_dst f" by (simp add: rw(3) v4(3))
  then have "ipv4_from_str (fl_dst (v4_flow out)) = Some dst" using f(3) by simp
  then show "quad 16 out = octets dst" by (auto simp: quad_def)
qed

section \<open>Properties\<close>


definition loop_world :: world where
  "loop_world = (fst dp_start)\<lparr>w_agg := one_link\<rparr>"

lemma loop_iteration:
  "\<exists>buf' w' os' out. egress_iteration (device_kernel tcp_sample True) True \<lparr>tun_fd = 3, tun_name = ''netmux0''\<rparr> sample_ips sample_socks
       (replicate MAX_PACKET 0) loop_world os0 = (Some (buf', w'), os') \<and> w_sent w' = [(''eth0'', Ipv4 8 8 8 8, out)]"
proof -
  let ?t = "\<lparr>tun_fd = 3, tun_name = ''netmux0''\<rparr> :: tun"
  have w: "w_agg loop_world = one_link" "w_nat loop_world = nat_new" "w_sent loop_world = []"
    by (simp_all add: loop_world_def dp_start_def)
  obtain ag where pick: "egress_pick sample_ips sample_socks tcp_sample one_link
     = Some (Some (v4_flow tcp_sample, ''eth0'', sample_ip, \<lparr>re_fd = 3, re_ifname = ''eth0''\<rparr>, Ipv4 8 8 8 8), ag)"
    using one_link_pick [OF one_link_ok, of sample_ips sample_socks] by auto
  obtain out where out: "egress_rewrite tcp_sample sample_ip = Some (Some out)"
    using tcp_rewritten unfolding egress_rewrite_iff by blast
  have len: "length tcp_sample \<le> length (replicate MAX_PACKET (0 :: u8))" "tcp_sample \<noteq> []" by (simp_all add: tcp_sample_def MAX_PACKET_def)
  obtain os1 where rd: "tun_read (device_kernel tcp_sample True) ?t (replicate MAX_PACKET 0) os0
      = ((Inr (length tcp_sample), blit 0 tcp_sample (replicate MAX_PACKET 0)), os1)"
    using device_read [OF len(1)] by blast
  obtain os2 m where sd: "egress_send (device_kernel tcp_sample True) True \<lparr>re_fd = 3, re_ifname = ''eth0''\<rparr> out (Ipv4 8 8 8 8) os1 = (Inr m, os2)"
    using device_send [of tcp_sample True] by metis
  show ?thesis using rd sd pick out tcp_register w len by (simp add: egress_iteration_def)
qed


text \<open>C6: What the egress thread asks of the kernel.  For any number of iterations of its loop, under any
  kernel with honest reads, the thread does not panic, the shared state moves along its steps, and its
  system calls are the reads of the TUN, one per iteration, and \<open>sendto\<close> calls on the socket of an opened
  interface, each with a packet that has that interface's address as its source and a valid header
  checksum.  On a little-endian host the address passed to \<open>sendto\<close> is the destination in the packet's
  header with its four bytes reversed, so the kernel is told to route to another host.\<close>

theorem egress_thread_calls:
  assumes "honest_reads k" and "length buf = MAX_PACKET"
  shows "\<exists>buf' w' os' cs. looped n (egress_iteration k le t ips socks) buf w os = (Some (buf', w'), os')
    \<and> (egress_step ips socks)\<^sup>*\<^sup>* (w, E_Read) (w', E_Read) \<and> called os cs os'
    \<and> count_list cs (Sys_read (tun_fd t) MAX_PACKET) = n
    \<and> (\<forall>c \<in> set cs. c = Sys_read (tun_fd t) MAX_PACKET \<or> (\<exists>iface sock ip out. hm_get socks iface = Some sock
         \<and> hm_get ips iface = Some ip \<and> header_ok out \<and> quad 12 out = octets ip
         \<and> c = Sys_sendto (re_fd sock) out (if le then rev (quad 16 out) else quad 16 out)))"
proof -
  let ?rd = "Sys_read (tun_fd t) MAX_PACKET"
  define fine where "fine c \<longleftrightarrow> (\<exists>iface sock ip out. hm_get socks iface = Some sock \<and> hm_get ips iface = Some ip
    \<and> header_ok out \<and> quad 12 out = octets ip \<and> c = Sys_sendto (re_fd sock) out (if le then rev (quad 16 out) else quad 16 out))" for c
  have "\<exists>buf' w' os' cs. looped n (egress_iteration k le t ips socks) buf w os = (Some (buf', w'), os')
      \<and> (egress_step ips socks)\<^sup>*\<^sup>* (w, E_Read) (w', E_Read) \<and> called os cs os' \<and> count_list cs ?rd = n
      \<and> (\<forall>c \<in> set cs. c = ?rd \<or> fine c)"
    using assms(2)
  proof (induction n arbitrary: buf w os)
    case 0
    then show ?case by (intro exI [of _ buf] exI [of _ w] exI [of _ os] exI [of _ "[]"]) (simp add: called_def)
  next
    case (Suc n)
    obtain b1 w1 os1 cs1 where it: "egress_iteration k le t ips socks buf w os = (Some (b1, w1), os1)" "length b1 = MAX_PACKET"
        "egress_round ips socks w w1" "called os (?rd # cs1) os1"
      and cs1: "cs1 = [] \<or> (\<exists>pkt iface dst out sock. forwarded_as ips pkt (iface, dst, out) \<and> hm_get socks iface = Some sock
           \<and> cs1 = [Sys_sendto (re_fd sock) out (sin_addr_bytes le dst)])"
      using egress_iteration_round [OF assms(1) Suc.prems, of le t ips socks w os] by blast
    obtain b2 w2 os2 cs2 where ih: "looped n (egress_iteration k le t ips socks) b1 w1 os1 = (Some (b2, w2), os2)"
        "(egress_step ips socks)\<^sup>*\<^sup>* (w1, E_Read) (w2, E_Read)" "called os1 cs2 os2" "count_list cs2 ?rd = n"
        "\<forall>c \<in> set cs2. c = ?rd \<or> fine c" using Suc.IH [OF it(2), of w1 os1] by blast
    have "\<forall>c \<in> set cs1. c \<noteq> ?rd \<and> fine c"
      using cs1 forwarded_header by (fastforce simp: send_address_reversed fine_def)
    moreover from this have "count_list cs1 ?rd = 0" by (subst count_list_0_iff) blast
    moreover have "(egress_step ips socks)\<^sup>*\<^sup>* (w, E_Read) (w2, E_Read)"
      using egress_round_steps [OF it(3)] ih(2) by (rule rtranclp_trans)
    moreover have "called os (?rd # cs1 @ cs2) os2" using it(4) ih(3) by (simp add: called_def)
    ultimately show ?case using it(1) ih(1,4,5)
      by (intro exI [of _ b2] exI [of _ w2] exI [of _ os2] exI [of _ "?rd # cs1 @ cs2"]) auto
  qed
  then show ?thesis by (simp only: fine_def)
qed

lemma egress_thread_calls_witness:
  "\<exists>buf' w' os' cs. looped 3 (egress_iteration (device_kernel tcp_sample True) True \<lparr>tun_fd = 3, tun_name = ''netmux0''\<rparr>
      sample_ips sample_socks) (replicate MAX_PACKET 0) loop_world os0 = (Some (buf', w'), os')
    \<and> called os0 cs os' \<and> count_list cs (Sys_read 3 MAX_PACKET) = 3"
  using egress_thread_calls [OF device_honest, of "replicate MAX_PACKET 0" 3 tcp_sample True True
      "\<lparr>tun_fd = 3, tun_name = ''netmux0''\<rparr>" sample_ips sample_socks loop_world os0] by auto

end
