(* ===== verification/Elements.thy ===== *)
theory Elements
  imports F64
begin

text \<open>
  What a view hands to the GPUI library: the tree of builder calls.  \<open>div().bg(c).id(i).child(e)\<close> is
  \<open>Div [Style [Bg c], Id i, Child e]\<close>, the calls in the order of the source; a listener and the
  closure of an animation are HOL functions.  What the library does with a tree is not modelled.  The
  functions at the end read a tree: the identifiers it uses, the listeners it installs and under which
  identifier, the texts it shows, its animations.
\<close>

section \<open>\<open>f32\<close>\<close>

text \<open>The values of an \<open>f32\<close> are among those of an \<open>f64\<close>; \<open>as f32\<close> rounds to 24 significant bits.\<close>

type_synonym f32 = f64

definition round_pos32 :: "rat \<Rightarrow> rat" where
  "round_pos32 x = (let e = max (ilog2 x - 23) (- 149) in of_int (rne (x / 2 powi e)) * 2 powi e)"

fun as_f32 :: "f64 \<Rightarrow> f32" where
  "as_f32 (Fin x) =
     (if x = 0 then Fin 0
      else let y = round_pos32 \<bar>x\<bar>
           in if 2 ^ 128 \<le> y then (if 0 < x then PosInf else NegInf) else Fin (sgn x * y))"
| "as_f32 v = v"

lemma as_f32_unit:
  assumes "0 \<le> x" "x \<le> 1"
  shows "\<exists>y. as_f32 (Fin x) = Fin y \<and> 0 \<le> y \<and> y \<le> 1"
proof (cases "x = 0")
  case False
  with assms have x: "0 < x" by simp
  have "x < 2 powi 1" using assms(2) by simp
  from ilog2_less [OF x this] have "ilog2 x \<le> 0" by simp
  define e where "e = max (ilog2 x - 23) (- 149)"
  have e: "e \<le> 0" using \<open>ilog2 x \<le> 0\<close> by (simp add: e_def)
  define n where "n = rne (x / 2 powi e)"
  have "x / 2 powi e \<le> 1 / 2 powi e" using assms(2) by (intro divide_right_mono) simp_all
  also have "\<dots> = of_int (2 ^ nat (- e))" using e by (simp add: power_int_def inverse_eq_divide power_one_over)
  finally have "n \<le> 2 ^ nat (- e)" unfolding n_def by (rule rne_le_of_int)
  then have "of_int n \<le> (of_int (2 ^ nat (- e)) :: rat)" by (simp only: of_int_le_iff)
  then have "of_int n * 2 powi e \<le> (of_int (2 ^ nat (- e)) :: rat) * 2 powi e" by (rule mult_right_mono) simp
  also have "\<dots> = 1" using e by (simp add: power_int_def power_one_over)
  finally have le: "of_int n * 2 powi e \<le> (1 :: rat)" .
  have "0 \<le> n" unfolding n_def using x by (intro rne_nonneg) simp
  then have ge: "0 \<le> of_int n * (2 powi e :: rat)" by simp
  have r: "round_pos32 x = of_int n * 2 powi e" by (simp add: round_pos32_def e_def n_def Let_def)
  have "(1 :: rat) < 2 ^ 128" by simp
  with le have "of_int n * 2 powi e < (2 ^ 128 :: rat)" by (rule le_less_trans)
  then have "\<not> (2 ^ 128 :: rat) \<le> of_int n * 2 powi e" by (simp only: not_le)
  then have "as_f32 (Fin x) = Fin (of_int n * 2 powi e)" using x by (simp add: r Let_def)
  with le ge show ?thesis by blast
qed simp

section \<open>Builder calls\<close>

datatype len = Px f32 | Fraction f32

datatype font_weight = Medium | Semibold | Bold

datatype style =
    Bg u32 | Text_color u32 | Border_color u32 | Border_1 | Border_b_1 | Border_r_1 | Rounded_lg | Rounded_full
  | P_4 | Px_2 | Px_3 | Px_4 | Px_5 | Py_1 | Py_2 | Py_4 | My_3 | Mt_2 | Gap_1 | Gap_2 | Gap_3
  | Flex | Flex_row | Flex_col | Flex_wrap | Flex_1 | Flex_grow_1 | Flex_basis len | Items_center
  | Width len | Height len | Size len | W_full | H_full | Size_full | Overflow_y_scroll
  | Text_xs | Text_sm | Text_lg | Text_xl | Font_weight font_weight | Opacity f32

record spring_config =
  sp_stiffness :: f32
  sp_damping :: f32
  sp_mass :: f32

record spring_animation =
  sa_config :: spring_config
  sa_to :: f32
  sa_from :: f32

text \<open>A listener takes the view, of type \<open>'s\<close>.  Consecutive styling calls are one \<open>Style\<close>.\<close>

datatype 's element =
    Text string
  | Div "'s call list"
  | With_spring "'s call list" string spring_animation "f32 \<Rightarrow> style"
and 's call =
    Style "style list"
  | Hover "style list"
  | Id string
  | On_click "'s \<Rightarrow> 's rust"
  | Child "'s element"

type_synonym 's builder = "'s call list"

section \<open>Reading a tree\<close>

fun call_id :: "'s call \<Rightarrow> string list" where
  "call_id (Id i) = [i]"
| "call_id _ = []"

fun call_click :: "'s call \<Rightarrow> ('s \<Rightarrow> 's rust) list" where
  "call_click (On_click f) = [f]"
| "call_click _ = []"

definition own_ids :: "'s builder \<Rightarrow> string list" where
  "own_ids d = concat (map call_id d)"

definition own_clicks :: "'s builder \<Rightarrow> ('s \<Rightarrow> 's rust) list" where
  "own_clicks d = concat (map call_click d)"

text \<open>The identifiers, the listeners with their identifiers, the texts and the animations of a tree.\<close>

fun ids :: "'s element \<Rightarrow> string list" and call_ids :: "'s call \<Rightarrow> string list" where
  "ids (Text s) = []"
| "ids (Div d) = concat (map call_ids d)"
| "ids (With_spring d i a f) = i # concat (map call_ids d)"
| "call_ids (Id i) = [i]"
| "call_ids (Child e) = ids e"
| "call_ids _ = []"

fun controls :: "'s element \<Rightarrow> (string \<times> ('s \<Rightarrow> 's rust)) list"
  and call_controls :: "'s call \<Rightarrow> (string \<times> ('s \<Rightarrow> 's rust)) list" where
  "controls (Text s) = []"
| "controls (Div d) = List.product (own_ids d) (own_clicks d) @ concat (map call_controls d)"
| "controls (With_spring d i a f) = List.product (own_ids d) (own_clicks d) @ concat (map call_controls d)"
| "call_controls (Child e) = controls e"
| "call_controls _ = []"

fun texts :: "'s element \<Rightarrow> string list" and call_texts :: "'s call \<Rightarrow> string list" where
  "texts (Text s) = [s]"
| "texts (Div d) = concat (map call_texts d)"
| "texts (With_spring d i a f) = concat (map call_texts d)"
| "call_texts (Child e) = texts e"
| "call_texts _ = []"

fun springs :: "'s element \<Rightarrow> (spring_animation \<times> (f32 \<Rightarrow> style)) list"
  and call_springs :: "'s call \<Rightarrow> (spring_animation \<times> (f32 \<Rightarrow> style)) list" where
  "springs (Text s) = []"
| "springs (Div d) = concat (map call_springs d)"
| "springs (With_spring d i a f) = (a, f) # concat (map call_springs d)"
| "call_springs (Child e) = springs e"
| "call_springs _ = []"

text \<open>A \<open>div\<close> takes at most one identifier, and \<open>on_click\<close> and scrolling exist only on one that has it.\<close>

definition stateful_ok :: "'s builder \<Rightarrow> bool" where
  "stateful_ok d \<longleftrightarrow> length (own_ids d) \<le> 1
     \<and> (own_clicks d \<noteq> [] \<or> list_ex (\<lambda>c. case c of Style ss \<Rightarrow> Overflow_y_scroll \<in> set ss | _ \<Rightarrow> False) d
        \<longrightarrow> length (own_ids d) = 1)"

fun typed :: "'s element \<Rightarrow> bool" and call_typed :: "'s call \<Rightarrow> bool" where
  "typed (Text s) \<longleftrightarrow> True"
| "typed (Div d) \<longleftrightarrow> stateful_ok d \<and> list_all call_typed d"
| "typed (With_spring d i a f) \<longleftrightarrow> stateful_ok d \<and> own_ids d = [] \<and> list_all call_typed d"
| "call_typed (Child e) \<longleftrightarrow> typed e"
| "call_typed _ \<longleftrightarrow> True"

section \<open>Laws\<close>

named_theorems tree_simps

lemma own_simps [tree_simps]:
  "own_ids [] = []" "own_ids (c # d) = call_id c @ own_ids d" "own_ids (d @ d') = own_ids d @ own_ids d'"
  "own_clicks [] = []" "own_clicks (c # d) = call_click c @ own_clicks d" "own_clicks (d @ d') = own_clicks d @ own_clicks d'"
  by (simp_all add: own_ids_def own_clicks_def)

lemma own_children [tree_simps]:
  "own_ids (map (\<lambda>x. Child (f x)) xs) = []" "own_clicks (map (\<lambda>x. Child (f x)) xs) = []"
  by (induction xs) (simp_all add: own_simps)

text \<open>The children of a chain of calls, so that \<open>simp\<close> never unfolds a tree it knows a law for.\<close>

definition child_controls :: "'s builder \<Rightarrow> (string \<times> ('s \<Rightarrow> 's rust)) list" where
  "child_controls d = concat (map call_controls d)"

definition child_springs :: "'s builder \<Rightarrow> (spring_animation \<times> (f32 \<Rightarrow> style)) list" where
  "child_springs d = concat (map call_springs d)"

lemma child_simps [tree_simps]:
  "child_controls [] = []" "child_controls (c # d) = call_controls c @ child_controls d"
  "child_controls (d @ d') = child_controls d @ child_controls d'"
  "child_springs [] = []" "child_springs (c # d) = call_springs c @ child_springs d"
  "child_springs (d @ d') = child_springs d @ child_springs d'"
  by (simp_all add: child_controls_def child_springs_def)

lemma child_map [tree_simps]:
  "child_controls (map (\<lambda>x. Child (f x)) xs) = concat (map (\<lambda>x. controls (f x)) xs)"
  "child_springs (map (\<lambda>x. Child (f x)) xs) = concat (map (\<lambda>x. springs (f x)) xs)"
  by (simp_all add: child_controls_def child_springs_def comp_def)

lemma tree_div [tree_simps]:
  "controls (Div d) = List.product (own_ids d) (own_clicks d) @ child_controls d"
  "controls (With_spring d i a f) = List.product (own_ids d) (own_clicks d) @ child_controls d"
  "springs (Div d) = child_springs d" "springs (With_spring d i a f) = (a, f) # child_springs d"
  by (simp_all add: child_controls_def child_springs_def)

declare controls.simps(2,3) [simp del] springs.simps(2,3) [simp del]

end
