(* ===== verification/Views.thy ===== *)
theory Views
  imports Startup Elements
begin

text \<open>
  The rendering of \<open>main.rs\<close>: each function that builds a part of the window, as the tree of builder
  calls it makes (theory \<open>Elements\<close>), down to the listeners.  Functions that return a \<open>Div\<close> in the
  source return a \<open>builder\<close>, those that return an \<open>impl IntoElement\<close> an \<open>element\<close>; \<open>into_any_element\<close> is
  the identity.  A loop that adds one child per candidate is a \<open>map\<close>.  Labels are UTF-8 bytes, written
  by code point.
\<close>

section \<open>Text\<close>

definition utf8_bytes :: "nat \<Rightarrow> nat list" where
  "utf8_bytes c =
     (if c < 0x80 then [c]
      else if c < 0x800 then [0xC0 + c div 0x40, 0x80 + c mod 0x40]
      else if c < 0x10000 then [0xE0 + c div 0x1000, 0x80 + c div 0x40 mod 0x40, 0x80 + c mod 0x40]
      else [0xF0 + c div 0x40000, 0x80 + c div 0x1000 mod 0x40, 0x80 + c div 0x40 mod 0x40, 0x80 + c mod 0x40])"

definition utf8 :: "nat list \<Rightarrow> string" where
  "utf8 cs = map char_of (concat (map utf8_bytes cs))"

text \<open>\<open>str::contains\<close>.\<close>

definition contains :: "string \<Rightarrow> string \<Rightarrow> bool" where
  "contains s pat = list_ex (\<lambda>i. take (length pat) (drop i s) = pat) [0..<length s + 1]"

type_synonym el = "netmux_app element"
type_synonym bld = "netmux_app builder"
type_synonym handler = "netmux_app \<Rightarrow> netmux_app rust"

section \<open>Building blocks\<close>

definition card :: "theme \<Rightarrow> bld" where
  "card t = [Style [Bg (th_panel t), Border_1, Border_color (th_border t), Rounded_lg, P_4]]"

definition spring :: spring_config where
  "spring = \<lparr>sp_stiffness = Fin 180, sp_damping = Fin 26, sp_mass = Fin 1\<rparr>"

definition spring_to :: "f32 \<Rightarrow> spring_animation" where
  "spring_to v = \<lparr>sa_config = spring, sa_to = v, sa_from = Fin 0\<rparr>"

definition entrance :: "bld \<Rightarrow> string \<Rightarrow> el" where
  "entrance b i = With_spring b (i @ ''-entrance'') (spring_to (Fin 1)) (\<lambda>phase. Opacity phase)"

definition bar_fill :: "theme \<Rightarrow> string \<Rightarrow> f64 \<Rightarrow> u32 \<Rightarrow> el" where
  "bar_fill t i ratio color =
     (let ratio = as_f32 (clamp01 ratio)
      in Div [Style [Flex, W_full, Height (Px (Fin 6)), Bg (th_track t), Rounded_full],
           Child (With_spring [Style [Height (Px (Fin 6)), Bg color, Rounded_full]]
             (i @ ''-fill'') (spring_to ratio) (\<lambda>phase. Width (Fraction (f64_max phase (Fin 0)))))])"

definition small_btn :: "theme \<Rightarrow> string \<Rightarrow> string \<Rightarrow> handler \<Rightarrow> el" where
  "small_btn t i label f =
     Div [Id i, On_click f, Style [Px_3, Py_1, Rounded_lg, Text_sm, Bg (th_track t)], Hover [Bg (th_border t)],
       Style [Text_color (th_text_muted t)], Child (Text label)]"

definition mode_chip :: "theme \<Rightarrow> string \<Rightarrow> bld" where
  "mode_chip t label =
     (let (bgc, fgc) = (if contains label ''TUN'' then (th_accent t, th_text_on_accent t) else (th_track t, th_text_muted t))
      in [Style [Bg bgc, Text_color fgc, Rounded_full, Px_3, Py_1, Text_sm], Child (Text label)])"

definition notice_box :: "theme \<Rightarrow> string \<Rightarrow> bld" where
  "notice_box t text =
     [Style [Bg (th_panel t), Border_1, Border_color (th_border t), Rounded_lg, Px_4, Py_2, Text_sm,
       Text_color (th_text_muted t)], Child (Text text)]"

definition toggle_pill :: "theme \<Rightarrow> bool \<Rightarrow> el" where
  "toggle_pill t enabled =
     (let (bgc, label) = (if enabled then (th_success t, (utf8 [0x25CF] @ '' '' @ utf8 [0x805A, 0x5408, 0x8FD0, 0x884C, 0x4E2D])) else (th_idle t, (utf8 [0x25CB] @ '' '' @ utf8 [0x805A, 0x5408, 0x5DF2, 0x6682, 0x505C])))
      in Div [Id ''toggle'', On_click (\<lambda>app. Some (toggle_enabled app)), Style [Bg bgc],
           Hover [Bg (if enabled then th_success_bright t else th_text_muted t)],
           Style [Text_color (th_text_on_accent t), Rounded_full, Px_4, Py_1, Text_sm, Font_weight Medium],
           Child (Text label)])"

definition theme_button :: "theme \<Rightarrow> theme_mode \<Rightarrow> el" where
  "theme_button t mode =
     (let icon = (case mode of Theme_Dark \<Rightarrow> (utf8 [0x1F319]) | Theme_Light \<Rightarrow> (utf8 [0x2600, 0xFE0F]) | Theme_System \<Rightarrow> (utf8 [0x1F5A5]))
      in Div [Id ''theme'', On_click (\<lambda>app. Some (cycle_theme app)), Style [Px_3, Py_1, Rounded_lg, Text_sm, Bg (th_track t)],
           Hover [Bg (th_border t)], Style [Text_color (th_text_muted t)],
           Child (Text (icon @ ('' '' @ utf8 [0x4E3B, 0x9898] @ '': '') @ theme_label mode))])"

text \<open>A muted line of text.\<close>

definition muted :: "theme \<Rightarrow> style \<Rightarrow> string \<Rightarrow> el" where
  "muted t sz s = Div [Style [sz, Text_color (th_text_muted t)], Child (Text s)]"

definition kpi :: "theme \<Rightarrow> string \<Rightarrow> string \<Rightarrow> bld" where
  "kpi t label value =
     card t @ [Style [Flex, Flex_col, Gap_1, Flex_grow_1, Flex_basis (Px (Fin 200))],
       Child (muted t Text_xs label), Child (Div [Style [Text_xl, Font_weight Bold], Child (Text value)])]"

section \<open>Navigation\<close>

definition nav_item :: "netmux_app \<Rightarrow> theme \<Rightarrow> string \<Rightarrow> tab \<Rightarrow> el" where
  "nav_item self t label tab =
     Div ([Id (''nav-'' @ label), Style [W_full, Px_3, Py_2, Rounded_lg, Text_sm]] @
       (if app_tab self = tab
        then [Style [Bg (th_accent t), Text_color (th_text_on_accent t), Font_weight Semibold], Child (Text label)]
        else [Style [Text_color (th_text_muted t)], Hover [Bg (th_panel t), Text_color (th_text t)],
          On_click (\<lambda>app. Some (set_tab tab app)), Child (Text label)]))"

definition nav_items :: "netmux_app \<Rightarrow> theme \<Rightarrow> bld" where
  "nav_items self t =
     [Child (nav_item self t (utf8 [0x4EEA, 0x8868, 0x76D8]) Tab_Dashboard), Child (nav_item self t (utf8 [0x63A5, 0x53E3, 0x76D1, 0x63A7]) Tab_Interfaces),
      Child (nav_item self t (utf8 [0x7B56, 0x7565, 0x914D, 0x7F6E]) Tab_Policy), Child (nav_item self t (utf8 [0x6027, 0x80FD, 0x7EDF, 0x8BA1]) Tab_Statistics)]"

definition nav_row :: "netmux_app \<Rightarrow> theme \<Rightarrow> el" where
  "nav_row self t = Div (Style [Flex, Flex_row, Gap_2, Flex_wrap] # nav_items self t)"

definition sidebar :: "netmux_app \<Rightarrow> theme \<Rightarrow> bool \<Rightarrow> el" where
  "sidebar self t enabled =
     Div ([Style [Width (Px (Fin 220)), H_full, Flex, Flex_col, Bg (th_sidebar t), Border_r_1, Border_color (th_border t), P_4, Gap_1],
       Child (Div [Style [Flex, Flex_row, Items_center, Gap_2, Px_2, Py_2],
         Child (Div [Style [Size (Px (Fin 10)), Rounded_full, Bg (th_accent_bright t)]]),
         Child (Div [Style [Text_lg, Font_weight Bold], Child (Text ''NetMux'')]),
         Child (muted t Text_xs ''v0.1.0'')]),
       Child (Div [Style [Height (Px (Fin 1)), W_full, Bg (th_border t), My_3]])]
      @ nav_items self t
      @ [Child (Div [Style [Flex_1]]),
       Child (Div [Style [Flex, Flex_col, Gap_2, Px_2, Py_2],
         Child (Div [Style [Flex, Flex_row, Items_center, Gap_2],
           Child (Div [Style [Size (Px (Fin 6)), Rounded_full, Bg (if enabled then th_success_bright t else th_text_muted t)]]),
           Child (muted t Text_xs (if enabled then (utf8 [0x805A, 0x5408, 0x8FD0, 0x884C, 0x4E2D]) else (utf8 [0x805A, 0x5408, 0x5DF2, 0x6682, 0x505C])))]),
         Child (theme_button t (app_theme_mode self))])])"

section \<open>Dashboard\<close>

text \<open>The dot before a name.\<close>

definition status_dot :: "theme \<Rightarrow> candidate \<Rightarrow> el" where
  "status_dot t c = Div [Style [Size (Px (Fin 8)), Rounded_full, Bg (if ci_healthy c then th_success_bright t else th_danger t)]]"

definition name_label :: "string \<Rightarrow> el" where
  "name_label n = Div [Style [Font_weight Semibold], Child (Text n)]"

definition agg_card :: "theme \<Rightarrow> f64 \<Rightarrow> candidate \<Rightarrow> bld" where
  "agg_card t speed c =
     (let load = divide (ci_tx_bps c + ci_rx_bps c) (f64_max speed (Fin 1));
          tx = fmt_bps (ci_tx_bps c); rx = fmt_bps (ci_rx_bps c)
      in card t @ [Style [Flex, Flex_col, Gap_2],
           Child (Div [Style [Flex, Flex_row, Items_center, Gap_2],
             Child (status_dot t c), Child (name_label (ci_name c)), Child (muted t Text_xs (kind_label (ci_kind c))),
             Child (Div [Style [Flex_1]]), Child (muted t Text_xs (''TX '' @ tx @ ''  RX '' @ rx))]),
           Child (bar_fill t (''agg-'' @ ci_name c) load (th_accent_bright t))])"

definition aggregated_bar :: "theme \<Rightarrow> candidate list \<Rightarrow> f64 \<Rightarrow> el" where
  "aggregated_bar t candidates speed =
     Div (Style [Flex, Flex_col, Gap_2]
       # map (\<lambda>c. Child (entrance (agg_card t speed c) (''aggcard-'' @ ci_name c)))
           (filter (\<lambda>c. pol_enabled (ci_policy c)) candidates))"

definition render_dashboard :: "netmux_app \<Rightarrow> theme \<Rightarrow> candidate list \<Rightarrow> f64 \<Rightarrow> el" where
  "render_dashboard self t candidates speed =
     Div [Style [Flex, Flex_col, Gap_3],
       Child (Div [Style [Flex, Flex_row, Gap_3, Flex_wrap],
         Child (entrance (kpi t (utf8 [0x5DF2, 0x542F, 0x7528, 0x63A5, 0x53E3]) (kpi_interfaces candidates)) ''kpi-1''),
         Child (entrance (kpi t (utf8 [0x805A, 0x5408, 0x5E26, 0x5BBD] @ ''('' @ utf8 [0x4F30, 0x7B97] @ '')'') (kpi_bandwidth (app_world self))) ''kpi-2''),
         Child (entrance (kpi t (utf8 [0x8F6C, 0x53D1, 0x5305, 0x6570]) (kpi_packets (app_world self))) ''kpi-3''),
         Child (entrance (kpi t (utf8 [0x5F53, 0x524D, 0x8D1F, 0x8F7D]) (kpi_load candidates)) ''kpi-4'')]),
       Child (muted t Text_sm (utf8 [0x8D1F, 0x8F7D, 0x5747, 0x8861, 0x793A, 0x610F])),
       Child (aggregated_bar t candidates speed)]"

section \<open>Interfaces\<close>

definition enable_btn :: "theme \<Rightarrow> string \<Rightarrow> bool \<Rightarrow> el" where
  "enable_btn t name enable_state =
     Div [Id (''enable-'' @ name), On_click (iface_action (Enable name (\<not> enable_state))),
       Style [Px_3, Py_1, Rounded_full, Text_sm, Bg (if enable_state then th_success t else th_idle t),
         Text_color (th_text_on_accent t)],
       Child (Text (if enable_state then (utf8 [0x5DF2, 0x542F, 0x7528]) else (utf8 [0x5DF2, 0x505C, 0x7528])))]"

definition rate_line :: "theme \<Rightarrow> u32 \<Rightarrow> string \<Rightarrow> string \<Rightarrow> f64 \<Rightarrow> el" where
  "rate_line t color label i ratio =
     Div [Style [Flex, Flex_row, Items_center, Gap_2],
       Child (Div [Style [Text_xs, Text_color color], Child (Text label)]), Child (bar_fill t i ratio color)]"

definition iface_card :: "theme \<Rightarrow> f64 \<Rightarrow> candidate \<Rightarrow> bld" where
  "iface_card t speed c =
     (let n = ci_name c
      in card t @ [Style [Flex, Flex_col, Gap_2],
           Child (Div [Style [Flex, Flex_row, Items_center, Gap_2],
             Child (enable_btn t n (pol_enabled (ci_policy c))), Child (status_dot t c), Child (name_label n),
             Child (muted t Text_xs (kind_label (ci_kind c))), Child (Div [Style [Flex_1]]),
             Child (muted t Text_xs ((utf8 [0x4F18, 0x5148, 0x7EA7] @ '' '') @ show_dec (unat (pol_priority (ci_policy c))))),
             Child (muted t Text_xs ((utf8 [0x6743, 0x91CD] @ '' '') @ show_dec (unat (pol_weight (ci_policy c)))))]),
           Child (rate_line t (th_bar_tx t) (utf8 [0x2193] @ '' TX'') (''tx-'' @ n) (divide (ci_tx_bps c) (f64_max speed (Fin 1)))),
           Child (rate_line t (th_bar_rx t) (utf8 [0x2191] @ '' RX'') (''rx-'' @ n) (divide (ci_rx_bps c) (f64_max speed (Fin 1)))),
           Child (Div [Style [Flex, Flex_row, Flex_wrap, Gap_2],
             Child (small_btn t (''pri-plus-'' @ n) (utf8 [0x4F18, 0x5148, 0x7EA7] @ '' +'') (iface_action (Priority n 1))),
             Child (small_btn t (''pri-minus-'' @ n) (utf8 [0x4F18, 0x5148, 0x7EA7] @ '' -'') (iface_action (Priority n (- 1)))),
             Child (small_btn t (''wei-plus-'' @ n) (utf8 [0x6743, 0x91CD] @ '' +'') (iface_action (Weight n 1))),
             Child (small_btn t (''wei-minus-'' @ n) (utf8 [0x6743, 0x91CD] @ '' -'') (iface_action (Weight n (- 1))))])])"

definition render_interfaces :: "theme \<Rightarrow> candidate list \<Rightarrow> f64 \<Rightarrow> el" where
  "render_interfaces t candidates speed =
     Div (Style [Flex, Flex_col, Gap_2]
       # (if candidates = [] then [Child (Div (card t @ [Child (Text (utf8 [0x672A, 0x53D1, 0x73B0, 0x7269, 0x7406, 0x7F51, 0x7EDC, 0x63A5, 0x53E3, 0x3002]))]))] else [])
       @ map (\<lambda>c. Child (entrance (iface_card t speed c) (''iface-'' @ ci_name c))) candidates)"

section \<open>Policy\<close>

text \<open>The body the two kinds of cards share; they differ in identifier, action and width.\<close>

definition choice_card :: "theme \<Rightarrow> string \<Rightarrow> handler \<Rightarrow> f32 \<Rightarrow> string \<Rightarrow> string \<Rightarrow> bool \<Rightarrow> el" where
  "choice_card t i f basis label desc active =
     Div [Id i, On_click f,
       Style [Flex, Flex_col, Gap_1, P_4, Rounded_lg, Flex_grow_1, Flex_basis (Px basis), Border_1,
         Border_color (if active then th_accent_bright t else th_border t),
         Bg (if active then th_panel_active t else th_panel t)],
       Hover (if active then [] else [Bg (th_panel_hover t)]),
       Child (Div [Style [Flex, Flex_row, Items_center, Gap_2],
         Child (Text (if active then (utf8 [0x25CF]) else (utf8 [0x25CB]))), Child (name_label label)]),
       Child (muted t Text_xs desc)]"

definition strategy_card :: "theme \<Rightarrow> string \<Rightarrow> string \<Rightarrow> strategy \<Rightarrow> strategy \<Rightarrow> el" where
  "strategy_card t label desc value current =
     choice_card t (''strategy-'' @ label) (\<lambda>app. Some (set_strategy value app)) (Fin 240) label desc (value = current)"

definition algo_card :: "theme \<Rightarrow> string \<Rightarrow> string \<Rightarrow> balance_algorithm \<Rightarrow> balance_algorithm \<Rightarrow> el" where
  "algo_card t label desc value current =
     choice_card t (''algo-'' @ label) (\<lambda>app. Some (set_algorithm value app)) (Fin 220) label desc (value = current)"

definition render_policy :: "netmux_app \<Rightarrow> theme \<Rightarrow> el" where
  "render_policy self t =
     (let strategy = cfg_strategy (app_config self); algo = cfg_algorithm (app_config self)
      in Div [Style [Flex, Flex_col, Gap_3],
           Child (muted t Text_sm (utf8 [0x805A, 0x5408, 0x7B56, 0x7565])),
           Child (Div [Style [Flex, Flex_row, Gap_3, Flex_wrap],
             Child (strategy_card t (utf8 [0x8D1F, 0x8F7D, 0x5747, 0x8861]) (utf8 [0x5728, 0x591A, 0x63A5, 0x53E3, 0x95F4, 0x5206, 0x914D, 0x65B0, 0x8FDE, 0x63A5, 0xFF0C, 0x805A, 0x5408, 0x5E26, 0x5BBD]) LoadBalance strategy),
             Child (strategy_card t (utf8 [0x6545, 0x969C, 0x8F6C, 0x79FB]) (utf8 [0x6309, 0x4F18, 0x5148, 0x7EA7, 0x81EA, 0x52A8, 0x5207, 0x6362, 0x5230, 0x6700, 0x9AD8, 0x5728, 0x7EBF, 0x63A5, 0x53E3]) Failover strategy)]),
           Child (Div [Style [Mt_2, Text_sm, Text_color (th_text_muted t)],
             Child (Text (utf8 [0x8D1F, 0x8F7D, 0x5747, 0x8861, 0x7B97, 0x6CD5, 0xFF08, 0x4EC5, 0x8D1F, 0x8F7D, 0x5747, 0x8861, 0x6A21, 0x5F0F, 0x751F, 0x6548, 0xFF09]))]),
           Child (Div [Style [Flex, Flex_row, Gap_3, Flex_wrap],
             Child (algo_card t (utf8 [0x54C8, 0x5E0C]) (utf8 [0x6309, 0x4E94, 0x5143, 0x7EC4, 0x56FA, 0x5B9A, 0x5206, 0x914D, 0xFF0C, 0x8FDE, 0x63A5, 0x4FDD, 0x6301, 0x7A33, 0x5B9A]) Hash algo),
             Child (algo_card t (utf8 [0x8F6E, 0x8BE2]) (utf8 [0x52A0, 0x6743, 0x8F6E, 0x8F6C, 0xFF0C, 0x5747, 0x5300, 0x5206, 0x914D, 0x65B0, 0x8FDE, 0x63A5]) RoundRobin algo),
             Child (algo_card t (utf8 [0x6700, 0x5C0F, 0x8D1F, 0x8F7D]) (utf8 [0x5B9E, 0x65F6, 0x8D1F, 0x8F7D, 0x6700, 0x4F4E, 0x7684, 0x63A5, 0x53E3, 0x4F18, 0x5148]) LeastLoaded algo)]),
           Child (Div (notice_box t (utf8 [0x8BF4, 0x660E, 0xFF1A, 0x6545, 0x969C, 0x8F6C, 0x79FB, 0x6A21, 0x5F0F, 0x6309, 0x4F18, 0x5148, 0x7EA7, 0x9009, 0x62E9, 0x6700, 0x9AD8, 0x7684, 0x5728, 0x7EBF, 0x63A5, 0x53E3, 0xFF1B, 0x8D1F, 0x8F7D, 0x5747, 0x8861, 0x6A21, 0x5F0F, 0x901A, 0x8FC7, 0x4E0A, 0x8FF0, 0x7B97, 0x6CD5, 0x5728, 0x591A, 0x4E2A, 0x63A5, 0x53E3, 0x95F4, 0x5206, 0x914D, 0x65B0, 0x5EFA, 0x8FDE, 0x63A5, 0x3002, 0x53EF, 0x5728, 0x300C, 0x63A5, 0x53E3, 0x76D1, 0x63A7, 0x300D, 0x4E2D, 0x8C03, 0x6574, 0x5404, 0x63A5, 0x53E3, 0x7684, 0x4F18, 0x5148, 0x7EA7, 0x4E0E, 0x6743, 0x91CD, 0x3002])))])"

section \<open>Statistics\<close>

text \<open>\<open>iter().sum()\<close> of floats adds from the left, starting with zero.\<close>

definition total_tx :: "candidate list \<Rightarrow> f64" where
  "total_tx cs = foldl (\<lambda>s c. s + ci_tx_bps c) (Fin 0) cs"

definition total_rx :: "candidate list \<Rightarrow> f64" where
  "total_rx cs = foldl (\<lambda>s c. s + ci_rx_bps c) (Fin 0) cs"

definition stat_row :: "theme \<Rightarrow> f64 \<Rightarrow> bool \<Rightarrow> candidate \<Rightarrow> bld" where
  "stat_row t speed narrow c =
     (let load = divide (ci_tx_bps c + ci_rx_bps c) (f64_max speed (Fin 1));
          name_w = (if narrow then Px (Fin 90) else Px (Fin 150))
      in card t @ [Style [Flex, Flex_row, Items_center, Gap_2],
           Child (Div [Style [Width name_w, Font_weight Semibold], Child (Text (ci_name c))]),
           Child (Div [Style [Text_xs, Text_color (th_bar_tx t)], Child (Text (fmt_bps (ci_tx_bps c)))]),
           Child (Div [Style [Text_xs, Text_color (th_bar_rx t)], Child (Text (fmt_bps (ci_rx_bps c)))]),
           Child (bar_fill t (''stat-'' @ ci_name c) load (th_bar_neutral t))])"

definition render_statistics :: "netmux_app \<Rightarrow> theme \<Rightarrow> candidate list \<Rightarrow> f64 \<Rightarrow> bool \<Rightarrow> el" where
  "render_statistics self t candidates speed narrow =
     Div ([Style [Flex, Flex_col, Gap_2],
       Child (entrance (card t @ [Style [Flex, Flex_row, Items_center, Gap_2],
         Child (muted t Text_sm (utf8 [0x603B, 0x8BA1])), Child (Div [Style [Flex_1]]),
         Child (Div [Style [Text_sm, Text_color (th_bar_tx t)], Child (Text ((utf8 [0x2191] @ '' TX '') @ fmt_bps (total_tx candidates)))]),
         Child (Div [Style [Text_sm, Text_color (th_bar_rx t)], Child (Text ((utf8 [0x2193] @ '' RX '') @ fmt_bps (total_rx candidates)))])])
         ''stat-total'')]
      @ map (\<lambda>c. Child (entrance (stat_row t speed narrow c) (''statrow-'' @ ci_name c))) candidates
      @ [Child (entrance (card t @ [Style [Flex, Flex_row, Items_center, Gap_2],
           Child (Div [Style [Text_sm], Child (Text ((utf8 [0x5F53, 0x524D, 0x6D3B, 0x8DC3, 0x6D41, 0x8BB0, 0x5F55] @ '': '')
             @ show_dec (length (ag_flow_table (w_agg (app_world self)))) @ ('' '' @ utf8 [0x6761])))])])
           ''stat-flows'')])"

section \<open>The window\<close>

text \<open>\<open>dark_window\<close> is what the window reports in follow-system mode, \<open>width\<close> its width.\<close>

definition render_page :: "netmux_app \<Rightarrow> theme \<Rightarrow> bool \<Rightarrow> el" where
  "render_page self t narrow =
     (let candidates = ag_candidates (w_agg (app_world self)); speed = max_speed candidates
      in case app_tab self of
           Tab_Dashboard \<Rightarrow> render_dashboard self t candidates speed
         | Tab_Interfaces \<Rightarrow> render_interfaces t candidates speed
         | Tab_Policy \<Rightarrow> render_policy self t
         | Tab_Statistics \<Rightarrow> render_statistics self t candidates speed narrow)"

definition render_header :: "netmux_app \<Rightarrow> theme \<Rightarrow> bool \<Rightarrow> el" where
  "render_header self t narrow =
     Div [Style [Flex, Flex_row, Items_center, Gap_3, Px_5, Py_4, Border_b_1, Border_color (th_border t)],
       Child (Div [Style [Text_lg, Font_weight Semibold], Child (Text (tab_title (app_tab self)))]),
       Child (Div [Style [Flex_1]]),
       Child (if narrow then theme_button t (app_theme_mode self) else Div []),
       Child (Div (mode_chip t (mode_label (ag_mode (w_agg (app_world self)))))),
       Child (toggle_pill t (cfg_enabled (app_config self)))]"

definition render_content :: "netmux_app \<Rightarrow> theme \<Rightarrow> bool \<Rightarrow> el" where
  "render_content self t narrow =
     Div [Id ''content'', Style [Flex_1, Flex, Flex_col, Px_5, Py_4, Gap_3, Overflow_y_scroll],
       Child (if narrow then nav_row self t else Div []),
       Child (Div (if cfg_enabled (app_config self) \<and> ag_mode (w_agg (app_world self)) = Simulation
         then notice_box t (utf8 [0x6A21, 0x62DF, 0x6F14, 0x793A, 0x6A21, 0x5F0F, 0xFF1A, 0x5C55, 0x793A, 0x8D1F, 0x8F7D, 0x5747, 0x8861] @ ''/'' @ utf8 [0x6545, 0x969C, 0x8F6C, 0x79FB, 0x8C03, 0x5EA6, 0x3002, 0x4EE5] @ '' CAP_NET_ADMIN '' @ utf8 [0x8FD0, 0x884C, 0x5E76, 0x52A0] @ '' --tun '' @ utf8 [0x53EF, 0x542F, 0x7528, 0x771F, 0x5B9E] @ '' TUN '' @ utf8 [0x805A, 0x5408, 0x3002]) else [])),
       Child (Div (case app_banner self of Some b \<Rightarrow> notice_box t b | None \<Rightarrow> [])),
       Child (render_page self t narrow)]"

definition render_tree :: "f32 \<Rightarrow> netmux_app \<Rightarrow> el" where
  "render_tree width self =
     (let t = app_active_theme self; narrow = width < Fin 720
      in Div [Id ''root'', Style [Bg (th_bg t), Text_color (th_text t), Flex, Flex_row, Size_full],
           Child (if narrow then Div [] else sidebar self t (cfg_enabled (app_config self))),
           Child (Div [Style [Flex_1, Flex, Flex_col, Size_full],
             Child (render_header self t narrow), Child (render_content self t narrow)])])"

definition render :: "bool \<Rightarrow> f32 \<Rightarrow> netmux_app \<Rightarrow> el \<times> netmux_app" where
  "render dark_window width self =
     (let self = render_palette dark_window self in (render_tree width self, self))"

end
