(* ===== verification/Pages.thy ===== *)
theory Pages
  imports Views "HOL-Library.Multiset"
begin

text \<open>
  What the window of \<open>Views\<close> promises: which identifiers, controls and animations each frame has.
  \<open>page_ids\<close>, \<open>page_controls\<close> and \<open>page_springs\<close> are the inventories of the four pages; the properties
  are about a whole frame, in both layouts.
\<close>

named_theorems block_defs

lemmas [block_defs] =
  card_def entrance_def bar_fill_def small_btn_def mode_chip_def notice_box_def toggle_pill_def theme_button_def
  muted_def kpi_def nav_item_def nav_items_def nav_row_def sidebar_def status_dot_def name_label_def agg_card_def
  aggregated_bar_def render_dashboard_def enable_btn_def rate_line_def iface_card_def render_interfaces_def
  choice_card_def strategy_card_def algo_card_def render_policy_def stat_row_def render_statistics_def

lemma if_collapse [tree_simps]:
  "(case (if b then (x, y) else (x', y')) of (u, v) \<Rightarrow> f u v) = (if b then f x y else f x' y')"
  by simp

lemma own_if [tree_simps]:
  "own_ids (if b then d else d') = (if b then own_ids d else own_ids d')"
  "own_clicks (if b then d else d') = (if b then own_clicks d else own_clicks d')"
  by simp_all

section \<open>Identifiers\<close>

definition enabled_of :: "candidate list \<Rightarrow> candidate list" where
  "enabled_of = filter (\<lambda>c. pol_enabled (ci_policy c))"

definition iface_ids :: "string \<Rightarrow> string list" where
  "iface_ids n = [''iface-'' @ n @ ''-entrance'', ''enable-'' @ n, ''tx-'' @ n @ ''-fill'', ''rx-'' @ n @ ''-fill'',
     ''pri-plus-'' @ n, ''pri-minus-'' @ n, ''wei-plus-'' @ n, ''wei-minus-'' @ n]"

lemma iface_card_ids: "ids (entrance (iface_card t speed c) (''iface-'' @ ci_name c)) = iface_ids (ci_name c)"
  by (simp add: block_defs Let_def iface_ids_def)

lemma interfaces_ids: "ids (render_interfaces t cs speed) = concat (map (\<lambda>c. iface_ids (ci_name c)) cs)"
  by (simp add: render_interfaces_def iface_card_ids [simplified] comp_def card_def)

lemma agg_card_ids:
  "ids (entrance (agg_card t speed c) (''aggcard-'' @ ci_name c)) =
     [''aggcard-'' @ ci_name c @ ''-entrance'', ''agg-'' @ ci_name c @ ''-fill'']"
  by (simp add: block_defs Let_def)

lemma dashboard_ids:
  "ids (render_dashboard self t cs speed) = [''kpi-1-entrance'', ''kpi-2-entrance'', ''kpi-3-entrance'', ''kpi-4-entrance'']
     @ concat (map (\<lambda>c. [''aggcard-'' @ ci_name c @ ''-entrance'', ''agg-'' @ ci_name c @ ''-fill'']) (enabled_of cs))"
proof -
  have "ids (aggregated_bar t cs speed) =
      concat (map (\<lambda>c. [''aggcard-'' @ ci_name c @ ''-entrance'', ''agg-'' @ ci_name c @ ''-fill'']) (enabled_of cs))"
    by (simp add: aggregated_bar_def agg_card_ids [simplified] enabled_of_def comp_def)
  then show ?thesis by (simp add: render_dashboard_def muted_def entrance_def kpi_def card_def)
qed

lemma stat_row_ids:
  "ids (entrance (stat_row t speed narrow c) (''statrow-'' @ ci_name c)) =
     [''statrow-'' @ ci_name c @ ''-entrance'', ''stat-'' @ ci_name c @ ''-fill'']"
  by (simp add: block_defs Let_def)

lemma statistics_ids:
  "ids (render_statistics self t cs speed narrow) = [''stat-total-entrance'']
     @ concat (map (\<lambda>c. [''statrow-'' @ ci_name c @ ''-entrance'', ''stat-'' @ ci_name c @ ''-fill'']) cs)
     @ [''stat-flows-entrance'']"
  by (simp add: render_statistics_def stat_row_ids [simplified] comp_def) (simp add: entrance_def card_def muted_def)

section \<open>The navigation\<close>

definition tabs :: "tab list" where
  "tabs = [Tab_Dashboard, Tab_Interfaces, Tab_Policy, Tab_Statistics]"

lemma nav_labels:
  "utf8 [0x4EEA, 0x8868, 0x76D8] = tab_title Tab_Dashboard" "utf8 [0x63A5, 0x53E3, 0x76D1, 0x63A7] = tab_title Tab_Interfaces"
  "utf8 [0x7B56, 0x7565, 0x914D, 0x7F6E] = tab_title Tab_Policy" "utf8 [0x6027, 0x80FD, 0x7EDF, 0x8BA1] = tab_title Tab_Statistics"
  by (simp_all add: utf8_def utf8_bytes_def char_of_def bit_Suc_0_iff)

lemma nav_items_eq: "nav_items self t = map (\<lambda>v. Child (nav_item self t (tab_title v) v)) tabs"
  unfolding nav_items_def nav_labels tabs_def by simp

definition nav_ids :: "string list" where
  "nav_ids = map (\<lambda>v. ''nav-'' @ tab_title v) tabs"

lemma nav_item_ids: "ids (nav_item self t label v) = [''nav-'' @ label]"
  by (simp add: nav_item_def)

lemma nav_items_ids: "concat (map call_ids (nav_items self t)) = nav_ids"
  unfolding nav_items_eq nav_ids_def tabs_def by (simp add: nav_item_ids)

lemma nav_ids_distinct: "distinct nav_ids"
  by (simp add: nav_ids_def tabs_def)

definition policy_ids :: "string list" where
  "policy_ids = [''strategy-'' @ utf8 [0x8D1F, 0x8F7D, 0x5747, 0x8861], ''strategy-'' @ utf8 [0x6545, 0x969C, 0x8F6C, 0x79FB],
     ''algo-'' @ utf8 [0x54C8, 0x5E0C], ''algo-'' @ utf8 [0x8F6E, 0x8BE2], ''algo-'' @ utf8 [0x6700, 0x5C0F, 0x8D1F, 0x8F7D]]"

lemma policy_ids: "ids (render_policy self t) = policy_ids"
  by (simp add: block_defs Let_def policy_ids_def)

lemma policy_ids_distinct: "distinct policy_ids"
  by (simp add: policy_ids_def utf8_def utf8_bytes_def char_of_def)

definition page_ids :: "netmux_app \<Rightarrow> string list" where
  "page_ids self =
     (let cs = ag_candidates (w_agg (app_world self))
      in case app_tab self of
           Tab_Dashboard \<Rightarrow> [''kpi-1-entrance'', ''kpi-2-entrance'', ''kpi-3-entrance'', ''kpi-4-entrance'']
             @ concat (map (\<lambda>c. [''aggcard-'' @ ci_name c @ ''-entrance'', ''agg-'' @ ci_name c @ ''-fill'']) (enabled_of cs))
         | Tab_Interfaces \<Rightarrow> concat (map (\<lambda>c. iface_ids (ci_name c)) cs)
         | Tab_Policy \<Rightarrow> policy_ids
         | Tab_Statistics \<Rightarrow> [''stat-total-entrance'']
             @ concat (map (\<lambda>c. [''statrow-'' @ ci_name c @ ''-entrance'', ''stat-'' @ ci_name c @ ''-fill'']) cs)
             @ [''stat-flows-entrance''])"

lemma render_page_ids: "ids (render_page self t narrow) = page_ids self"
  by (cases "app_tab self")
    (simp_all only: render_page_def page_ids_def Let_def tab.case dashboard_ids interfaces_ids policy_ids statistics_ids)

lemma theme_button_ids: "ids (theme_button t m) = [''theme'']"
  by (simp add: theme_button_def Let_def)

lemma toggle_pill_ids: "ids (toggle_pill t b) = [''toggle'']"
  by (simp add: toggle_pill_def Let_def split: prod.split)

lemma header_ids: "ids (render_header self t narrow) = (if narrow then [''theme''] else []) @ [''toggle'']"
  by (simp add: render_header_def theme_button_ids toggle_pill_ids mode_chip_def split: prod.split)

lemma sidebar_ids: "ids (sidebar self t b) = nav_ids @ [''theme'']"
  by (simp add: sidebar_def nav_items_ids theme_button_ids muted_def)

lemma nav_row_ids: "ids (nav_row self t) = nav_ids"
  by (simp add: nav_row_def nav_items_ids)

lemma notice_ids: "c \<in> set (notice_box t s) \<Longrightarrow> call_ids c = []"
  by (auto simp: notice_box_def)

lemma content_ids: "ids (render_content self t narrow) = ''content'' # (if narrow then nav_ids else []) @ page_ids self"
  by (cases "app_banner self") (auto simp: render_content_def nav_row_ids render_page_ids intro: notice_ids)

lemma frame_ids:
  "ids (render_tree width self) = ''root'' # (if width < Fin 720 then [] else nav_ids @ [''theme''])
     @ (if width < Fin 720 then [''theme''] else []) @ [''toggle''] @ ''content'' # (if width < Fin 720 then nav_ids else []) @ page_ids self"
  by (simp add: render_tree_def Let_def sidebar_ids header_ids content_ids)

lemma distinct_blocks:
  assumes "distinct (map f xs)" and "\<And>a. distinct (g a)" and "\<And>a b. a \<noteq> b \<Longrightarrow> set (g a) \<inter> set (g b) = {}"
  shows "distinct (concat (map (\<lambda>x. g (f x)) xs))"
  using assms(1) by (induction xs) (use assms(2,3) in auto)

lemma page_ids_distinct:
  assumes "distinct (map ci_name (ag_candidates (w_agg (app_world self))))"
  shows "distinct (page_ids self)"
proof -
  let ?cs = "ag_candidates (w_agg (app_world self))"
  let ?g = "\<lambda>n. [''aggcard-'' @ n @ ''-entrance'', ''agg-'' @ n @ ''-fill'']"
    and ?h = "\<lambda>n. [''statrow-'' @ n @ ''-entrance'', ''stat-'' @ n @ ''-fill'']"
  have "distinct (map ci_name (enabled_of ?cs))"
    using assms by (auto simp: enabled_of_def distinct_map intro: inj_on_subset)
  then have d: "distinct (concat (map (\<lambda>c. ?g (ci_name c)) (enabled_of ?cs)))" by (rule distinct_blocks) auto
  have i: "distinct (concat (map (\<lambda>c. iface_ids (ci_name c)) ?cs))"
    using assms by (rule distinct_blocks) (auto simp: iface_ids_def)
  have s: "distinct (concat (map (\<lambda>c. ?h (ci_name c)) ?cs))"
    using assms by (rule distinct_blocks) auto
  show ?thesis
    using d i s policy_ids_distinct by (cases "app_tab self") (auto simp: page_ids_def Let_def)
qed

section \<open>Controls\<close>

definition iface_controls :: "candidate \<Rightarrow> (string \<times> handler) list" where
  "iface_controls c =
     (let n = ci_name c
      in [(''enable-'' @ n, iface_action (Enable n (\<not> pol_enabled (ci_policy c)))),
          (''pri-plus-'' @ n, iface_action (Priority n 1)), (''pri-minus-'' @ n, iface_action (Priority n (- 1))),
          (''wei-plus-'' @ n, iface_action (Weight n 1)), (''wei-minus-'' @ n, iface_action (Weight n (- 1)))])"

definition policy_controls :: "(string \<times> handler) list" where
  "policy_controls =
     zip policy_ids [\<lambda>app. Some (set_strategy LoadBalance app), \<lambda>app. Some (set_strategy Failover app),
       \<lambda>app. Some (set_algorithm Hash app), \<lambda>app. Some (set_algorithm RoundRobin app), \<lambda>app. Some (set_algorithm LeastLoaded app)]"

definition page_controls :: "netmux_app \<Rightarrow> (string \<times> handler) list" where
  "page_controls self =
     (case app_tab self of
        Tab_Interfaces \<Rightarrow> concat (map iface_controls (ag_candidates (w_agg (app_world self))))
      | Tab_Policy \<Rightarrow> policy_controls
      | _ \<Rightarrow> [])"

definition nav_controls :: "netmux_app \<Rightarrow> (string \<times> handler) list" where
  "nav_controls self =
     map (\<lambda>v. (''nav-'' @ tab_title v, \<lambda>app. Some (set_tab v app))) (filter (\<lambda>v. v \<noteq> app_tab self) tabs)"

definition theme_control :: "string \<times> handler" where
  "theme_control = (''theme'', \<lambda>app. Some (cycle_theme app))"

definition toggle_control :: "string \<times> handler" where
  "toggle_control = (''toggle'', \<lambda>app. Some (toggle_enabled app))"

lemma plain_controls [simp]:
  "controls (muted t sz s) = []" "controls (name_label n) = []" "controls (status_dot t c) = []"
  "controls (bar_fill t i r col) = []" "controls (rate_line t col label i r) = []"
  by (simp_all add: muted_def name_label_def status_dot_def bar_fill_def rate_line_def Let_def tree_simps)

lemma card_inert [simp]: "own_ids (card t) = []" "own_clicks (card t) = []" "child_controls (card t) = []"
  by (simp_all add: card_def tree_simps)

lemma iface_card_controls: "controls (entrance (iface_card t speed c) i) = iface_controls c"
  by (simp add: entrance_def iface_card_def iface_controls_def enable_btn_def small_btn_def Let_def tree_simps)

lemma interfaces_controls: "controls (render_interfaces t cs speed) = concat (map iface_controls cs)"
  by (simp add: render_interfaces_def tree_simps iface_card_controls comp_def)

lemma dashboard_controls: "controls (render_dashboard self t cs speed) = []"
proof -
  have "controls (aggregated_bar t cs speed) = []"
    by (simp add: aggregated_bar_def tree_simps entrance_def agg_card_def Let_def)
  then show ?thesis by (simp add: render_dashboard_def entrance_def kpi_def tree_simps)
qed

lemma statistics_controls: "controls (render_statistics self t cs speed narrow) = []"
  by (simp add: render_statistics_def stat_row_def entrance_def tree_simps Let_def)

lemma policy_page_controls: "controls (render_policy self t) = policy_controls"
  by (simp add: render_policy_def strategy_card_def algo_card_def choice_card_def notice_box_def policy_controls_def
      policy_ids_def Let_def tree_simps)

lemma render_page_controls: "controls (render_page self t narrow) = page_controls self"
  by (cases "app_tab self")
    (simp_all only: render_page_def page_controls_def Let_def tab.case dashboard_controls interfaces_controls
      policy_page_controls statistics_controls)

lemma chrome_controls:
  "controls (theme_button t m) = [theme_control]" "controls (toggle_pill t b) = [toggle_control]"
  by (simp_all add: theme_button_def toggle_pill_def theme_control_def toggle_control_def Let_def tree_simps split: prod.split)

lemma inert_builders [simp]:
  "own_ids (mode_chip t s) = []" "own_clicks (mode_chip t s) = []" "child_controls (mode_chip t s) = []"
  "own_ids (notice_box t s) = []" "own_clicks (notice_box t s) = []" "child_controls (notice_box t s) = []"
  by (simp_all add: mode_chip_def notice_box_def Let_def tree_simps)

lemma nav_items_controls: "child_controls (nav_items self t) = nav_controls self"
proof -
  have "controls (nav_item self t (tab_title v) v) =
      (if app_tab self = v then [] else [(''nav-'' @ tab_title v, \<lambda>app. Some (set_tab v app))])" for v
    by (simp add: nav_item_def tree_simps)
  then show ?thesis unfolding nav_items_eq nav_controls_def tabs_def by (simp del: tab_title.simps add: tree_simps)
qed

lemma optional_notice [simp]:
  "own_ids (case x of Some s \<Rightarrow> notice_box t s | None \<Rightarrow> []) = []" "own_clicks (case x of Some s \<Rightarrow> notice_box t s | None \<Rightarrow> []) = []"
  "child_controls (case x of Some s \<Rightarrow> notice_box t s | None \<Rightarrow> []) = []"
  "child_controls (if b then notice_box t s else []) = []"
  by (simp_all add: tree_simps split: option.split)

lemma nav_own: "own_ids (nav_items self t) = []" "own_clicks (nav_items self t) = []"
  by (simp_all add: nav_items_def tree_simps)

lemma bar_controls:
  "controls (nav_row self t) = nav_controls self" "controls (sidebar self t b) = nav_controls self @ [theme_control]"
  "controls (render_header self t narrow) = (if narrow then [theme_control] else []) @ [toggle_control]"
  by (simp_all add: nav_row_def sidebar_def render_header_def nav_items_controls chrome_controls nav_own tree_simps)

lemma content_controls: "controls (render_content self t narrow) = (if narrow then nav_controls self else []) @ page_controls self"
  by (simp add: render_content_def bar_controls render_page_controls tree_simps)

lemma frame_controls_eq:
  "controls (render_tree width self) =
     (if width < Fin 720 then theme_control # toggle_control # nav_controls self else nav_controls self @ [theme_control, toggle_control])
     @ page_controls self"
  by (simp add: render_tree_def Let_def bar_controls content_controls tree_simps)

section \<open>Animations\<close>

definition spring_ok :: "spring_animation \<times> (f32 \<Rightarrow> style) \<Rightarrow> bool" where
  "spring_ok = (\<lambda>(a, f). sa_config a = spring \<and> sa_from a = Fin 0 \<and> (\<exists>x. sa_to a = Fin x \<and> 0 \<le> x \<and> x \<le> 1))"

definition bar_spring :: "f64 \<Rightarrow> spring_animation \<times> (f32 \<Rightarrow> style)" where
  "bar_spring ratio = (spring_to (as_f32 (clamp01 ratio)), \<lambda>phase. Width (Fraction (f64_max phase (Fin 0))))"

lemma clamp01_unit:
  assumes "r \<noteq> NaN"
  shows "\<exists>x. clamp01 r = Fin x \<and> 0 \<le> x \<and> x \<le> 1"
  using assms by (cases r) (auto simp: clamp01_def)

lemma as_f32_one: "as_f32 (Fin 1) = Fin 1"
  by code_simp

lemma bar_spring_ok: "r \<noteq> NaN \<Longrightarrow> spring_ok (bar_spring r)"
  using clamp01_unit [of r] as_f32_unit by (force simp: spring_ok_def bar_spring_def spring_to_def)

lemma round64_number [simp]: "round64 x \<noteq> NaN"
  by (simp add: round64_def Let_def)

lemma ratio_number: "1 \<le> m \<Longrightarrow> divide (Fin x) (f64_max (Fin m) (Fin 1)) \<noteq> NaN"
  by (simp add: max_def)

lemma block_springs [simp]:
  "springs (bar_fill t i r col) = [bar_spring r]"
  "springs (entrance d i) = (spring_to (Fin 1), \<lambda>phase. Opacity phase) # child_springs d"
  "springs (muted t sz s) = []" "springs (name_label n) = []" "springs (status_dot t c) = []"
  "springs (enable_btn t n en) = []" "springs (small_btn t i l g) = []" "springs (rate_line t col l i r) = [bar_spring r]"
  "springs (choice_card t i g w l e act) = []" "springs (nav_item self t l v) = []"
  "springs (theme_button t m) = []" "springs (toggle_pill t en) = []"
  "child_springs (card t) = []" "child_springs (kpi t l s) = []" "child_springs (mode_chip t l) = []" "child_springs (notice_box t l) = []"
  by (simp_all add: block_defs Let_def tree_simps bar_spring_def split: prod.split)

lemma spring_ok_entrance [simp]: "spring_ok (spring_to (Fin 1), f)"
  by (simp add: spring_ok_def spring_to_def)

text \<open>The bars of a page, by candidate.\<close>

abbreviation load_of :: "candidate list \<Rightarrow> candidate \<Rightarrow> f64" where
  "load_of cs c \<equiv> divide (ci_tx_bps c + ci_rx_bps c) (f64_max (max_speed cs) (Fin 1))"

lemma page_springs:
  "springs (render_policy self t) = []"
  "set (springs (render_dashboard self t cs speed)) = {(spring_to (Fin 1), \<lambda>phase. Opacity phase)}
     \<union> (\<lambda>c. bar_spring (divide (ci_tx_bps c + ci_rx_bps c) (f64_max speed (Fin 1)))) ` set (enabled_of cs)"
  "set (springs (render_statistics self t cs speed narrow)) = {(spring_to (Fin 1), \<lambda>phase. Opacity phase)}
     \<union> (\<lambda>c. bar_spring (divide (ci_tx_bps c + ci_rx_bps c) (f64_max speed (Fin 1)))) ` set cs"
  "set (springs (render_interfaces t cs speed)) \<subseteq> {(spring_to (Fin 1), \<lambda>phase. Opacity phase)}
     \<union> (\<lambda>c. bar_spring (divide (ci_tx_bps c) (f64_max speed (Fin 1)))) ` set cs
     \<union> (\<lambda>c. bar_spring (divide (ci_rx_bps c) (f64_max speed (Fin 1)))) ` set cs"
proof -
  show "springs (render_policy self t) = []"
    by (simp add: render_policy_def strategy_card_def algo_card_def Let_def tree_simps)
  show "set (springs (render_dashboard self t cs speed)) = {(spring_to (Fin 1), \<lambda>phase. Opacity phase)}
     \<union> (\<lambda>c. bar_spring (divide (ci_tx_bps c + ci_rx_bps c) (f64_max speed (Fin 1)))) ` set (enabled_of cs)"
    by (auto simp: render_dashboard_def aggregated_bar_def agg_card_def enabled_of_def Let_def tree_simps)
  show "set (springs (render_statistics self t cs speed narrow)) = {(spring_to (Fin 1), \<lambda>phase. Opacity phase)}
     \<union> (\<lambda>c. bar_spring (divide (ci_tx_bps c + ci_rx_bps c) (f64_max speed (Fin 1)))) ` set cs"
    by (auto simp: render_statistics_def stat_row_def Let_def tree_simps)
  show "set (springs (render_interfaces t cs speed)) \<subseteq> {(spring_to (Fin 1), \<lambda>phase. Opacity phase)}
     \<union> (\<lambda>c. bar_spring (divide (ci_tx_bps c) (f64_max speed (Fin 1)))) ` set cs
     \<union> (\<lambda>c. bar_spring (divide (ci_rx_bps c) (f64_max speed (Fin 1)))) ` set cs"
    by (auto simp: render_interfaces_def iface_card_def Let_def tree_simps)
qed

lemma frame_springs: "springs (render_tree width self) = springs (render_page self (app_active_theme self) (width < Fin 720))"
  by (simp add: render_tree_def render_header_def render_content_def sidebar_def nav_row_def nav_items_def Let_def tree_simps
      split: option.split)

lemma page_springs_ok:
  assumes "\<forall>c \<in> set (ag_candidates (w_agg (app_world self))). candidate_ok c"
  shows "\<forall>p \<in> set (springs (render_page self t narrow)). spring_ok p"
proof -
  let ?cs = "ag_candidates (w_agg (app_world self))"
  obtain m where m: "max_speed ?cs = Fin m" "1 \<le> m" using max_speed_eq [OF assms] by blast
  have "spring_ok (bar_spring (load_of ?cs c))" "spring_ok (bar_spring (divide (ci_tx_bps c) (f64_max (max_speed ?cs) (Fin 1))))"
    "spring_ok (bar_spring (divide (ci_rx_bps c) (f64_max (max_speed ?cs) (Fin 1))))" if "c \<in> set ?cs" for c
  proof -
    have c: "candidate_ok c" using assms that by blast
    obtain x y z where "ci_tx_bps c + ci_rx_bps c = Fin x" "ci_tx_bps c = Fin y" "ci_rx_bps c = Fin z"
      using load_finite [OF c] c by (auto simp: load_def candidate_ok_def rate_ok_def split: f64.splits)
    then show "spring_ok (bar_spring (load_of ?cs c))" "spring_ok (bar_spring (divide (ci_tx_bps c) (f64_max (max_speed ?cs) (Fin 1))))"
      "spring_ok (bar_spring (divide (ci_rx_bps c) (f64_max (max_speed ?cs) (Fin 1))))"
      using m(2) by (simp_all only: m(1) bar_spring_ok ratio_number not_False_eq_True)
  qed
  then show ?thesis
    using page_springs(4) [of t ?cs "max_speed ?cs"]
    by (cases "app_tab self") (auto simp: render_page_def page_springs enabled_of_def Let_def)
qed

section \<open>Well-formed trees\<close>

lemma typed_blocks [simp]:
  "typed (bar_fill t i r col)" "sz \<noteq> Overflow_y_scroll \<Longrightarrow> typed (muted t sz s)" "typed (name_label n)" "typed (status_dot t c)" "typed (enable_btn t n en)"
  "typed (small_btn t i l g)" "typed (rate_line t col l i r)" "typed (choice_card t i g w l e act)" "typed (theme_button t m)"
  "typed (toggle_pill t en)"
  by (simp_all add: bar_fill_def muted_def name_label_def status_dot_def enable_btn_def small_btn_def rate_line_def
      choice_card_def theme_button_def toggle_pill_def Let_def stateful_ok_def tree_simps split: prod.split)

lemma typed_nav_item [simp]: "typed (nav_item self t l v)"
  by (simp add: nav_item_def stateful_ok_def tree_simps)

text \<open>A chain of calls without identifier, listener or scrolling, whose children are well-formed.\<close>

definition plain :: "bld \<Rightarrow> bool" where
  "plain d \<longleftrightarrow> list_all (\<lambda>c. case c of Style ss \<Rightarrow> Overflow_y_scroll \<notin> set ss | Hover ss \<Rightarrow> True | Id i \<Rightarrow> False
     | On_click g \<Rightarrow> False | Child e \<Rightarrow> typed e) d"

lemma plain_simps [tree_simps]:
  "plain []" "plain (Style ss # d) \<longleftrightarrow> Overflow_y_scroll \<notin> set ss \<and> plain d" "plain (Child e # d) \<longleftrightarrow> typed e \<and> plain d"
  "plain (d @ d') \<longleftrightarrow> plain d \<and> plain d'" "plain (map (\<lambda>x. Child (h x)) xs) \<longleftrightarrow> (\<forall>x \<in> set xs. typed (h x))"
  by (auto simp: plain_def list_all_iff)

lemma plain_typed:
  assumes "plain d"
  shows "typed (Div d)" "typed (With_spring d i a f)" "typed (Div (Id i # Style ss # d))"
proof -
  have "own_ids d = [] \<and> own_clicks d = [] \<and> list_all call_typed d
      \<and> \<not> list_ex (\<lambda>c. case c of Style ss \<Rightarrow> Overflow_y_scroll \<in> set ss | _ \<Rightarrow> False) d"
    using assms by (induction d) (auto simp: plain_def tree_simps split: call.splits)
  then show "typed (Div d)" "typed (With_spring d i a f)" "typed (Div (Id i # Style ss # d))"
    by (auto simp: stateful_ok_def tree_simps)
qed

lemma plain_blocks [simp]:
  "plain (card t)" "plain (kpi t l s)" "plain (mode_chip t l)" "plain (notice_box t l)" "plain (nav_items self t)"
  "plain (agg_card t speed c)" "plain (iface_card t speed c)" "plain (stat_row t speed narrow c)"
proof -
  show c: "plain (card t)" by (simp add: card_def tree_simps)
  show "plain (kpi t l s)" "plain (mode_chip t l)" "plain (notice_box t l)" "plain (nav_items self t)"
    by (simp_all add: kpi_def mode_chip_def notice_box_def nav_items_def c Let_def plain_typed tree_simps del: typed.simps(2,3))
  show "plain (agg_card t speed c)" "plain (iface_card t speed c)" "plain (stat_row t speed narrow c)"
    by (simp_all add: agg_card_def iface_card_def stat_row_def c Let_def plain_typed tree_simps del: typed.simps(2,3))
qed

lemma typed_page: "typed (render_page self t narrow)"
proof -
  have e: "typed (entrance d i)" if "plain d" for d i using plain_typed(2) [OF that] by (simp add: entrance_def)
  show ?thesis
    by (cases "app_tab self") (simp_all add: render_page_def render_dashboard_def render_interfaces_def render_policy_def
      render_statistics_def aggregated_bar_def strategy_card_def algo_card_def e Let_def plain_typed tree_simps del: typed.simps(2,3))
qed

lemma typed_frame: "typed (render_tree width self)"
proof -
  have bars: "typed (nav_row self t)" "typed (sidebar self t b)" "typed (render_header self t n)" for t b n
    by (simp_all add: nav_row_def sidebar_def render_header_def plain_typed tree_simps del: typed.simps(2,3))
  have c: "typed (render_content self t n)" for t n
    using bars(1) [of t] typed_page [of self t n]
    by (cases "app_banner self") (simp_all add: render_content_def plain_typed tree_simps del: typed.simps(2,3))
  show ?thesis using bars c by (simp add: render_tree_def Let_def plain_typed tree_simps del: typed.simps(2,3))
qed

section \<open>Lookup of a control\<close>

lemma nav_prefix: "''nav-'' @ s = ''nav-'' @ s' \<longleftrightarrow> s = s'"
  by simp

lemma tab_title_inject: "tab_title v = tab_title u \<longleftrightarrow> v = u"
  by (cases v; cases u) simp_all

lemma all_tabs: "v \<in> set tabs"
  by (cases v) (simp_all add: tabs_def)

lemma page_controls_distinct:
  assumes "distinct (map ci_name (ag_candidates (w_agg (app_world self))))"
  shows "distinct (map fst (page_controls self))"
proof -
  let ?g = "\<lambda>n. [''enable-'' @ n, ''pri-plus-'' @ n, ''pri-minus-'' @ n, ''wei-plus-'' @ n, ''wei-minus-'' @ n]"
  have "map fst (concat (map iface_controls cs)) = concat (map (\<lambda>c. ?g (ci_name c)) cs)" for cs
    by (simp add: map_concat comp_def iface_controls_def Let_def)
  moreover have "distinct (concat (map (\<lambda>c. ?g (ci_name c)) (ag_candidates (w_agg (app_world self)))))"
    using assms by (rule distinct_blocks) auto
  moreover have "map fst policy_controls = policy_ids" by (simp add: policy_controls_def policy_ids_def)
  ultimately show ?thesis using policy_ids_distinct by (cases "app_tab self") (simp_all add: page_controls_def)
qed

lemma page_control_names:
  assumes "(i, f) \<in> set (page_controls self)"
  shows "hd i \<in> {CHR ''e'', CHR ''p'', CHR ''w'', CHR ''s'', CHR ''a''}"
  using assms by (cases "app_tab self") (auto simp: page_controls_def iface_controls_def policy_controls_def policy_ids_def Let_def)

lemma nav_control_names: "(i, f) \<in> set (nav_controls self) \<longleftrightarrow> (\<exists>v. v \<noteq> app_tab self \<and> i = ''nav-'' @ tab_title v \<and> f = (\<lambda>app. Some (set_tab v app)))"
  using all_tabs by (auto simp: nav_controls_def)

lemma controls_distinct:
  assumes "distinct (map ci_name (ag_candidates (w_agg (app_world self))))"
  shows "distinct (map fst (controls (render_tree width self)))"
proof -
  have n: "distinct (map fst (nav_controls self))"
    by (auto simp: nav_controls_def tabs_def distinct_map inj_on_def tab_title_inject)
  have p: "distinct (map fst (page_controls self))" by (rule page_controls_distinct [OF assms])
  have "hd i = CHR ''n''" if "i \<in> fst ` set (nav_controls self)" for i using that by (auto simp: nav_control_names)
  moreover have "hd i \<in> {CHR ''e'', CHR ''p'', CHR ''w'', CHR ''s'', CHR ''a''}" if "i \<in> fst ` set (page_controls self)" for i
    using that page_control_names by fastforce
  ultimately have "fst ` set (nav_controls self) \<inter> fst ` set (page_controls self) = {}"
    "''theme'' \<notin> fst ` set (nav_controls self) \<union> fst ` set (page_controls self)"
    "''toggle'' \<notin> fst ` set (nav_controls self) \<union> fst ` set (page_controls self)" by fastforce+
  with n p show ?thesis unfolding frame_controls_eq by (auto simp: theme_control_def toggle_control_def)
qed

lemma control_iff:
  assumes "distinct (map ci_name (ag_candidates (w_agg (app_world self))))"
  shows "map_of (controls (render_tree width self)) i = Some f \<longleftrightarrow>
    (i, f) \<in> set (theme_control # toggle_control # nav_controls self @ page_controls self)"
  using map_of_eq_Some_iff [OF controls_distinct [OF assms, of width]] by (auto simp: frame_controls_eq)

section \<open>Properties\<close>

definition sample_window :: netmux_app where
  "sample_window = sample_app\<lparr>app_tab := Tab_Interfaces,
     app_world := (app_world sample_app)\<lparr>w_agg := inject_sim_candidates sim_links fresh_agg\<rparr>\<rparr>"

lemma sample_window_names:
  "map ci_name (ag_candidates (w_agg (app_world sample_window))) = map fst sim_links"
  by (simp add: sample_window_def inject_sim_candidates_def sim_links_def Let_def)

lemma sample_window_distinct: "distinct (map ci_name (ag_candidates (w_agg (app_world sample_window))))"
  unfolding sample_window_names by (simp add: sim_links_def Let_def)





lemma sample_window_control:
  "(''enable-'' @ fst (hd sim_links), iface_action (Enable (fst (hd sim_links)) False)) \<in> set (controls (render_tree (Fin 800) sample_window))"
  by (simp add: frame_controls_eq page_controls_def iface_controls_def sample_window_def inject_sim_candidates_def sim_links_def Let_def)

text \<open>C21: A click never fails.  A listener of any frame ever rendered, run on any state the application can
  be in by then, returns, and what it does is one step of the application's transition system; so no
  button press panics while it holds the aggregator's lock, even if the candidates it was drawn for are gone.\<close>

theorem clicks_are_steps:
  assumes "(i, f) \<in> set (controls (render_tree width self))"
    and "app_init app0" and "app_step\<^sup>*\<^sup>* app0 app"
  shows "\<exists>app'. f app = Some app' \<and> app_step app app' \<and> app_ok app'"
proof -
  have ok: "app_ok app" by (rule app_sys.reachable_inv [OF assms(2,3)])
  have act: "\<exists>app'. iface_action act app = Some app' \<and> app_step app app'" if "\<bar>action_delta act\<bar> \<le> 1" for act
  proof -
    have "\<bar>action_delta act\<bar> \<le> 2 ^ 30" using that by simp
    then obtain app' where "iface_action act app = Some app'" using iface_action_ok [OF ok] by blast
    with app_ui [OF ui_iface [OF this that]] show ?thesis by blast
  qed
  have "\<exists>app'. f app = Some app' \<and> app_step app app'"
  proof -
    have "(i, f) \<in> set (theme_control # toggle_control # nav_controls self @ page_controls self)"
      using assms(1) by (auto simp: frame_controls_eq split: if_splits)
    then consider "(i, f) = theme_control" | "(i, f) = toggle_control" | v where "f = (\<lambda>app. Some (set_tab v app))"
      | c where "(i, f) \<in> set (iface_controls c)" | "(i, f) \<in> set policy_controls"
      by (auto simp: nav_control_names page_controls_def split: tab.splits)
    then show ?thesis
      by cases (auto simp: theme_control_def toggle_control_def iface_controls_def policy_controls_def policy_ids_def Let_def
          intro: app_ui ui_step.intros act)
  qed
  with app_step_ok [OF ok] show ?thesis by blast
qed

lemma clicks_are_steps_witness:
  "\<exists>app0 app'. app_init app0 \<and> iface_action (Enable (fst (hd sim_links)) False) app0 = Some app' \<and> app_ok app'"
proof -
  obtain app0 lk os' where "app_new (\<lambda>n. []) (easy_kernel []) True [] live_fs 0 [] os0 = (Some (app0, lk), os')"
    by (cases rule: app_new_cases [OF easy_keeps_names [of "[]"], of "[]" True os0 "\<lambda>n. []" live_fs 0 "[]"]) auto
  then have i: "app_init app0" using easy_keeps_names unfolding app_init_def by blast
  from clicks_are_steps [OF sample_window_control i rtranclp.rtrancl_refl] i show ?thesis by blast
qed

text \<open>C25: The animations end where the numbers say.  In every state the application can reach, each
  animation of a frame runs from 0 to a finite value between 0 and 1, although rates can be any float
  the counters give, no link need be moving and no candidate need exist; on the statistics page every
  candidate has a bar that ends at its load ratio, and the bar of the busiest link (if it moves at
  least one byte per second) is full.\<close>

theorem bars_show_load:
  assumes "app_init self0" and "app_step\<^sup>*\<^sup>* self0 self"
  defines "cs \<equiv> ag_candidates (w_agg (app_world self))"
  shows "(\<forall>(a, f) \<in> set (springs (render_tree width self)). sa_from a = Fin 0 \<and> (\<exists>x. sa_to a = Fin x \<and> 0 \<le> x \<and> x \<le> 1))
    \<and> (app_tab self = Tab_Statistics \<longrightarrow> (\<forall>c \<in> set cs. \<exists>a f. (a, f) \<in> set (springs (render_tree width self))
         \<and> f = (\<lambda>phase. Width (Fraction (f64_max phase (Fin 0)))) \<and> sa_to a = as_f32 (load_ratio cs c)
         \<and> (load c = max_speed cs \<longrightarrow> sa_to a = Fin 1)))"
proof -
  have "app_ok self" by (rule app_sys.reachable_inv [OF assms(1,2)])
  then have ok: "\<forall>c \<in> set cs. candidate_ok c" by (simp add: app_ok_def agg_ok_def cs_def)
  have "\<forall>p \<in> set (springs (render_tree width self)). spring_ok p"
    unfolding frame_springs by (rule page_springs_ok) (use ok in \<open>simp add: cs_def\<close>)
  then have "\<forall>(a, f) \<in> set (springs (render_tree width self)). sa_from a = Fin 0 \<and> (\<exists>x. sa_to a = Fin x \<and> 0 \<le> x \<and> x \<le> 1)"
    by (auto simp: spring_ok_def)
  moreover have "\<exists>a f. (a, f) \<in> set (springs (render_tree width self)) \<and> f = (\<lambda>phase. Width (Fraction (f64_max phase (Fin 0))))
      \<and> sa_to a = as_f32 (load_ratio cs c) \<and> (load c = max_speed cs \<longrightarrow> sa_to a = Fin 1)"
    if t: "app_tab self = Tab_Statistics" and c: "c \<in> set cs" for c
  proof -
    have "springs (render_tree width self) = springs (render_statistics self (app_active_theme self) cs (max_speed cs) (width < Fin 720))"
      by (simp add: frame_springs render_page_def t cs_def Let_def)
    then have "bar_spring (load_of cs c) \<in> set (springs (render_tree width self))"
      using c by (simp only: page_springs(3)) blast
    moreover have "bar_spring (load_of cs c) = (spring_to (as_f32 (load_ratio cs c)), \<lambda>phase. Width (Fraction (f64_max phase (Fin 0))))"
      by (simp add: bar_spring_def load_ratio_def)
    moreover have "as_f32 (load_ratio cs c) = Fin 1" if "load c = max_speed cs"
    proof -
      obtain m where m: "max_speed cs = Fin m" "1 \<le> m" using max_speed_eq [OF ok] by blast
      have "load_of cs c = Fin 1"
        using that m round64_nat [of 1] by (simp add: load_def)
      then show ?thesis using as_f32_one by (simp add: load_ratio_def clamp01_def)
    qed
    ultimately show ?thesis by (intro exI conjI) (auto simp: spring_to_def)
  qed
  ultimately show ?thesis by blast
qed

lemma bars_show_load_witness:
  "\<exists>self0. app_init self0 \<and> (\<forall>(a, f) \<in> set (springs (render_tree (Fin 800) (set_tab Tab_Statistics self0))). sa_from a = Fin 0)"
proof -
  obtain app0 lk os' where "app_new (\<lambda>n. []) (easy_kernel []) True [] live_fs 0 [] os0 = (Some (app0, lk), os')"
    by (cases rule: app_new_cases [OF easy_keeps_names [of "[]"], of "[]" True os0 "\<lambda>n. []" live_fs 0 "[]"]) auto
  then have i: "app_init app0" using easy_keeps_names unfolding app_init_def by blast
  have "app_step\<^sup>*\<^sup>* app0 (set_tab Tab_Statistics app0)" by (rule r_into_rtranclp [of app_step, OF app_ui [OF ui_select_tab]])
  from bars_show_load [OF i this, of "Fin 800"] i show ?thesis by (intro exI [of _ app0]) auto
qed

section \<open>Where the pages mislead\<close>

text \<open>The interface page writes to the configuration and reads the candidates: priority buttons change no
  row, now or after any refresh.\<close>

lemma priority_button_invisible:
  assumes "iface_action (Priority n d) self = Some self'"
  shows "map (\<lambda>c. pol_priority (ci_policy c)) (ag_candidates (refresh_candidates fs (w_agg (app_world self'))))
       = map (\<lambda>c. pol_priority (ci_policy c)) (ag_candidates (refresh_candidates fs (w_agg (app_world self))))"
  using assms
  by (auto simp: iface_action_def upd_config_def refresh_candidates_def candidate_of_def with_priority_def Let_def comp_def)

text \<open>The same direction has a downward arrow on the interface page and an upward one on the statistics page.\<close>

lemma tx_arrows_disagree:
  "cs \<noteq> [] \<Longrightarrow> utf8 [0x2193] @ '' TX'' \<in> set (texts (render_interfaces t cs speed))"
  "utf8 [0x2191] @ '' TX '' @ fmt_bps (total_tx cs) \<in> set (texts (render_statistics self t cs speed narrow))"
  by (auto simp: block_defs Let_def neq_Nil_conv)

end
