(* ===== verification/Logging.thy ===== *)
theory Logging
  imports Errors
begin

text \<open>
  \<open>logging.rs\<close>: the writer that fans a log event out to several writers, and \<open>init\<close> up to the calls of
  the tracing library.  A target is any \<open>Write\<close> object: its behaviour is the parameter \<open>put\<close> (\<open>write_all\<close>)
  or \<open>flush\<close>, from its state to an outcome and the state after.  The library functions \<open>init\<close> calls are
  parameters too.
\<close>

type_synonym 't put = "'t \<Rightarrow> bytes \<Rightarrow> (io_error + unit) \<times> 't"

text \<open>The targets behind the mutex, and whether a panic has poisoned it.\<close>

record 't rolling =
  rl_targets :: "'t list"
  rl_poisoned :: bool

definition make_writer :: "'t rolling \<Rightarrow> 't rolling" where
  "make_writer self = self"

definition rolling_write :: "'t put \<Rightarrow> bytes \<Rightarrow> 't rolling \<Rightarrow> (io_error + nat) \<times> 't rolling" where
  "rolling_write put buf self =
     (let self = (if rl_poisoned self then self
                  else self\<lparr>rl_targets := map (\<lambda>w. snd (put w buf)) (rl_targets self)\<rparr>)
      in (Inr (length buf), self))"

definition rolling_flush :: "('t \<Rightarrow> (io_error + unit) \<times> 't) \<Rightarrow> 't rolling \<Rightarrow> (io_error + unit) \<times> 't rolling" where
  "rolling_flush fl self =
     (let self = (if rl_poisoned self then self
                  else self\<lparr>rl_targets := map (\<lambda>w. snd (fl w)) (rl_targets self)\<rparr>)
      in (Inr (), self))"

text \<open>\<open>try_new\<close>, \<open>create_dir_all\<close>, the rolling appender and \<open>try_init\<close> are outside the sources.\<close>

definition log_init ::
    "(string \<Rightarrow> string + 'f) \<Rightarrow> (string \<Rightarrow> string + unit) \<Rightarrow> 't \<Rightarrow> (string \<Rightarrow> string \<Rightarrow> 't) \<Rightarrow>
     ('f \<Rightarrow> 't rolling \<Rightarrow> string + unit) \<Rightarrow> string \<Rightarrow> string option \<Rightarrow> string \<Rightarrow> string + unit" where
  "log_init try_new create_dir_all stderr daily try_init app_name log_dir level =
     (case (case try_new level of Inr f \<Rightarrow> Inr f | Inl e \<Rightarrow> try_new ''info'') of
        Inl e \<Rightarrow> Inl e
      | Inr f \<Rightarrow>
          (case log_dir of
             None \<Rightarrow> try_init f \<lparr>rl_targets = [stderr], rl_poisoned = False\<rparr>
           | Some d \<Rightarrow>
               (case create_dir_all d of
                  Inl e \<Rightarrow> Inl (''cannot create log dir: '' @ e)
                | Inr u \<Rightarrow> try_init f \<lparr>rl_targets = [stderr, daily d (app_name @ ''.log'')], rl_poisoned = False\<rparr>)))"

section \<open>Laws\<close>

definition rolling_writes :: "'t put \<Rightarrow> bytes list \<Rightarrow> 't rolling \<Rightarrow> 't rolling" where
  "rolling_writes put es self = fold (\<lambda>e r. snd (rolling_write put e r)) es self"

text \<open>Every event reaches every target in order, whatever the other targets answer, and no error of a
  target reaches the caller.\<close>

lemma rolling_writes_independent:
  "\<not> rl_poisoned self \<Longrightarrow>
   rolling_writes put es self = self\<lparr>rl_targets := map (\<lambda>w. fold (\<lambda>e w. snd (put w e)) es w) (rl_targets self)\<rparr>"
  unfolding rolling_writes_def
  by (induction es arbitrary: self) (simp_all add: rolling_write_def Let_def comp_def)

lemma rolling_write_ok: "fst (rolling_write put buf self) = Inr (length buf)"
  by (simp add: rolling_write_def Let_def)

lemma log_init_bad_level:
  "try_new level = Inl e \<Longrightarrow> try_new ''info'' = Inr f \<Longrightarrow>
   log_init try_new mk err daily ini app dir level = log_init try_new mk err daily ini app dir ''info''"
  by (simp add: log_init_def)

end
