(* ===== verification/Entry.thy ===== *)
theory Entry
  imports Pages Logging
begin

text \<open>
  \<open>main\<close> of \<open>main.rs\<close>: logging, the construction of the view, and the loop that ticks and redraws it
  every 250 ms.  The window and the timer are calls into the GPUI library: \<open>timer_loop\<close> is given what
  each iteration reads (\<open>/sys/class/net\<close> and the clock, twice, as \<open>app_tick\<close> does) and what the window
  reports when the frame is drawn.
\<close>

text \<open>The name exported by the crate root; \<open>main\<close> writes its own for the log.\<close>

definition APP_NAME :: string where
  "APP_NAME = ''NetMux''"

record tick_input =
  ti_fs :: sysfs
  ti_now :: nat
  ti_fs' :: sysfs
  ti_later :: nat
  ti_dark :: bool
  ti_width :: f32

text \<open>The log level and the name of the log file are fixed; a failure is only printed.  \<open>init\<close> is the
  function of \<open>Logging\<close> with its library parameters.\<close>

definition main_log :: "(string \<Rightarrow> string option \<Rightarrow> string \<Rightarrow> string + unit) \<Rightarrow> string option \<Rightarrow> string list" where
  "main_log init xdg_state_home =
     (case init ''netmux'' (Some (log_dir xdg_state_home)) ''info'' of
        Inl e \<Rightarrow> [''logging init warning: '' @ e]
      | Inr u \<Rightarrow> [])"

text \<open>\<open>view.tick(); view_cx.notify()\<close>, and the frame drawn for the notification.\<close>

fun timer_loop :: "tick_input list \<Rightarrow> netmux_app \<Rightarrow> (el list \<times> netmux_app) rust" where
  "timer_loop [] view = Some ([], view)"
| "timer_loop (i # is) view = do {
     view \<leftarrow> app_tick (ti_fs i) (ti_now i) (ti_fs' i) (ti_later i) view;
     let (frame, view) = render (ti_dark i) (ti_width i) view
     in do {
       (frames, view) \<leftarrow> timer_loop is view;
       Some (frame # frames, view) } }"

definition program ::
    "(string \<Rightarrow> string option \<Rightarrow> string \<Rightarrow> string + unit) \<Rightarrow> string option \<Rightarrow> (nat \<Rightarrow> string) \<Rightarrow> kernel \<Rightarrow> bool \<Rightarrow>
     string list \<Rightarrow> sysfs \<Rightarrow> nat \<Rightarrow> (string \<times> ip_addr) list \<Rightarrow> tick_input list \<Rightarrow> os \<Rightarrow>
     string list \<times> (el list \<times> netmux_app) rust \<times> os" where
  "program init xdg_state_home strerror k le args fs now ifas is os =
     (let stderr = main_log init xdg_state_home; (app, os) = app_new strerror k le args fs now ifas os
      in (stderr, do { (view, lk) \<leftarrow> app; timer_loop is view }, os))"

lemma timer_loop_ok:
  assumes "app_ok view"
  shows "\<exists>frames view'. timer_loop is view = Some (frames, view') \<and> app_step\<^sup>*\<^sup>* view view' \<and> length frames = length is
    \<and> (\<forall>e \<in> set frames. typed e)"
  using assms
proof (induction "is" arbitrary: view)
  case (Cons i "is")
  obtain v1 where v1: "app_tick (ti_fs i) (ti_now i) (ti_fs' i) (ti_later i) view = Some v1"
    using app_tick_ok [OF Cons.prems] by blast
  define v2 where "v2 = render_palette (ti_dark i) v1"
  have s: "app_step view v1" "app_step v1 v2" unfolding v2_def by (rule app_ui [OF ui_ticked [OF v1]]) (rule app_ui [OF ui_render])
  have "app_ok v2" using s app_step_ok Cons.prems by blast
  from Cons.IH [OF this] obtain frames view' where ih: "timer_loop is v2 = Some (frames, view')" "app_step\<^sup>*\<^sup>* v2 view'"
    "length frames = length is" "\<forall>e \<in> set frames. typed e" by blast
  have "timer_loop (i # is) view = Some (render_tree (ti_width i) v2 # frames, view')"
    using v1 ih(1) by (simp add: render_def v2_def Let_def)
  moreover have "app_step\<^sup>*\<^sup>* view view'" using s ih(2) by (meson converse_rtranclp_into_rtranclp)
  ultimately show ?case using ih(3,4) typed_frame
    by (intro exI [of _ "render_tree (ti_width i) v2 # frames"] exI [of _ view']) (simp del: timer_loop.simps)
qed simp



end
