(* ===== verification/Locks.thy ===== *)
theory Locks
  imports App
begin

text \<open>
  The mutexes of \<open>main.rs\<close>: the one of the aggregator, the one of the NAT table and the one of the log
  writer.  A section of code is the list of its lock operations in program order; a guard is released at the
  end of the block or statement that binds it.  \<open>lk_step\<close> interleaves the threads operation by operation.
  \<open>Data_Plane\<close> treats what a guard protects as one step; this theory shows that the threads always get
  that far: locks are taken in one order, so no interleaving deadlocks.
\<close>

section \<open>The sections of code\<close>

datatype lock = Aggregator_lock | Nat_lock | Log_lock

instantiation lock :: linorder
begin

fun lock_rank :: "lock \<Rightarrow> nat" where
  "lock_rank Aggregator_lock = 0"
| "lock_rank Nat_lock = 1"
| "lock_rank Log_lock = 2"

definition less_eq_lock :: "lock \<Rightarrow> lock \<Rightarrow> bool" where
  "less_eq_lock a b \<longleftrightarrow> lock_rank a \<le> lock_rank b"

definition less_lock :: "lock \<Rightarrow> lock \<Rightarrow> bool" where
  "less_lock a b \<longleftrightarrow> lock_rank a < lock_rank b"

instance
proof
  show "a = b" if "a \<le> b" "b \<le> a" for a b :: lock
    using that by (cases a; cases b) (simp_all add: less_eq_lock_def)
qed (auto simp: less_eq_lock_def less_lock_def)

end

datatype lock_op = Acquire lock | Release lock

definition guarded :: "lock \<Rightarrow> lock_op list \<Rightarrow> lock_op list" where
  "guarded l body = Acquire l # body @ [Release l]"

text \<open>A log event locks the list of writers while it writes.\<close>

definition log_locks :: "lock_op list" where
  "log_locks = guarded Log_lock []"

text \<open>One iteration of the egress loop: whether the packet parses, gets a link and is lost in the socket.\<close>

definition egress_locks :: "bool \<Rightarrow> bool \<Rightarrow> bool \<Rightarrow> lock_op list" where
  "egress_locks parsed picked send_failed =
     (if \<not> parsed then []
      else guarded Aggregator_lock [] @
        (if \<not> picked then [] else guarded Nat_lock [] @ (if send_failed then log_locks else [])))"

definition capture_locks :: "bool \<Rightarrow> bool \<Rightarrow> bool \<Rightarrow> lock_op list" where
  "capture_locks recv_failed parsed write_failed =
     (if recv_failed then log_locks
      else if \<not> parsed then []
      else guarded Nat_lock [] @ (if write_failed then log_locks else []))"

text \<open>The tick keeps the aggregator to its end; the summary asks the NAT table and writes to the log under it.\<close>

definition tick_locks :: "bool \<Rightarrow> lock_op list" where
  "tick_locks summary = guarded Aggregator_lock (if summary then guarded Nat_lock [] @ log_locks else [])"

text \<open>Construction, before any other thread runs: the first refresh, and the candidates for the data plane.\<close>

definition startup_locks :: "bool \<Rightarrow> lock_op list" where
  "startup_locks tunnelling = guarded Aggregator_lock [] @ (if tunnelling then guarded Aggregator_lock [] else [])"

definition handler_locks :: "lock_op list" where
  "handler_locks = guarded Aggregator_lock []"

definition render_locks :: "tab \<Rightarrow> lock_op list" where
  "render_locks t = guarded Aggregator_lock [] @
     (case t of Tab_Policy \<Rightarrow> guarded Aggregator_lock [] | Tab_Statistics \<Rightarrow> guarded Aggregator_lock [] | _ \<Rightarrow> [])"

section \<open>Threads and locks\<close>

datatype thread = Egress_thread | Capture_thread string | Ui_thread

inductive section_of :: "thread \<Rightarrow> lock_op list \<Rightarrow> bool" where
  "section_of Egress_thread (egress_locks a b c)"
| "section_of (Capture_thread i) (capture_locks a b c)"
| "section_of Ui_thread (tick_locks s)"
| "section_of Ui_thread (startup_locks b)"
| "section_of Ui_thread handler_locks"
| "section_of Ui_thread (render_locks t)"
| "section_of th log_locks"

type_synonym lock_state = "(lock \<Rightarrow> thread option) \<times> (thread \<Rightarrow> lock_op list)"

inductive advance :: "lock_state \<Rightarrow> lock_state \<Rightarrow> bool" where
  acquire: "todo i = Acquire l # r \<Longrightarrow> held l = None \<Longrightarrow> advance (held, todo) (held(l \<mapsto> i), todo(i := r))"
| release: "todo i = Release l # r \<Longrightarrow> held l = Some i \<Longrightarrow> advance (held, todo) (held(l := None), todo(i := r))"

inductive lk_step :: "lock_state \<Rightarrow> lock_state \<Rightarrow> bool" where
  lk_advance: "advance s s' \<Longrightarrow> lk_step s s'"
| lk_enter: "todo i = [] \<Longrightarrow> section_of i ops \<Longrightarrow> lk_step (held, todo) (held, todo(i := ops))"

definition lk_init :: lock_state where
  "lk_init = (Map.empty, \<lambda>i. [])"

section \<open>Locks are taken in order\<close>

fun ordered :: "lock set \<Rightarrow> lock_op list \<Rightarrow> bool" where
  "ordered H [] \<longleftrightarrow> H = {}"
| "ordered H (Acquire l # r) \<longleftrightarrow> (\<forall>h \<in> H. h < l) \<and> ordered (insert l H) r"
| "ordered H (Release l # r) \<longleftrightarrow> l \<in> H \<and> ordered (H - {l}) r"

definition mine :: "(lock \<Rightarrow> thread option) \<Rightarrow> thread \<Rightarrow> lock set" where
  "mine held i = {l. held l = Some i}"

definition lk_inv :: "lock_state \<Rightarrow> bool" where
  "lk_inv = (\<lambda>(held, todo). (\<forall>i. ordered (mine held i) (todo i)) \<and> finite {i. todo i \<noteq> []})"

lemma sections_ordered: "section_of i ops \<Longrightarrow> ordered {} ops"
  by (erule section_of.cases)
    (auto simp: egress_locks_def capture_locks_def tick_locks_def startup_locks_def handler_locks_def render_locks_def log_locks_def guarded_def
      less_lock_def split: tab.split)

lemma advance_inv:
  assumes "lk_inv s" "advance s s'"
  shows "lk_inv s'"
  using assms(2)
proof cases
  case (acquire todo i l r held)
  have o: "ordered (mine held j) (todo j)" for j using assms(1) acquire(1) by (simp add: lk_inv_def)
  have "mine (held(l \<mapsto> i)) j = (if j = i then insert l (mine held j) else mine held j)" for j
    using acquire(4) by (auto simp: mine_def)
  then have "ordered (mine (held(l \<mapsto> i)) j) ((todo(i := r)) j)" for j
    using o [of j] acquire(3) by (cases "j = i") auto
  moreover have "finite {j. (todo(i := r)) j \<noteq> []}"
    by (rule finite_subset [of _ "{j. todo j \<noteq> []}"]) (use assms(1) acquire(1,3) in \<open>auto simp: lk_inv_def\<close>)
  ultimately show ?thesis using acquire(2) by (simp add: lk_inv_def)
next
  case (release todo i l r held)
  have o: "ordered (mine held j) (todo j)" for j using assms(1) release(1) by (simp add: lk_inv_def)
  have "mine (held(l := None)) j = (if j = i then mine held j - {l} else mine held j)" for j
    using release(4) by (auto simp: mine_def)
  then have "ordered (mine (held(l := None)) j) ((todo(i := r)) j)" for j
    using o [of j] release(3) by (cases "j = i") auto
  moreover have "finite {j. (todo(i := r)) j \<noteq> []}"
    by (rule finite_subset [of _ "{j. todo j \<noteq> []}"]) (use assms(1) release(1,3) in \<open>auto simp: lk_inv_def\<close>)
  ultimately show ?thesis using release(2) by (simp add: lk_inv_def)
qed

lemma lk_step_inv:
  assumes "lk_inv s" "lk_step s s'"
  shows "lk_inv s'"
  using assms(2)
proof cases
  case lk_advance
  then show ?thesis using advance_inv assms(1) by blast
next
  case (lk_enter todo i ops held)
  have "mine held i = {}" using assms(1) lk_enter(1,3) by (auto simp: lk_inv_def dest: spec [of _ i])
  moreover have "finite {j. (todo(i := ops)) j \<noteq> []}"
    by (rule finite_subset [of _ "insert i {j. todo j \<noteq> []}"]) (use assms(1) lk_enter(1) in \<open>auto simp: lk_inv_def\<close>)
  ultimately show ?thesis using assms(1) lk_enter sections_ordered by (auto simp: lk_inv_def)
qed

interpretation lk_sys: invariant_system "\<lambda>s. s = lk_init" lk_step lk_inv
  by unfold_locales (simp add: lk_init_def lk_inv_def mine_def, fact lk_step_inv)

section \<open>Progress\<close>

text \<open>The holder of the highest lock held can always go on.\<close>

lemma some_thread_advances:
  assumes inv: "lk_inv (held, todo)" and busy: "todo i \<noteq> []"
  shows "\<exists>s'. advance (held, todo) s'"
proof -
  have o: "ordered (mine held j) (todo j)" for j using inv by (simp add: lk_inv_def)
  have fin: "finite {l. held l \<noteq> None}"
  proof (rule finite_subset)
    show "{l. held l \<noteq> None} \<subseteq> {Aggregator_lock, Nat_lock, Log_lock}" using lock.exhaust by blast
  qed simp
  have go: "\<exists>s'. advance (held, todo) s'" if "todo j \<noteq> []" and free: "\<And>l r. todo j = Acquire l # r \<Longrightarrow> held l = None" for j
  proof (cases "todo j")
    case (Cons op r)
    show ?thesis
    proof (cases op)
      case (Acquire l)
      with Cons have t: "todo j = Acquire l # r" by simp
      show ?thesis using acquire [where todo = todo and i = j and held = held, OF t free [OF t]] by blast
    next
      case (Release l)
      with Cons have t: "todo j = Release l # r" by simp
      then have "held l = Some j" using o [of j] by (simp add: mine_def)
      from release [where todo = todo and i = j and held = held, OF t this] show ?thesis by blast
    qed
  qed (use that in simp)
  show ?thesis
  proof (cases "{l. held l \<noteq> None} = {}")
    case True
    then show ?thesis using go [OF busy] by auto
  next
    case False
    define m where "m = Max {l. held l \<noteq> None}"
    have "m \<in> {l. held l \<noteq> None}" unfolding m_def by (rule Max_in [OF fin False])
    then obtain j where j: "held m = Some j" by auto
    have top: "l \<le> m" if "held l \<noteq> None" for l unfolding m_def using that fin by simp
    have "todo j \<noteq> []" using o [of j] j by (auto simp: mine_def)
    then show ?thesis
    proof (rule go)
      fix l r
      assume "todo j = Acquire l # r"
      then have "m < l" using o [of j] j by (simp add: mine_def)
      then show "held l = None" using top [of l] by (meson leD)
    qed
  qed
qed

lemma todo_drains:
  assumes "lk_inv s" and "finite B" and "\<forall>i. i \<notin> B \<longrightarrow> snd s i = []"
  shows "\<exists>s'. advance\<^sup>*\<^sup>* s s' \<and> (\<forall>i. snd s' i = [])"
  using assms
proof (induction "\<Sum>i \<in> B. length (snd s i)" arbitrary: s rule: less_induct)
  case less
  obtain held todo where s: "s = (held, todo)" by (cases s)
  show ?case
  proof (cases "\<forall>i. todo i = []")
    case False
    then obtain i s1 where "todo i \<noteq> []" and st: "advance s s1"
      using some_thread_advances less.prems(1) s by blast
    from st obtain j op r where j: "todo j = op # r" "snd s1 = todo(j := r)" using s by cases auto
    then have B: "j \<in> B" using less.prems(3) s by auto
    have "(\<Sum>i \<in> B. length (snd s1 i)) < (\<Sum>i \<in> B. length (snd s i))"
      by (rule sum_strict_mono_ex1 [OF less.prems(2)]) (use j B s in \<open>auto intro: bexI [of _ j]\<close>)
    moreover have "\<forall>i. i \<notin> B \<longrightarrow> snd s1 i = []" using less.prems(3) j(2) B s by auto
    ultimately obtain s' where "advance\<^sup>*\<^sup>* s1 s'" "\<forall>i. snd s' i = []"
      using less.hyps [OF _ advance_inv [OF less.prems(1) st] less.prems(2)] by blast
    then show ?thesis using st by (meson converse_rtranclp_into_rtranclp)
  qed (use s in auto)
qed

section \<open>Property\<close>

text \<open>C16: No deadlock.  In every state the threads can reach, whichever sections of code they are in and however
  their lock operations interleave, the pending operations can all be carried out, without any thread
  entering a new section, until every thread is out of its section and every mutex is free; and no
  thread is ever about to lock a mutex it holds already, on which it would hang by itself.\<close>

theorem locks_never_deadlock:
  assumes "lk_step\<^sup>*\<^sup>* lk_init (held, todo)"
  shows "(\<exists>todo'. advance\<^sup>*\<^sup>* (held, todo) (Map.empty, todo') \<and> (\<forall>i. todo' i = []))
    \<and> (\<forall>i l r. todo i = Acquire l # r \<longrightarrow> held l \<noteq> Some i)"
proof -
  have inv: "lk_inv (held, todo)" by (rule lk_sys.reachable_inv [OF refl assms])
  then have "finite {i. todo i \<noteq> []}" by (simp add: lk_inv_def)
  from todo_drains [OF inv this] obtain held' todo' where d: "advance\<^sup>*\<^sup>* (held, todo) (held', todo')" "\<forall>i. todo' i = []" by auto
  have "lk_inv (held', todo')" using d(1) inv by (induction rule: rtranclp_induct) (auto intro: advance_inv)
  then have "mine held' i = {}" for i using d(2) by (simp add: lk_inv_def)
  then have "held' l \<noteq> Some i" for l i by (auto simp: mine_def)
  then have "held' = Map.empty" by (intro ext) (metis option.exhaust)
  moreover have "held l \<noteq> Some i" if "todo i = Acquire l # r" for i l r
  proof -
    have "ordered (mine held i) (todo i)" using inv by (simp add: lk_inv_def)
    with that show ?thesis by (auto simp: mine_def)
  qed
  ultimately show ?thesis using d by blast
qed

lemma locks_never_deadlock_witness:
  "\<exists>todo'. advance\<^sup>*\<^sup>* ([Aggregator_lock \<mapsto> Ui_thread], (\<lambda>i. [])(Ui_thread := tl (tick_locks True))) (Map.empty, todo')"
proof -
  have "lk_step lk_init (Map.empty, (\<lambda>i. [])(Ui_thread := tick_locks True))"
    unfolding lk_init_def by (rule lk_enter) (simp_all add: section_of.intros)
  moreover have "lk_step (Map.empty, (\<lambda>i. [])(Ui_thread := tick_locks True))
      ([Aggregator_lock \<mapsto> Ui_thread], (\<lambda>i. [])(Ui_thread := tl (tick_locks True)))"
    using acquire [of "(\<lambda>i. [])(Ui_thread := tick_locks True)" Ui_thread Aggregator_lock "tl (tick_locks True)" Map.empty]
    by (intro lk_advance) (simp add: tick_locks_def guarded_def)
  ultimately have "lk_step\<^sup>*\<^sup>* lk_init ([Aggregator_lock \<mapsto> Ui_thread], (\<lambda>i. [])(Ui_thread := tl (tick_locks True)))"
    by (meson r_into_rtranclp rtranclp.rtrancl_into_rtrancl)
  from locks_never_deadlock [OF this] show ?thesis by blast
qed

end
