(* ===== verification/Unit_Tests.thy ===== *)
theory Unit_Tests
  imports Startup Gateway
begin

text \<open>
  The unit tests of the crate, on the model: each \<open>#[test]\<close> function is a boolean that is true when it
  returns, that is when no call panics, every \<open>unwrap\<close> succeeds and every assertion holds.  They are the
  repository's own examples, so they check the definitions of the development.
\<close>

section \<open>\<open>packet.rs\<close>\<close>

definition parses_ipv4_tcp :: bool where
  "parses_ipv4_tcp =
     (let p = (replicate 20 0)[0 := 0x45, 9 := 6];
          p = blit 12 [10, 0, 0, 1] p; p = blit 16 [8, 8, 8, 8] p;
          p = p @ to_be16 0x1f90; p = p @ to_be16 0x01bb
      in case parse p of
           Some (Some f) \<Rightarrow> fl_src f = ''10.0.0.1'' \<and> fl_dst f = ''8.8.8.8'' \<and> fl_sport f = 8080 \<and> fl_dport f = 443
             \<and> flow_key f = ''10.0.0.1:8080->8.8.8.8:443''
         | _ \<Rightarrow> False)"

definition parses_ipv4_icmp_no_ports :: bool where
  "parses_ipv4_icmp_no_ports =
     (let p = (replicate 20 0)[0 := 0x45, 9 := 1]
      in case parse p of Some (Some f) \<Rightarrow> fl_sport f = 0 \<and> fl_dport f = 0 | _ \<Rightarrow> False)"

definition rejects_too_short :: bool where
  "rejects_too_short = (parse [0] = Some None)"

definition checksum_known_vector :: bool where
  "checksum_known_vector =
     (checksum [0x45, 0x00, 0x00, 0x73, 0x00, 0x00, 0x40, 0x00, 0x40, 0x11, 0x00, 0x00, 0xc0, 0xa8,
        0x00, 0x01, 0xc0, 0xa8, 0x00, 0xc7] = 0xb861)"

definition transport_checksum_matches :: bool where
  "transport_checksum_matches =
     (let src = [10, 0, 0, 1]; dst = [8, 8, 8, 8]; l4 = replicate 8 0;
          buf = blit 4 dst (blit 0 src (replicate 20 0)); buf = blit 10 (to_be16 8) (buf[9 := 17])
      in transport_checksum src dst 17 l4 = checksum buf)"

definition source_rewrite_fixes_checksums :: bool where
  "source_rewrite_fixes_checksums =
     (let pkt = (replicate 40 0)[0 := 0x45, 9 := 6];
          pkt = blit 16 [8, 8, 8, 8] (blit 12 [10, 99, 0, 1] pkt);
          pkt = blit 22 (to_be16 0x01bb) (blit 20 (to_be16 0x1234) pkt);
          pre = checksum (take 20 pkt); pkt = blit 10 (to_be16 pre) pkt
      in case rewrite_ipv4_source pkt (Ipv4 192 168 31 49) of
           Some (pkt, True) \<Rightarrow> take 4 (drop 12 pkt) = [192, 168, 31, 49]
             \<and> checksum (take 20 (pkt[10 := 0, 11 := 0])) = be16 (pkt ! 10) (pkt ! 11)
         | _ \<Rightarrow> False)"

section \<open>\<open>policy.rs\<close>\<close>

definition test_iface :: "string \<Rightarrow> u32 \<Rightarrow> u32 \<Rightarrow> f64 \<Rightarrow> candidate" where
  "test_iface name prio weight tx =
     \<lparr>ci_name = name, ci_kind = Ethernet, ci_policy = \<lparr>pol_priority = prio, pol_weight = weight, pol_enabled = True\<rparr>,
      ci_tx_bps = tx, ci_rx_bps = Fin 0, ci_healthy = True\<rparr>"

definition failover_picks_highest_priority :: bool where
  "failover_picks_highest_priority =
     (let cfg = default_config\<lparr>cfg_strategy := Failover\<rparr>;
          pool = [test_iface ''wlan0'' 5 1 (Fin 0), test_iface ''eth0'' 20 1 (Fin 0)];
          (pick, rr) = select_interface cfg pool ''x'' 0;
          down = pool[1 := (pool ! 1)\<lparr>ci_healthy := False\<rparr>];
          (pick', rr) = select_interface cfg down ''x'' rr
      in pick = Some ''eth0'' \<and> pick' = Some ''wlan0'')"

definition hash_keeps_flow_stable :: bool where
  "hash_keeps_flow_stable =
     (let cfg = default_config\<lparr>cfg_strategy := LoadBalance, cfg_algorithm := Hash\<rparr>;
          pool = [test_iface ''eth0'' 10 1 (Fin 0), test_iface ''wlan0'' 10 1 (Fin 0)];
          (a, rr) = select_interface cfg pool ''1.1.1.1:5000->8.8.8.8:443'' 0;
          (b, rr) = select_interface cfg pool ''1.1.1.1:5000->8.8.8.8:443'' rr
      in a \<noteq> None \<and> a = b \<and> (a = Some ''eth0'' \<or> a = Some ''wlan0''))"

definition disabled_interfaces_are_skipped :: bool where
  "disabled_interfaces_are_skipped =
     (let eth = test_iface ''eth0'' 10 1 (Fin 0); eth = eth\<lparr>ci_policy := (ci_policy eth)\<lparr>pol_enabled := False\<rparr>\<rparr>
      in fst (select_interface default_config [eth, test_iface ''wlan0'' 10 1 (Fin 0)] ''x'' 0) = Some ''wlan0'')"

definition empty_pool_returns_none :: bool where
  "empty_pool_returns_none =
     (fst (select_interface default_config [(test_iface ''eth0'' 10 1 (Fin 0))\<lparr>ci_healthy := False\<rparr>] ''x'' 0) = None)"

section \<open>\<open>aggregator.rs\<close>, over any directory\<close>

definition simulation_routes_packets :: "sysfs \<Rightarrow> nat \<Rightarrow> bool" where
  "simulation_routes_packets fs now =
     (case aggregator_new default_config Simulation now of
        Inl e \<Rightarrow> False
      | Inr agg \<Rightarrow> (case next_packet 128 default_generator of
            None \<Rightarrow> False
          | Some (pkt, gen) \<Rightarrow> route pkt (refresh_candidates fs agg) \<noteq> None))"

definition disabled_aggregator_drops :: "sysfs \<Rightarrow> nat \<Rightarrow> bool" where
  "disabled_aggregator_drops fs now =
     (case aggregator_new (default_config\<lparr>cfg_enabled := False\<rparr>) Simulation now of
        Inl e \<Rightarrow> False
      | Inr agg \<Rightarrow> (case next_packet 64 default_generator of
            None \<Rightarrow> False
          | Some (pkt, gen) \<Rightarrow> map_option fst (route pkt (refresh_candidates fs agg)) = Some None))"

section \<open>\<open>nat.rs\<close>\<close>

definition test_flow :: "u8 \<Rightarrow> string \<Rightarrow> u16 \<Rightarrow> string \<Rightarrow> u16 \<Rightarrow> flow" where
  "test_flow proto client sport server dport =
     \<lparr>fl_src = client, fl_dst = server, fl_proto = proto, fl_sport = sport, fl_dport = dport\<rparr>"

definition registers_and_roundtrips :: bool where
  "registers_and_roundtrips =
     (let f = test_flow 6 ''10.99.0.1'' 12345 ''8.8.8.8'' 443
      in case register f ''wlan0'' (Ipv4 192 168 31 49) nat_new of
           (None, t) \<Rightarrow> False
         | (Some s, t) \<Rightarrow> ses_egress_iface s = ''wlan0'' \<and> sessions t = 1
             \<and> (case lookup_return 6 (Ipv4 8 8 8 8) 443 (Ipv4 192 168 31 49) 12345 t of
                  None \<Rightarrow> False
                | Some ret \<Rightarrow> ses_client_ip ret = Ipv4 10 99 0 1 \<and> ses_client_port ret = 12345)
             \<and> lookup_return 6 (Ipv4 8 8 8 8) 53 (Ipv4 192 168 31 49) 12345 t = None)"

definition same_flow_reuses_session :: bool where
  "same_flow_reuses_session =
     (let f = test_flow 17 ''10.99.0.1'' 5000 ''1.1.1.1'' 53;
          (s1, t) = register f ''eth0'' (Ipv4 10 0 0 5) nat_new; (s2, t) = register f ''eth0'' (Ipv4 10 0 0 5) t
      in s1 \<noteq> None \<and> (case s2 of None \<Rightarrow> False | Some s2 \<Rightarrow> sessions t = 1 \<and> ses_client_port s2 = 5000))"

definition two_flows_use_two_sessions :: bool where
  "two_flows_use_two_sessions =
     (let (s1, t) = register (test_flow 6 ''10.99.0.1'' 1000 ''8.8.8.8'' 443) ''wlan0'' (Ipv4 192 168 31 49) nat_new;
          (s2, t) = register (test_flow 6 ''10.99.0.1'' 1001 ''8.8.8.8'' 443) ''eth0'' (Ipv4 10 0 0 5) t
      in s1 \<noteq> None \<and> s2 \<noteq> None \<and> sessions t = 2)"

section \<open>\<open>stats.rs\<close> and \<open>interface.rs\<close>\<close>

definition fmt_helpers :: bool where
  "fmt_helpers =
     (fmt_bytes (Fin 1536) None = ''1.5KB''
      \<and> (let s = fmt_bps (Fin 2 * Fin 1024 * Fin 1024) in drop (length s - 2) s = ''/s''))"

text \<open>The samples the test visits; it asserts nothing of them.\<close>

definition collector_runs_without_panic :: "nat \<Rightarrow> sysfs \<Rightarrow> nat \<Rightarrow> sysfs \<Rightarrow> nat \<Rightarrow> (string, iface_sample) hmap" where
  "collector_runs_without_panic t0 fs now fs' now' =
     (let c = default_stats t0; c = refresh fs now c; c = refresh fs' now' c in st_samples c)"

definition classification_works :: bool where
  "classification_works =
     (classify ''eth0'' ''up'' = Ethernet \<and> classify ''wlP2p33s0'' ''up'' = Wifi \<and> classify ''lo'' ''unknown'' = Loopback
      \<and> classify ''wwan0'' ''unknown'' = Cellular \<and> classify ''br0'' ''up'' = Virtual \<and> classify ''netmux0'' ''up'' = Virtual)"

section \<open>They pass\<close>

lemma rejects_too_short_passes: rejects_too_short
  by (simp add: rejects_too_short_def parse_def idx_def)

lemma zeros:
  "replicate 20 0 = [0, 0, 0, 0, 0, 0, 0, 0, 0, 0, 0, 0, 0, 0, 0, 0, 0, 0, 0, 0 :: u8]"
  "replicate 12 0 = [0, 0, 0, 0, 0, 0, 0, 0, 0, 0, 0, 0 :: u8]" "replicate 8 0 = [0, 0, 0, 0, 0, 0, 0, 0 :: u8]"
  by (simp_all add: numeral_eq_Suc)

lemma update_bytes: "(x # xs)[numeral n := v] = x # xs[pred_numeral n := v]"
  by (simp add: numeral_eq_Suc)

lemma parses_ipv4_icmp_passes: parses_ipv4_icmp_no_ports
proof -
  let ?p = "[0x45, 0, 0, 0, 0, 0, 0, 0, 0, 1, 0, 0, 0, 0, 0, 0, 0, 0, 0, 0] :: bytes"
  have "parse ?p = Some (Some (v4_flow ?p))" by (rule parse_v4_packet) (simp_all add: v4_ok_def ihl_of_def)
  moreover have "v4_ports ?p = (0, 0)" by (simp add: v4_ports_def)
  ultimately show ?thesis by (simp add: parses_ipv4_icmp_no_ports_def zeros update_bytes v4_flow_def)
qed

lemma parses_ipv4_tcp_passes: parses_ipv4_tcp
proof -
  let ?p = "[0x45, 0, 0, 0, 0, 0, 0, 0, 0, 6, 0, 0, 10, 0, 0, 1, 8, 8, 8, 8, 0x1f, 0x90, 1, 0xbb] :: bytes"
  have "parse ?p = Some (Some (v4_flow ?p))" by (rule parse_v4_packet) (simp_all add: v4_ok_def ihl_of_def)
  moreover have "v4_ports ?p = (8080, 443)" by (simp add: v4_ports_def ihl_of_def be16_def)
  moreover have "show_quad 10 0 0 1 = ''10.0.0.1''" "show_quad 8 8 8 8 = ''8.8.8.8''" "show_dec 8080 = ''8080''" "show_dec 443 = ''443''"
    by (simp_all add: show_quad_def show_dec_def radix_small radix_big)
  ultimately show ?thesis
    by (simp add: parses_ipv4_tcp_def zeros update_bytes blit_def to_be16_def v4_flow_def flow_key_def)
qed

lemma checksum_known_vector_passes: checksum_known_vector
proof -
  let ?hdr = "[0x45, 0x00, 0x00, 0x73, 0x00, 0x00, 0x40, 0x00, 0x40, 0x11, 0x00, 0x00, 0xc0, 0xa8,
    0x00, 0x01, 0xc0, 0xa8, 0x00, 0xc7] :: bytes"
  have "unat (checksum ?hdr) = 65535 - oc (wsum ?hdr)" by (rule unat_checksum [OF wsum_fits]) simp
  then have "unat (checksum ?hdr) = unat (0xb861 :: u16)" by (simp add: oc_def)
  then have "checksum ?hdr = 0xb861" by (simp only: word_unat_eq_iff)
  then show ?thesis by (simp only: checksum_known_vector_def)
qed

lemma transport_checksum_passes: transport_checksum_matches
proof -
  have "transport_checksum [10, 0, 0, 1] [8, 8, 8, 8] 17 (replicate 8 0)
      = checksum (pseudo_header [10, 0, 0, 1] [8, 8, 8, 8] 17 8 @ zero_field (replicate 8 0))"
    using transport_checksum_eq [of "[10, 0, 0, 1]" "[8, 8, 8, 8]" 17 "replicate 8 0"] by simp
  then show ?thesis
    by (simp add: transport_checksum_matches_def zeros update_bytes blit_def to_be16_def pseudo_header_def zero_field_def)
qed

text \<open>The header checksum is the one recomputed over the header with a zeroed field.\<close>

lemma rewritten_header_recomputes:
  assumes rw: "rewrite_ipv4_source pkt a = Some (out, True)" and ihl: "20 \<le> ihl_of pkt"
  shows "checksum (take (ihl_of pkt) (out[10 := 0, 11 := 0])) = be16 (out ! 10) (out ! 11)"
proof -
  let ?n = "ihl_of pkt"
  have ok: "v4_ok pkt" by (rule rewrite_source_bytes(1) [OF assms])
  then have n: "?n \<le> length pkt" by (simp add: v4_ok_def)
  define z where "z = blit 10 [0, 0] (blit 12 (octets a) pkt)"
  define p where "p = blit 10 (to_be16 (checksum (take ?n z))) z"
  have lz: "length z = length pkt" "length p = length pkt" using n ihl by (simp_all add: z_def p_def)
  have out: "out = (if has_segment_sum pkt then fix_segment ?n (octets a) (quad 16 p) p else p)"
    using rw ok by (auto simp: rewrite_ipv4_source_eq fix_header_def p_def z_def Let_def split: if_splits)
  have same: "take ?n out = take ?n p"
    using lz(2) by (auto simp: out has_segment_sum_def fix_segment_def take_blit_before)
  have "p[10 := 0, 11 := 0] = blit 10 [0, 0] z"
    unfolding p_def using lz ihl n by (simp add: two_zeros_blit blit_blit_same)
  also have "\<dots> = z" unfolding z_def using ihl n by (simp add: blit_blit_same)
  finally have "take ?n (out[10 := 0, 11 := 0]) = take ?n z"
    by (simp only: take_update_swap same) (simp only: take_update_swap [symmetric])
  moreover have "out ! 10 = to_be16 (checksum (take ?n z)) ! 0" "out ! 11 = to_be16 (checksum (take ?n z)) ! 1"
  proof -
    have "out ! i = p ! i" if "i < 20" for i using same that ihl by (metis nth_take order_less_le_trans)
    then show "out ! 10 = to_be16 (checksum (take ?n z)) ! 0" "out ! 11 = to_be16 (checksum (take ?n z)) ! 1"
      using lz ihl n by (simp_all add: p_def nth_blit)
  qed
  ultimately show ?thesis using be16_to_be16 [of "checksum (take ?n z)"] by (simp del: be16_to_be16)
qed

lemma slice_quad: "i + 4 \<le> length xs \<Longrightarrow> take 4 (drop i xs) = quad i xs"
  by (auto simp: quad_def list_eq_iff_nth_eq less_Suc_eq numeral_eq_Suc)

lemma source_rewrite_passes: source_rewrite_fixes_checksums
proof -
  define pkt0 where "pkt0 = blit 22 (to_be16 0x01bb) (blit 20 (to_be16 0x1234)
    (blit 16 [8, 8, 8, 8] (blit 12 [10, 99, 0, 1] ((replicate 40 0)[0 := 0x45, 9 := 6]))))"
  define pkt where "pkt = blit 10 (to_be16 (checksum (take 20 pkt0))) pkt0"
  have "length pkt0 = 40" "pkt0 ! 0 = 0x45" "pkt0 ! 9 = 6" by (simp_all add: pkt0_def blit_out)
  then have h: "v4_ok pkt" "ihl_of pkt = 20" by (simp_all add: v4_ok_def ihl_of_def pkt_def blit_out)
  then obtain out where rw: "rewrite_ipv4_source pkt (Ipv4 192 168 31 49) = Some (out, True)"
    by (simp add: rewrite_ipv4_source_eq Let_def)
  have "take 4 (drop 12 out) = [192, 168, 31, 49]"
    using rewrite_source_bytes(2,3) [OF rw] h by (simp add: slice_quad v4_ok_def)
  moreover have "checksum (take 20 (out[10 := 0, 11 := 0])) = be16 (out ! 10) (out ! 11)"
    using rewritten_header_recomputes [OF rw] h by simp
  ultimately show ?thesis
    using rw by (simp add: source_rewrite_fixes_checksums_def Let_def pkt0_def [symmetric] pkt_def [symmetric])
qed

lemma pool_pick: "cs \<noteq> [] \<Longrightarrow> weighted_pool cs ! (i mod length (weighted_pool cs)) \<in> set cs"
  using nth_mem [of "i mod length (weighted_pool cs)" "weighted_pool cs"] by simp

lemma policy_tests_pass: empty_pool_returns_none failover_picks_highest_priority disabled_interfaces_are_skipped hash_keeps_flow_stable
proof -
  show empty_pool_returns_none failover_picks_highest_priority
    by (simp_all add: empty_pool_returns_none_def failover_picks_highest_priority_def test_iface_def select_interface_def
      usable_def default_config_def Let_def)
  let ?eth = "test_iface ''eth0'' 10 1 (Fin 0)" and ?wlan = "test_iface ''wlan0'' 10 1 (Fin 0)"
  have u: "usable [?eth, ?wlan] = [?eth, ?wlan]" "usable [?eth\<lparr>ci_policy := (ci_policy ?eth)\<lparr>pol_enabled := False\<rparr>\<rparr>, ?wlan] = [?wlan]"
    by (simp_all add: usable_def test_iface_def)
  have n: "ci_name ?eth = ''eth0''" "ci_name ?wlan = ''wlan0''" by (simp_all add: test_iface_def)
  show disabled_interfaces_are_skipped
    using pool_pick [of "[?wlan]" "unat (fnv1a (as_bytes ''x''))"] n
    by (simp add: disabled_interfaces_are_skipped_def select_interface_def u(2) default_config_def Let_def)
  show hash_keeps_flow_stable
    using pool_pick [of "[?eth, ?wlan]" "unat (fnv1a (as_bytes ''1.1.1.1:5000->8.8.8.8:443''))"] n
    by (auto simp: hash_keeps_flow_stable_def select_interface_def u(1) Let_def)
qed

lemma aggregator_tests_pass: "simulation_routes_packets fs now" "disabled_aggregator_drops fs now"
proof -
  have n: "\<exists>pkt g. next_packet len default_generator = Some (pkt, g)" for len
    by (simp add: next_packet_eq default_generator_def)
  obtain pkt g where "next_packet 128 default_generator = Some (pkt, g)" using n by blast
  moreover have "route pkt ag \<noteq> None" for ag using route_returns [of pkt ag] by auto
  ultimately show "simulation_routes_packets fs now" by (simp add: simulation_routes_packets_def aggregator_new_default)
  obtain pkt g where "next_packet 64 default_generator = Some (pkt, g)" using n by blast
  moreover have "validate (default_config\<lparr>cfg_enabled := False\<rparr>) = Inr ()" by (simp add: validate_def default_config_def)
  ultimately show "disabled_aggregator_drops fs now"
    by (simp add: disabled_aggregator_drops_def aggregator_new_def route_def refresh_candidates_def Let_def)
qed

lemma address_literals:
  "''10.99.0.1'' = show_ipv4 (Ipv4 10 99 0 1)" "''8.8.8.8'' = show_ipv4 (Ipv4 8 8 8 8)" "''1.1.1.1'' = show_ipv4 (Ipv4 1 1 1 1)"
  by (simp_all add: show_quad_def show_dec_def radix_small radix_big)

lemma nat_tests_pass: registers_and_roundtrips same_flow_reuses_session two_flows_use_two_sessions
  unfolding registers_and_roundtrips_def same_flow_reuses_session_def two_flows_use_two_sessions_def address_literals
  by (simp_all add: test_flow_def register_def parse_ip_def nat_new_def out_key_of_def ret_key_of_def sessions_def
      lookup_return_def Let_def)

lemma fmt_helpers_passes: fmt_helpers
proof -
  have "unit_loop (Fin 1536) 0 = (Fin (3 / 2), 1)"
    using round64_nat_half [of 1] by (simp add: unit_loop.simps [of "Fin 1536"] unit_loop.simps [of "Fin (3 / 2)"])
  moreover have "rne 15 = 15" using rne_of_int [of 15] by simp
  ultimately show ?thesis by (simp add: fmt_helpers_def fmt_bytes_def fmt_bps_def Let_def show_dec_def radix_small)
qed

lemma collector_runs_with_finite_rates:
  "(n, s) \<in> set (collector_runs_without_panic t0 fs now fs' now') \<Longrightarrow> sample_ok s"
proof -
  assume n: "(n, s) \<in> set (collector_runs_without_panic t0 fs now fs' now')"
  have "stats_ok (refresh fs' now' (refresh fs now (default_stats t0)))" by (intro refresh_ok default_stats_ok)
  with n show ?thesis by (auto simp: collector_runs_without_panic_def Let_def stats_ok_def hm.entries_get)
qed

lemma classification_works_passes: classification_works
  by (simp add: classification_works_def classify_def starts_with_def)

end
