(* ===== verification/Spec2Isabelle.thy ===== *)
theory Spec2Isabelle
  imports Composition Loops Entry Locks Unit_Tests
begin

text \<open>
  netmux combines the bandwidth of several network interfaces.  Client traffic is routed into a TUN
  device; \<open>netmux-app\<close> reads it packet by packet, chooses an interface per packet by the configured
  policy, rewrites the source address to the one of that interface (a userspace NAT), sends the packet
  through a raw socket bound to the interface, captures the replies, rewrites their destination back to
  the client and writes them to the TUN.  Without \<open>--tun\<close> it simulates traffic.  This development
  models the Rust sources under \<open>src/crates\<close> and proves what makes them correct, and where they are not,
  what they do instead.

  The theories, in the order of the code.  Names follow the source; a record field carries the initials of
  its type, a definition for a loop body or a block of a function is named in the text next to it.

  \<^item> \<^verbatim>\<open>Prelude\<close>: integer types, slices with their panics, hash maps (locale \<open>hash_map\<close>), numbers as text,
    invariants and refinement of transition systems (locales \<open>invariant_system\<close>, \<open>refinement\<close>).
  \<^item> \<^verbatim>\<open>Addr\<close>, \<^verbatim>\<open>F64\<close>: IPv4 text and integer parsing; binary64 arithmetic with the rounding written out.
  \<^item> \<^verbatim>\<open>Checksum\<close>, \<^verbatim>\<open>Packet\<close>: \<open>packet.rs\<close>.  The laws give the plain sum behind the checksum loops, a
    normal form of the rewriting functions and of the parser; the properties say that a rewritten packet
    is the same packet with one address changed and checksums that verify.
  \<^item> \<^verbatim>\<open>Errors\<close>, \<^verbatim>\<open>Interface\<close>, \<^verbatim>\<open>Stats\<close>, \<^verbatim>\<open>Policy\<close>, \<^verbatim>\<open>Aggregator\<close>: \<open>error.rs\<close>, \<open>interface.rs\<close>, \<open>stats.rs\<close>,
    \<open>policy.rs\<close>, \<open>aggregator.rs\<close>.  \<open>Policy\<close> states the scheduler's contract as a locale, \<open>Aggregator\<close> has
    the step relation \<open>agg_step\<close> of one aggregator and its invariant \<open>agg_ok\<close> (all rates finite, so every
    comparison of loads decides).
  \<^item> \<^verbatim>\<open>Nat_Table\<close>: \<open>nat.rs\<close>, with the invariant \<open>nat_ok\<close>, the history relation \<open>nat_step\<close> and the refinement
    of one abstract map of sessions.
  \<^item> \<^verbatim>\<open>Os\<close>, \<^verbatim>\<open>Egress\<close>, \<^verbatim>\<open>Tun\<close>: the system calls, \<open>egress.rs\<close> and \<open>tun.rs\<close>; the locale \<open>raw_socket\<close> is what
    opening and dropping a socket owes its caller.
  \<^item> \<^verbatim>\<open>Data_Plane\<close>: the loops \<open>egress_loop\<close> and \<open>capture_loop\<close> of \<open>main.rs\<close>, cut where a lock is taken or
    released, as step relations of threads over a shared \<open>world\<close>; \<open>dp_step\<close> interleaves them with the UI
    thread and with any reordering of the hash maps.  \<open>dp_inv\<close> is the invariant behind the safety
    properties, \<open>egress_rank\<close> and \<open>capture_rank\<close> the measures behind termination.
  \<^item> \<^verbatim>\<open>Gateway\<close>: what the threads amount to: an abstract gateway (\<open>gw_step\<close>) without locks, hash tables or
    program counters, the interpretation \<open>gw_ref\<close> of the locale \<open>refinement\<close> that shows the threads
    implement it, and what follows from it: packets leave in the order they were read, at most once, and
    so do the replies of each interface.
  \<^item> \<^verbatim>\<open>Loops\<close>: the two loop bodies in one piece, with their system calls and the reused buffers; they take
    the shared state exactly where a round of steps can, and the calls of the egress thread are read off.
  \<^item> \<^verbatim>\<open>Locks\<close>: the lock operations of every section of code and the threads interleaving them; the mutexes
    are taken in one order, so no interleaving deadlocks.
  \<^item> \<^verbatim>\<open>App\<close>, \<^verbatim>\<open>Startup\<close>: the application object of \<open>main.rs\<close>: construction, ticks, handlers, the numbers the
    dashboard shows; \<open>ui_step\<close> are the steps of the window's thread, \<open>app_step\<close> is the transition system of
    the application and \<open>app_ok\<close> the invariant.
  \<^item> \<^verbatim>\<open>Composition\<close>: all threads of the process: \<open>sys_step\<close> interleaves \<open>ui_step\<close>, the egress thread and the
    capture threads that were spawned; the interpretation \<open>sys_ref\<close> shows that it implements \<open>dp_step\<close>, hence
    the gateway.  A setting is followed from its button to the wire, and a link without a capture socket.
  \<^item> \<^verbatim>\<open>Elements\<close>, \<^verbatim>\<open>Views\<close>, \<^verbatim>\<open>Pages\<close>: the window.  A rendering function of \<open>main.rs\<close> is the tree of GPUI builder
    calls it makes, with the listeners and the closures of the animations in it; \<open>Pages\<close> proves which
    identifiers, controls and animations each frame has and that every click is a step of \<open>app_step\<close>.
  \<^item> \<^verbatim>\<open>Logging\<close>, \<^verbatim>\<open>Entry\<close>: \<open>logging.rs\<close>; \<open>main\<close> with its timer loop.
  \<^item> \<^verbatim>\<open>Unit_Tests\<close>: the unit tests of the crate, proved of the model.
  \<^item> This theory: properties that span the components, from the command line to the wire.

  What is outside the sources is a parameter: the kernel (\<open>kernel\<close>, an arbitrary function from the state and
  the call to its outcome), \<open>/sys/class/net\<close> (\<open>sysfs\<close>), the clock, the interface addresses reported by
  \<open>if_addrs\<close>, the byte order of the host, the C library's error texts, the functions of the tracing library,
  the width and the appearance of the window.  Three hypotheses are made about
  the kernel, all documented behaviour: \<open>fresh_fds\<close>, a new descriptor is not an open one, \<open>keeps_names\<close>,
  \<open>TUNSETIFF\<close> leaves a plain device name as it is, and \<open>honest_reads\<close>, a read returns the number of the
  bytes it has written.  Theorems that use one name it.

  A panic is \<open>None\<close> of the type \<open>rust\<close>.  Loops are total functions: index loops by measures, the extension
  headers of IPv6 by the source's own bound of 8, the simulation by its bound of 2000 packets; the two endless
  thread loops are step relations (and, in \<open>Loops\<close>, iterated any given number of times, shown to return
  for every number), and the timer loop of \<open>main\<close> is a function of the list of its iterations,
  shown to return for every list.  Integers are words of their width.  Sums that cannot wrap are shown not
  to (131072 bytes for the checksum accumulator); counters that can are stated modulo \<open>2 ^ 64\<close>.  A hash map is the
  list of its entries in iteration order.  Strings are lists of UTF-8 bytes; \<open>trim\<close> knows the ASCII white space,
  which is all the kernel writes.

  Not modelled: what the GPUI library does with a tree of builder calls (layout, painting, dispatch of a click
  to its listener, the spring curve between the two ends of an animation), its window and timer, the tracing
  library, the serde derives, and memory exhaustion.
\<close>

section \<open>From startup to the wire\<close>

text \<open>The whole tunnel, from the command line to the wire.  When \<open>app_new\<close> starts in tunnelling mode,
  then under every interleaving of the threads it spawned no thread panics, and every packet sent went
  to a socket bound to the interface it was filed under, carries as its source the IPv4 address the
  system reported for that interface when the program started, has a valid header checksum and belongs
  to a NAT session.\<close>

theorem tunnel_sound:
  assumes "keeps_names k" and "app_new strerror k le args fs now ifas os = (Some (self, Some lk), os')"
    and "(dp_step (ln_ips lk) (ln_egress lk))\<^sup>*\<^sup>* (app_world self, E_Read, \<lambda>i. C_Recv) (w, e, c)"
  shows "e \<noteq> E_Panicked \<and> c i \<noteq> C_Panicked
    \<and> (\<forall>(iface, dst, out) \<in> set (w_sent w). header_ok out \<and> quad 16 out = octets dst
         \<and> (\<exists>sock. hm_get (ln_egress lk) iface = Some sock \<and> re_ifname sock = iface)
         \<and> (\<exists>ip. hm_get (ipv4_addrs ifas) iface = Some ip \<and> quad 12 out = octets ip)
         \<and> (\<exists>ses \<in> live (w_nat w). ses_server_ip ses = dst \<and> ses_proto ses = out ! 9
              \<and> v4_ports out = (ses_client_port ses, ses_server_port ses)))"
proof -
  obtain fs' now' m b cs os1 where st: "started fs' now' m b self"
    and sd: "start_data_plane k le ifas cs os1 = (lk, os')"
    by (cases rule: app_new_cases [OF assms(1), of args le os strerror fs now ifas]) (use assms(2) in auto)
  note lk = start_data_plane_ok [OF sd, unfolded links_ok_def]
  have inv: "dp_inv (ln_ips lk) (w, e, c)"
    by (rule dp_sys.steps_inv [OF assms(3) started_dp_inv [OF st]])
  then have "egress_pc_ok (ln_ips lk) (w_nat w) e" "capture_pc_ok (w_nat w) (c i)" by (simp_all add: dp_inv_def)
  then have np: "e \<noteq> E_Panicked" "c i \<noteq> C_Panicked" by auto
  have "header_ok out \<and> quad 16 out = octets dst
      \<and> (\<exists>sock. hm_get (ln_egress lk) iface = Some sock \<and> re_ifname sock = iface)
      \<and> (\<exists>ip. hm_get (ipv4_addrs ifas) iface = Some ip \<and> quad 12 out = octets ip)
      \<and> (\<exists>ses \<in> live (w_nat w). ses_server_ip ses = dst \<and> ses_proto ses = out ! 9
           \<and> v4_ports out = (ses_client_port ses, ses_server_port ses))" if x: "(iface, dst, out) \<in> set (w_sent w)" for iface dst out
  proof -
    have "sent_ok (ln_ips lk) (w_nat w) (iface, dst, out)" using inv x by (auto simp: dp_inv_def world_ok_def)
    then obtain ip where ip: "hm_get (ln_ips lk) iface = Some ip" "quad 12 out = octets ip" and rest: "header_ok out"
      "quad 16 out = octets dst" "\<exists>ses \<in> live (w_nat w). ses_server_ip ses = dst \<and> ses_proto ses = out ! 9
           \<and> v4_ports out = (ses_client_port ses, ses_server_port ses)"
      unfolding sent_ok_def by blast
    have "hm_get (ipv4_addrs ifas) iface = Some ip" using lk ip(1) by blast
    moreover have "iface \<in> dom (hm_get (ln_egress lk))" using lk ip(1) by (metis domI)
    then obtain sock where "hm_get (ln_egress lk) iface = Some sock" by blast
    moreover from this have "re_ifname sock = iface" using lk by blast
    ultimately show ?thesis using ip(2) rest by blast
  qed
  with np show ?thesis by blast
qed

definition wire_fs :: sysfs where
  "wire_fs = \<lparr>net_dir = Inr [Entry (Some ''eth0'')],
     attr = (\<lambda>n f. if f = ''flags'' then Some ''1'' else if f = ''carrier'' then Some ''1'' else None)\<rparr>"

lemma wire_candidates:
  assumes "started wire_fs now m b self"
  shows "\<exists>c. ag_candidates (w_agg (app_world self)) = [c] \<and> ci_name c = ''eth0'' \<and> pol_enabled (ci_policy c) \<and> ci_healthy c"
proof -
  have "read_flags (Some ''1'') = 1"
    by (simp add: read_flags_def trim_def is_space_def parse_uint_def to_digit_def digits_value_def horner_def)
  then have "if_is_up (read_interface wire_fs ''eth0'') \<and> if_carrier (read_interface wire_fs ''eth0'')
      \<and> if_kind (read_interface wire_fs ''eth0'') = Ethernet"
    by (simp add: read_interface_def wire_fs_def read_bool_def trim_def is_space_def classify_def Let_def)
  moreover have "enumerate_interfaces wire_fs = Inr [read_interface wire_fs ''eth0'']"
    by (simp add: enumerate_interfaces_def) (simp add: wire_fs_def)
  ultimately show ?thesis using assms
    by (simp add: started_def refresh_candidates_def candidate_of_def Let_def default_config_def default_policy_def with_priority_def)
qed

lemma easy_sys:
  "\<not> opens c \<Longrightarrow> (\<nexists>fd n. c = Sys_recv fd n \<or> c = Sys_read fd n) \<Longrightarrow> easy_kernel [] os c = Ret 1 []"
  "opens c \<Longrightarrow> finite (os_fds os) \<Longrightarrow> easy_kernel [] os c = Ret (Max (insert 2 (os_fds os)) + 1) []"
  by (auto simp: easy_kernel_def split: syscall.splits)

lemma easy_egress_open:
  assumes "finite (os_fds os)" "CHR 0x00 \<notin> set n"
  shows "\<exists>sock os'. egress_open (easy_kernel []) le n os = (Inr sock, os')"
  using assms by (simp add: egress_open_def sys_def easy_sys cstring_def Let_def)

lemma easy_tun_create: "\<exists>t os'. tun_create (easy_kernel []) le ''netmux0'' os0 = (Some (Inr t), os') \<and> finite (os_fds os')"
proof -
  obtain req where "tun_request le [0x6e, 0x65, 0x74, 0x6d, 0x75, 0x78, 0x30] = Some req"
    using tun_request_some [of "[0x6e, 0x65, 0x74, 0x6d, 0x75, 0x78, 0x30]" le] by simp
  then show ?thesis
    by (simp add: tun_create_def netmux0_cstring sys_def easy_sys os0_def Let_def)
qed

lemma wire_started:
  "\<exists>self lk os' sock. app_new (\<lambda>n. []) (easy_kernel []) True [''--tun''] wire_fs 0 [(''eth0'', V4 sample_ip)] os0
       = (Some (self, Some lk), os') \<and> started wire_fs 0 Tunnelling None self
     \<and> hm_get (ln_ips lk) ''eth0'' = Some sample_ip \<and> hm_get (ln_egress lk) ''eth0'' = Some sock"
proof (cases rule: app_new_cases [OF easy_keeps_names [of "[]"], of "[''--tun'']" True os0 "\<lambda>n. []" wire_fs 0 "[(''eth0'', V4 sample_ip)]"])
  case (1 self t os1 os2 lk os')
  have "finite (os_fds os2)" using easy_tun_create [of True] 1(2) 1(7) [OF easy_kernel_fresh] by auto
  then obtain sock os3 where sock: "egress_open (easy_kernel []) True ''eth0'' os2 = (Inr sock, os3)"
    using easy_egress_open [of os2 "''eth0''" True] by auto
  obtain c where c: "ag_candidates (w_agg (app_world self)) = [c]" "ci_name c = ''eth0''" "pol_enabled (ci_policy c)" "ci_healthy c"
    using wire_candidates [OF 1(5)] by blast
  have "hm_get (ln_ips lk) ''eth0'' = Some sample_ip \<and> hm_get (ln_egress lk) ''eth0'' = Some sock"
    using 1(6) sock unfolding c(1)
    by (auto simp: start_data_plane_def open_link_def ipv4_addrs_def c(2-4) Let_def split: prod.splits sum.splits)
  with 1(4,5) show ?thesis by blast
qed (use easy_tun_create [of True] in auto)

lemma tcp_sample_read: "tcp_sample \<noteq> []" "length tcp_sample \<le> MAX_PACKET"
  by (simp_all add: tcp_sample_def MAX_PACKET_def)

text \<open>A run from the command line: a packet of a client is read, scheduled, registered, rewritten and sent.\<close>

lemma wire_pick:
  "\<exists>self lk os' sock ag.
     app_new (\<lambda>n. []) (easy_kernel []) True [''--tun''] wire_fs 0 [(''eth0'', V4 sample_ip)] os0 = (Some (self, Some lk), os')
     \<and> started wire_fs 0 Tunnelling None self \<and> egress_pick (ln_ips lk) (ln_egress lk) tcp_sample (w_agg (app_world self))
         = Some (Some (v4_flow tcp_sample, ''eth0'', sample_ip, sock, Ipv4 8 8 8 8), ag)"
proof -
  obtain self lk os' sock where new: "app_new (\<lambda>n. []) (easy_kernel []) True [''--tun''] wire_fs 0 [(''eth0'', V4 sample_ip)] os0
       = (Some (self, Some lk), os')" "started wire_fs 0 Tunnelling None self"
    and lk: "hm_get (ln_ips lk) ''eth0'' = Some sample_ip" "hm_get (ln_egress lk) ''eth0'' = Some sock"
    using wire_started by blast
  have ag: "agg_ok (w_agg (app_world self))" "cfg_enabled (app_config self)"
    using started_ok [OF new(2)] new(2)
    by (auto simp: app_ok_def started_def refresh_candidates_def Let_def default_config_def)
  obtain cd where "ag_candidates (w_agg (app_world self)) = [cd]" "ci_name cd = ''eth0''" "pol_enabled (ci_policy cd)" "ci_healthy cd"
    using wire_candidates [OF new(2)] by blast
  then have cs: "\<forall>c \<in> set (ag_candidates (w_agg (app_world self))). ci_name c = ''eth0''"
    "usable (ag_candidates (w_agg (app_world self))) \<noteq> []" by (simp_all add: usable_def)
  show ?thesis using one_link_pick [OF ag cs lk] new by blast
qed

lemma wire_run:
  "\<exists>self lk os' view out.
     app_new (\<lambda>n. []) (easy_kernel []) True [''--tun''] wire_fs 0 [(''eth0'', V4 sample_ip)] os0 = (Some (self, Some lk), os')
     \<and> (sys_step lk)\<^sup>*\<^sup>* (self, E_Read, \<lambda>i. C_Recv) (view, E_Sent (length out), \<lambda>i. C_Recv)
     \<and> w_sent (app_world view) = [(''eth0'', Ipv4 8 8 8 8, out)]"
proof -
  obtain self lk os' sock ag where new: "app_new (\<lambda>n. []) (easy_kernel []) True [''--tun''] wire_fs 0 [(''eth0'', V4 sample_ip)] os0
       = (Some (self, Some lk), os')" "started wire_fs 0 Tunnelling None self"
    and pick: "egress_pick (ln_ips lk) (ln_egress lk) tcp_sample (w_agg (app_world self))
       = Some (Some (v4_flow tcp_sample, ''eth0'', sample_ip, sock, Ipv4 8 8 8 8), ag)"
    using wire_pick by blast
  define w0 where "w0 = app_world self"
  have w0: "w_nat w0 = nat_new" "w_sent w0 = []" using new(2) by (simp_all add: w0_def started_def)
  obtain out where out: "egress_rewrite tcp_sample sample_ip = Some (Some out)"
    using tcp_rewritten unfolding egress_rewrite_iff by blast
  let ?c = "\<lambda>i :: string. C_Recv" and ?n = "add_session tcp_session nat_new"
  let ?E = "egress_step (ln_ips lk) (ln_egress lk)" and ?S = "sys_step lk"
  let ?w1 = "w0\<lparr>w_agg := ag\<rparr>" and ?w2 = "w0\<lparr>w_agg := ag, w_nat := ?n\<rparr>"
  let ?w3 = "?w2\<lparr>w_sent := [(''eth0'', Ipv4 8 8 8 8, out)]\<rparr>"
  have steps: "?E (w0, E_Read) (w0, E_Got tcp_sample)"
    "?E (w0, E_Got tcp_sample) (?w1, E_Picked tcp_sample (v4_flow tcp_sample) ''eth0'' sample_ip (Ipv4 8 8 8 8))"
    "?E (?w1, E_Picked tcp_sample (v4_flow tcp_sample) ''eth0'' sample_ip (Ipv4 8 8 8 8))
        (?w2, E_Registered tcp_sample ''eth0'' sample_ip (Ipv4 8 8 8 8))"
    "?E (?w2, E_Registered tcp_sample ''eth0'' sample_ip (Ipv4 8 8 8 8)) (?w2, E_Out out ''eth0'' (Ipv4 8 8 8 8))"
    "?E (?w2, E_Out out ''eth0'' (Ipv4 8 8 8 8)) (?w3, E_Sent (length out))"
    using e_pick [of "ln_ips lk" "ln_egress lk" tcp_sample w0] pick tcp_register w0
      e_register [of _ _ _ ?w1 _ _ "ln_ips lk" "ln_egress lk"] e_send [of "ln_ips lk" "ln_egress lk" ?w2]
      e_read [of tcp_sample "ln_ips lk" "ln_egress lk" w0] tcp_sample_read
    by (auto simp: w0_def intro: e_rewrite [OF out])
  have lift: "?S\<^sup>*\<^sup>* (self, E_Read, ?c) (self\<lparr>app_world := w2\<rparr>, e2, ?c)"
    if "?S\<^sup>*\<^sup>* (self, E_Read, ?c) (self\<lparr>app_world := w1\<rparr>, e1, ?c)" "?E (w1, e1) (w2, e2)" for w1 e1 w2 e2
    using that(1) sys_egress [of lk "self\<lparr>app_world := w1\<rparr>" e1 w2 e2 ?c] that(2) by (auto intro: rtranclp.rtrancl_into_rtrancl)
  have "?S\<^sup>*\<^sup>* (self, E_Read, ?c) (self\<lparr>app_world := w0\<rparr>, E_Read, ?c)" by (simp add: w0_def)
  from lift [OF lift [OF lift [OF lift [OF lift [OF this steps(1)] steps(2)] steps(3)] steps(4)] steps(5)]
  have "?S\<^sup>*\<^sup>* (self, E_Read, ?c) (self\<lparr>app_world := ?w3\<rparr>, E_Sent (length out), ?c)" .
  moreover have "w_sent (app_world (self\<lparr>app_world := ?w3\<rparr>)) = [(''eth0'', Ipv4 8 8 8 8, out)]" by simp
  ultimately show ?thesis using new(1) by blast
qed

lemma wire_init:
  "app_new strerror k le args fs now ifas os = (Some (self, Some lk), os') \<Longrightarrow> keeps_names k \<Longrightarrow> sys_init lk (self, E_Read, \<lambda>i. C_Recv)"
  unfolding sys_init_def by blast

lemma tunnel_sound_witness:
  "\<exists>self lk os' w e out.
     app_new (\<lambda>n. []) (easy_kernel []) True [''--tun''] wire_fs 0 [(''eth0'', V4 sample_ip)] os0 = (Some (self, Some lk), os')
     \<and> (dp_step (ln_ips lk) (ln_egress lk))\<^sup>*\<^sup>* (app_world self, E_Read, \<lambda>i. C_Recv) (w, e, \<lambda>i. C_Recv)
     \<and> w_sent w = [(''eth0'', Ipv4 8 8 8 8, out)] \<and> header_ok out \<and> quad 12 out = [192, 168, 31, 49]"
proof -
  obtain self lk os' view out where new: "app_new (\<lambda>n. []) (easy_kernel []) True [''--tun''] wire_fs 0 [(''eth0'', V4 sample_ip)] os0
      = (Some (self, Some lk), os')"
    and run: "(sys_step lk)\<^sup>*\<^sup>* (self, E_Read, \<lambda>i. C_Recv) (view, E_Sent (length out), \<lambda>i. C_Recv)"
    and w: "w_sent (app_world view) = [(''eth0'', Ipv4 8 8 8 8, out)]" using wire_run by blast
  have dp: "(dp_step (ln_ips lk) (ln_egress lk))\<^sup>*\<^sup>* (app_world self, E_Read, \<lambda>i. C_Recv)
      (app_world view, E_Sent (length out), \<lambda>i. C_Recv)"
    using sys_ref.reachable_refines [OF wire_init [OF new easy_keeps_names] run] by (simp add: sys_abs_def)
  from tunnel_sound [OF easy_keeps_names new dp] new dp w show ?thesis
    by (intro exI [of _ self] exI [of _ lk] exI [of _ os'] exI [of _ "app_world view"] exI [of _ "E_Sent (length out)"] exI [of _ out])
      (simp add: ipv4_addrs_def)
qed



text \<open>C2: Switching a link off works.  In tunnelling mode, after the button that disables an interface
  and the next tick, and as long as the interface stays disabled, whatever else the user does and
  however the threads interleave: no packet is scheduled on that interface, and nothing is sent through
  it but at most the one packet the egress thread was already carrying to it.\<close>

theorem switched_off_link_goes_silent:
  assumes "app_mode self = Tunnelling" and "iface_action (Enable n False) self = Some self1"
    and "app_tick fs now fs' later self1 = Some self2"
    and "(off_step lk n)\<^sup>*\<^sup>* (self2, e, c) (view, e', c')"
  shows "length (sent_via n (app_world view)) + in_flight n e' \<le> length (sent_via n (app_world self)) + in_flight n e
    \<and> egress_pick (ln_ips lk) (ln_egress lk) pkt (w_agg (app_world view)) \<noteq> Some (Some (f, n, ip, sock, dst), ag')"
proof -
  have s1: "switched_off n (w_agg (app_world self1))" "app_mode self1 = Tunnelling" "w_sent (app_world self1) = w_sent (app_world self)"
    using assms(1,2) by (auto simp: iface_action_def upd_config_world switched_off_def Let_def hm_simps)
  have s2: "w_agg (app_world self2) = agg_tick fs now fs' (w_agg (app_world self1))" "w_sent (app_world self2) = w_sent (app_world self1)"
    using assms(3) s1(2) by (auto simp: app_tick_def tun_tick_def Let_def)
  have "quiet n (length (sent_via n (app_world self)) + in_flight n e) (self2, e, c)"
    using tick_out_of_use [OF s1(1)] s1 s2 by (simp add: quiet_def sent_via_def agg_tick_frame)
  from off_sys.steps_inv [OF assms(4) this]
  have q: "quiet n (length (sent_via n (app_world self)) + in_flight n e) (view, e', c')" .
  then have "out_of_use n (w_agg (app_world view))" by (simp add: quiet_def)
  from pick_out_of_use [OF this] q show ?thesis unfolding quiet_def by blast
qed

lemma switched_off_link_goes_silent_witness:
  "\<exists>self lk view sock ag. egress_pick (ln_ips lk) (ln_egress lk) tcp_sample (w_agg (app_world self))
       = Some (Some (v4_flow tcp_sample, ''eth0'', sample_ip, sock, Ipv4 8 8 8 8), ag)
     \<and> (sys_step lk)\<^sup>*\<^sup>* (self, E_Read, \<lambda>i. C_Recv) (view, E_Got tcp_sample, \<lambda>i. C_Recv)
     \<and> (\<nexists>sock ag. egress_pick (ln_ips lk) (ln_egress lk) tcp_sample (w_agg (app_world view))
          = Some (Some (v4_flow tcp_sample, ''eth0'', sample_ip, sock, Ipv4 8 8 8 8), ag))"
proof -
  obtain self and lk :: links and sock ag where st: "started wire_fs 0 Tunnelling None self"
    and pick: "egress_pick (ln_ips lk) (ln_egress lk) tcp_sample (w_agg (app_world self))
       = Some (Some (v4_flow tcp_sample, ''eth0'', sample_ip, sock, Ipv4 8 8 8 8), ag)"
    using wire_pick by blast
  have m: "app_mode self = Tunnelling" using st by (simp add: started_def refresh_candidates_def Let_def)
  have ok: "app_ok self" by (rule started_ok [OF st])
  obtain self1 where s1: "iface_action (Enable ''eth0'' False) self = Some self1" "app_ok self1"
    using iface_action_ok [OF ok, of "Enable ''eth0'' False"] by auto
  obtain self2 where s2: "app_tick wire_fs 1 wire_fs 1 self1 = Some self2" using app_tick_ok [OF s1(2)] by blast
  have u: "ui_step self self1" "ui_step self1 self2"
    by (rule ui_iface [OF s1(1)]) (simp, rule ui_ticked [OF s2])
  let ?c = "\<lambda>i :: string. C_Recv"
  have "egress_step (ln_ips lk) (ln_egress lk) (app_world self2, E_Read) (app_world self2, E_Got tcp_sample)"
    by (rule e_read) (simp_all add: tcp_sample_read)
  from sys_egress [OF this, of ?c] have r: "sys_step lk (self2, E_Read, ?c) (self2, E_Got tcp_sample, ?c)" by simp
  have "app_mode self1 = Tunnelling" using s1(1) m by (auto simp: iface_action_def)
  then have "app_config self2 = app_config self1"
    using s2 by (auto simp: app_tick_def tun_tick_def Let_def agg_tick_frame)
  then have "switched_off ''eth0'' (w_agg (app_world self2))"
    using s1(1) by (auto simp: iface_action_def switched_off_def hm_simps Let_def)
  with r have "(off_step lk ''eth0'')\<^sup>*\<^sup>* (self2, E_Read, ?c) (self2, E_Got tcp_sample, ?c)" by (auto simp: off_step_def)
  note silent = switched_off_link_goes_silent [OF m s1(1) s2 this]
  have "(sys_step lk)\<^sup>*\<^sup>* (self, E_Read, ?c) (self2, E_Got tcp_sample, ?c)"
    using sys_ui [OF u(1)] sys_ui [OF u(2)] r by (meson converse_rtranclp_into_rtranclp rtranclp.rtrancl_refl)
  with pick silent show ?thesis by blast
qed

text \<open>Links are opened once.  A packet that the scheduler assigns to an interface that was not an enabled,
  healthy candidate with an IPv4 address when the program started is silently dropped, although the
  decision is recorded in the flow table: there is no fallback to a link that is open, and an
  interface that comes up later stays unusable until the program is restarted.\<close>

theorem late_link_drops:
  assumes "start_data_plane k le ifas cs os = (lk, os')"
    and "\<not> (\<exists>c \<in> set cs. ci_name c = n \<and> pol_enabled (ci_policy c) \<and> ci_healthy c) \<or> hm_get (ipv4_addrs ifas) n = None"
    and "route pkt ag = Some (Some d, ag')" and "fd_interface d = Some n"
  shows "egress_pick (ln_ips lk) (ln_egress lk) pkt ag = Some (None, ag')
    \<and> hm_get (ag_flow_table ag') (flow_key (fd_flow d)) = Some n"
proof -
  have "hm_get (ln_ips lk) n = None"
    using start_data_plane_ok [OF assms(1)] assms(2) unfolding links_ok_def by (metis not_Some_eq)
  moreover obtain f where "parse pkt = Some (Some f)" "hm_get (ag_flow_table ag') (flow_key (fd_flow d)) = Some n"
  proof (cases rule: route_cases [of ag pkt])
    case (decided f m ag'')
    obtain rr where rr: "ag'' = ag\<lparr>ag_rr_counter := rr, ag_flow_table := hm_insert (flow_key f) m (ag_flow_table ag)\<rparr>"
      using agg_select_some(2) [OF decided(3)] ..
    have "ag' = ag''" "d = \<lparr>fd_flow = f, fd_interface = Some m\<rparr>" using decided(4) assms(3) by auto
    with decided(2) rr assms(4) show thesis by (intro that [of f]) (simp_all add: hm.get_insert)
  qed (use assms(3) in auto)
  ultimately show ?thesis using assms(3,4) by (simp add: egress_pick_def)
qed

lemma late_link_drops_witness:
  "\<exists>lk os' ag'. start_data_plane (easy_kernel []) True [] two_links os0 = (lk, os')
     \<and> egress_pick (ln_ips lk) (ln_egress lk) tcp_sample sim_agg = Some (None, ag')
     \<and> hm_get (ag_flow_table ag') (flow_key (v4_flow tcp_sample)) = Some ''eth0''"
proof -
  obtain lk os' where s: "start_data_plane (easy_kernel []) True [] two_links os0 = (lk, os')" by fastforce
  obtain ag' where r: "route tcp_sample sim_agg
      = Some (Some \<lparr>fd_flow = v4_flow tcp_sample, fd_interface = Some ''eth0''\<rparr>, ag')"
    using sim_agg_routes ..
  from late_link_drops [OF s _ r, of "''eth0''"] s show ?thesis by (auto simp: ipv4_addrs_def)
qed

end
